(* ===== verification/Prelude.thy ===== *)
theory Prelude
  imports Main "HOL-Library.Word"
begin

text \<open>
  Shared vocabulary of the development: Python's exceptions as values, results that are an
  exception or a value, big-endian bit fields and byte strings, Python's
  \<^verbatim>\<open>int.to_bytes\<close> and \<^verbatim>\<open>int.from_bytes\<close>, and cutting a list into
  equal pieces.  A bit string is a list of booleans, most significant bit first; a byte is an
  8-bit word; Python's integers are \<open>int\<close>.
\<close>

named_theorems codec_simps "sizes and inverses of the bit and byte encodings"

section \<open>Exceptions and results\<close>

datatype py_error =
    AssertionError
  | TypeError
  | ValueError
  | IndexError
  | OverflowError
  | ZeroDivisionError
  | AttributeError
  | UnboundLocalError
  | NotImplementedError
  | CreationError      \<comment> \<open>bitstring: a value does not fit its field\<close>
  | ReadError          \<comment> \<open>bitstring: not enough bits left\<close>
  | InterpretError     \<comment> \<open>bitstring: not a whole number of bytes\<close>
  | CherryError string \<comment> \<open>\<^verbatim>\<open>class CherryError(Exception)\<close> of compiler.py\<close>

type_synonym 'a res = "py_error + 'a"

definition bind_res :: "'a res \<Rightarrow> ('a \<Rightarrow> 'b res) \<Rightarrow> 'b res" where
  "bind_res r f = (case r of Inl e \<Rightarrow> Inl e | Inr x \<Rightarrow> f x)"

definition assert_res :: "bool \<Rightarrow> 'a res \<Rightarrow> 'a res" where
  "assert_res c r = (if c then r else Inl AssertionError)"

lemma bind_res_simps [simp]:
  "bind_res (Inl e) f = Inl e"
  "bind_res (Inr x) f = f x"
  by (simp_all add: bind_res_def)

lemma bind_res_Inr_iff:
  "bind_res r f = Inr y \<longleftrightarrow> (\<exists>x. r = Inr x \<and> f x = Inr y)"
  by (cases r) auto

lemma assert_res_simps [simp]:
  "c \<Longrightarrow> assert_res c r = r"
  "\<not> c \<Longrightarrow> assert_res c r = Inl AssertionError"
  by (simp_all add: assert_res_def)

lemma assert_res_Inr_iff: "assert_res c r = Inr y \<longleftrightarrow> c \<and> r = Inr y"
  by (simp add: assert_res_def)

lemmas res_Inr_iffs = bind_res_Inr_iff assert_res_Inr_iff

text \<open>A Python loop that builds a list from fallible elements, left to right.\<close>

fun map_res :: "('a \<Rightarrow> 'b res) \<Rightarrow> 'a list \<Rightarrow> 'b list res" where
  "map_res f [] = Inr []"
| "map_res f (x # xs) = bind_res (f x) (\<lambda>y. bind_res (map_res f xs) (\<lambda>ys. Inr (y # ys)))"

lemma map_res_Inr: "(\<And>x. x \<in> set xs \<Longrightarrow> f x = Inr (g x)) \<Longrightarrow> map_res f xs = Inr (map g xs)"
  by (induction xs) auto

lemma map_res_length: "map_res f xs = Inr ys \<Longrightarrow> length ys = length xs"
  by (induction xs arbitrary: ys) (auto simp: bind_res_Inr_iff)

lemma map_res_nth:
  "map_res f xs = Inr ys \<Longrightarrow> i < length xs \<Longrightarrow> f (xs ! i) = Inr (ys ! i)"
  by (induction xs arbitrary: ys i) (auto simp: bind_res_Inr_iff nth_Cons split: nat.split)

lemma map_res_append:
  "map_res f (xs @ ys) =
     bind_res (map_res f xs) (\<lambda>us. bind_res (map_res f ys) (\<lambda>vs. Inr (us @ vs)))"
proof (induction xs)
  case Nil
  show ?case by (cases "map_res f ys") simp_all
next
  case (Cons x xs)
  then show ?case
    by (cases "f x"; cases "map_res f xs"; cases "map_res f ys") simp_all
qed

section \<open>Bit fields\<close>

type_synonym byte = "8 word"
type_synonym bits = "bool list"

text \<open>The \<open>w\<close> low bits of an integer, most significant first; for a negative integer
  these are its two's complement.\<close>

definition uint_bits :: "nat \<Rightarrow> int \<Rightarrow> bits" where
  "uint_bits w v = rev (map (bit v) [0..<w])"

definition bits_uint :: "bits \<Rightarrow> int" where
  "bits_uint bs = horner_sum of_bool 2 (rev bs)"

text \<open>Two's complement reading of a field of the list's length.\<close>

definition bits_sint :: "bits \<Rightarrow> int" where
  "bits_sint bs = signed_take_bit (length bs - 1) (bits_uint bs)"

lemma length_uint_bits [simp, codec_simps]: "length (uint_bits w v) = w"
  by (simp add: uint_bits_def)

lemma uint_bits_0 [simp]: "uint_bits 0 v = []"
  by (simp add: uint_bits_def)

lemma nth_uint_bits: "i < w \<Longrightarrow> uint_bits w v ! i = bit v (w - 1 - i)"
  by (simp add: uint_bits_def rev_nth)

lemma bits_uint_uint_bits [codec_simps]: "bits_uint (uint_bits w v) = take_bit w v"
  by (simp add: bits_uint_def uint_bits_def horner_sum_bit_eq_take_bit)

lemma bits_uint_small: "0 \<le> v \<Longrightarrow> v < 2 ^ w \<Longrightarrow> bits_uint (uint_bits w v) = v"
  by (simp add: bits_uint_uint_bits take_bit_int_eq_self)

lemma bits_sint_uint_bits:
  "0 < w \<Longrightarrow> bits_sint (uint_bits w v) = signed_take_bit (w - 1) v"
  by (cases w) (simp_all add: bits_sint_def bits_uint_uint_bits signed_take_bit_take_bit)

lemma bits_sint_small:
  "- (2 ^ n) \<le> v \<Longrightarrow> v < 2 ^ n \<Longrightarrow> bits_sint (uint_bits (Suc n) v) = v"
  by (simp add: bits_sint_uint_bits signed_take_bit_int_eq_self)

lemma bits_uint_range: "0 \<le> bits_uint bs \<and> bits_uint bs < 2 ^ length bs"
proof -
  have "(horner_sum of_bool 2 (rev bs) :: int) < 2 ^ length (rev bs)"
    by (rule horner_sum_of_bool_2_less)
  then show ?thesis
    by (simp add: bits_uint_def horner_sum_nonnegative)
qed

lemma bit_bits_uint: "bit (bits_uint bs) n \<longleftrightarrow> n < length bs \<and> bs ! (length bs - 1 - n)"
  by (auto simp: bits_uint_def bit_horner_sum_bit_iff rev_nth)

lemma uint_bits_bits_uint [codec_simps]: "uint_bits (length bs) (bits_uint bs) = bs"
  by (rule nth_equalityI) (auto simp: nth_uint_bits bit_bits_uint)

lemma uint_bits_bits_uint_len: "length bs = w \<Longrightarrow> uint_bits w (bits_uint bs) = bs"
  using uint_bits_bits_uint by blast

lemma bits_uint_inj: "length xs = length ys \<Longrightarrow> bits_uint xs = bits_uint ys \<Longrightarrow> xs = ys"
  by (metis uint_bits_bits_uint)

lemma bits_uint_append: "bits_uint (xs @ ys) = bits_uint xs * 2 ^ length ys + bits_uint ys"
  by (simp add: bits_uint_def horner_sum_append)

lemma bits_uint_Nil [simp]: "bits_uint [] = 0"
  by (simp add: bits_uint_def)

lemma bits_uint_Cons [simp]: "bits_uint (b # bs) = of_bool b * 2 ^ length bs + bits_uint bs"
  using bits_uint_append [of "[b]" bs] by (simp add: bits_uint_def)

lemma uint_bits_inj_iff:
  "0 \<le> a \<Longrightarrow> a < 2 ^ w \<Longrightarrow> 0 \<le> b \<Longrightarrow> b < 2 ^ w \<Longrightarrow> uint_bits w a = uint_bits w b \<longleftrightarrow> a = b"
  using bits_uint_small [of a w] bits_uint_small [of b w] by metis

lemma bits_uint_zeros [simp]: "bits_uint (replicate n False) = 0"
  by (induction n) (simp_all add: bits_uint_def horner_sum_append flip: replicate_append_same)

lemma uint_bits_add:
  "uint_bits (m + n) v = uint_bits m (drop_bit n v) @ uint_bits n v"
  by (rule nth_equalityI) (auto simp: nth_uint_bits nth_append bit_drop_bit_eq intro!: arg_cong [of _ _ "bit v"])

lemma uint_bits_zero [simp]: "uint_bits w 0 = replicate w False"
  by (rule nth_equalityI) (simp_all add: nth_uint_bits)

lemma uint_bits_flag [simp]:
  "uint_bits (Suc 0) (of_bool b) = [b]"
  "uint_bits (Suc 0) 1 = [True]"
  by (simp_all add: uint_bits_def)

lemma uint_bits_take_bit: "uint_bits w (take_bit w v) = uint_bits w v"
  by (rule nth_equalityI) (auto simp: nth_uint_bits bit_take_bit_iff)

section \<open>Bytes\<close>

definition byte_bits :: "byte \<Rightarrow> bits" where
  "byte_bits b = uint_bits 8 (uint b)"

definition bits_byte :: "bits \<Rightarrow> byte" where
  "bits_byte bs = word_of_int (bits_uint bs)"

definition bytes_bits :: "byte list \<Rightarrow> bits" where
  "bytes_bits bs = concat (map byte_bits bs)"

lemma length_byte_bits [simp, codec_simps]: "length (byte_bits b) = 8"
  by (simp add: byte_bits_def)

lemma take_bit_uint_byte [simp]: "take_bit 8 (uint (b :: byte)) = uint b"
  using uint_bounded [of b] by (simp add: take_bit_int_eq_self)

lemma bits_byte_byte_bits [simp, codec_simps]: "bits_byte (byte_bits b) = b"
  by (simp add: bits_byte_def byte_bits_def bits_uint_uint_bits)

lemma byte_bits_bits_byte: "length bs = 8 \<Longrightarrow> byte_bits (bits_byte bs) = bs"
proof -
  assume len: "length bs = 8"
  have "uint (word_of_int (bits_uint bs) :: byte) = bits_uint bs"
    using bits_uint_range [of bs] len by (simp add: uint_word_of_int_eq take_bit_int_eq_self)
  then show ?thesis
    using len by (simp add: byte_bits_def bits_byte_def uint_bits_bits_uint_len)
qed

lemma bytes_bits_simps [simp]:
  "bytes_bits [] = []"
  "bytes_bits (b # bs) = byte_bits b @ bytes_bits bs"
  "bytes_bits (xs @ ys) = bytes_bits xs @ bytes_bits ys"
  by (simp_all add: bytes_bits_def)

lemma length_bytes_bits [simp, codec_simps]: "length (bytes_bits bs) = 8 * length bs"
  by (induction bs) simp_all

section \<open>Cutting a list into equal pieces\<close>

text \<open>\<open>chunks w n xs\<close>: the first \<open>n\<close> consecutive pieces of length \<open>w\<close>.\<close>

fun chunks :: "nat \<Rightarrow> nat \<Rightarrow> 'a list \<Rightarrow> 'a list list" where
  "chunks w 0 xs = []"
| "chunks w (Suc n) xs = take w xs # chunks w n (drop w xs)"

lemma length_chunks [simp, codec_simps]: "length (chunks w n xs) = n"
  by (induction n arbitrary: xs) simp_all

lemma nth_chunks: "i < n \<Longrightarrow> chunks w n xs ! i = take w (drop (i * w) xs)"
  by (induction n arbitrary: xs i) (auto simp: nth_Cons add.commute split: nat.split)

lemma concat_chunks: "length xs = n * w \<Longrightarrow> concat (chunks w n xs) = xs"
  by (induction n arbitrary: xs) auto

lemma chunks_length: "length xs = n * w \<Longrightarrow> c \<in> set (chunks w n xs) \<Longrightarrow> length c = w"
proof (induction n arbitrary: xs)
  case 0
  then show ?case by simp
next
  case (Suc n)
  have "c = take w xs \<or> c \<in> set (chunks w n (drop w xs))"
    using Suc.prems(2) by simp
  then show ?case
    using Suc.IH [of "drop w xs"] Suc.prems(1) by auto
qed

lemma chunks_concat:
  "(\<And>c. c \<in> set cs \<Longrightarrow> length c = w) \<Longrightarrow> chunks w (length cs) (concat cs @ ys) = cs"
  by (induction cs) auto

lemma chunks_concat_eq:
  "(\<And>c. c \<in> set cs \<Longrightarrow> length c = w) \<Longrightarrow> length cs = n \<Longrightarrow> chunks w n (concat cs) = cs"
  using chunks_concat [of cs w "[]"] by simp

lemma length_concat_same:
  "(\<And>c. c \<in> set cs \<Longrightarrow> length c = w) \<Longrightarrow> length (concat cs) = length cs * w"
  by (induction cs) auto

lemma piece_concat:
  assumes "\<And>c. c \<in> set cs \<Longrightarrow> length c = w" and "i < length cs"
  shows "take w (drop (i * w) (concat cs)) = cs ! i"
proof -
  have "chunks w (length cs) (concat cs) = cs"
    using assms(1) by (intro chunks_concat_eq) auto
  with assms(2) show ?thesis
    using nth_chunks [of i "length cs" w "concat cs"] by simp
qed

lemma chunks_concat_map:
  "\<forall>x\<in>set xs. length (f x) = w \<Longrightarrow> length xs = n \<Longrightarrow>
     chunks w n (concat (map f xs)) = map f xs"
  by (rule chunks_concat_eq) auto

lemma piece_concat_map:
  "\<forall>x\<in>set xs. length (f x) = w \<Longrightarrow> i < length xs \<Longrightarrow>
     take w (drop (i * w) (concat (map f xs))) = f (xs ! i)"
  using piece_concat [of "map f xs" w i] by fastforce

text \<open>Bit strings as byte strings: every 8 bits one byte.\<close>

definition bits_bytes :: "bits \<Rightarrow> byte list" where
  "bits_bytes bs = map bits_byte (chunks 8 (length bs div 8) bs)"

lemma bits_bytes_bytes_bits [simp, codec_simps]: "bits_bytes (bytes_bits bs) = bs"
proof -
  have "chunks 8 (length bs) (bytes_bits bs) = map byte_bits bs"
    unfolding bytes_bits_def by (rule chunks_concat_eq) auto
  then show ?thesis
    by (simp add: bits_bytes_def o_def)
qed

lemma bytes_bits_bits_bytes: "8 dvd length bs \<Longrightarrow> bytes_bits (bits_bytes bs) = bs"
proof -
  assume d: "8 dvd length bs"
  let ?cs = "chunks 8 (length bs div 8) bs"
  have len: "length bs = length bs div 8 * 8"
    using d by simp
  have "(byte_bits \<circ> bits_byte) c = c" if "c \<in> set ?cs" for c
    using chunks_length [OF len that] by (simp add: byte_bits_bits_byte)
  then have "map (byte_bits \<circ> bits_byte) ?cs = ?cs"
    by (rule map_idI)
  then show ?thesis
    unfolding bits_bytes_def bytes_bits_def map_map by (simp only: concat_chunks [OF len])
qed

lemma length_bits_bytes [simp, codec_simps]: "length (bits_bytes bs) = length bs div 8"
  by (simp add: bits_bytes_def)

section \<open>Python's integer/byte conversions\<close>

text \<open>\<^verbatim>\<open>int.from_bytes(bs, byteorder='big')\<close>.\<close>

definition int_from_bytes :: "byte list \<Rightarrow> int" where
  "int_from_bytes bs = fold (\<lambda>b acc. acc * 256 + uint b) bs 0"

text \<open>\<^verbatim>\<open>v.to_bytes(n, 'big')\<close> raises OverflowError for a negative value and for one
  that needs more than \<open>n\<close> bytes.\<close>

definition int_to_bytes :: "nat \<Rightarrow> int \<Rightarrow> byte list res" where
  "int_to_bytes n v =
     (if 0 \<le> v \<and> v < 256 ^ n
      then Inr (map (\<lambda>i. word_of_int (drop_bit (8 * i) v)) (rev [0..<n]))
      else Inl OverflowError)"

lemma bits_uint_byte_bits: "bits_uint (byte_bits b) = uint b"
  by (simp add: byte_bits_def bits_uint_uint_bits)

lemma bits_uint_bytes_bits: "bits_uint (bytes_bits bs) = int_from_bytes bs"
proof -
  have "fold (\<lambda>b acc. acc * 256 + uint b) bs (bits_uint xs) = bits_uint (xs @ bytes_bits bs)" for xs
  proof (induction bs arbitrary: xs)
    case Nil
    then show ?case by simp
  next
    case (Cons b bs)
    from Cons.IH [of "xs @ byte_bits b"] show ?case
      by (simp add: bits_uint_append bits_uint_byte_bits)
  qed
  from this [of "[]"] show ?thesis
    by (simp add: int_from_bytes_def)
qed

lemma int_from_bytes_range: "0 \<le> int_from_bytes bs \<and> int_from_bytes bs < 256 ^ length bs"
  using bits_uint_range [of "bytes_bits bs"]
  by (simp add: bits_uint_bytes_bits power_mult)

lemma int_to_bytes_bits:
  assumes "0 \<le> v" and "v < 256 ^ n" and "int_to_bytes n v = Inr bs"
  shows "length bs = n \<and> bytes_bits bs = uint_bits (8 * n) v"
proof -
  have bs: "bs = map (\<lambda>i. word_of_int (drop_bit (8 * i) v)) (rev [0..<n])"
    using assms by (simp add: int_to_bytes_def)
  have "bytes_bits (map (\<lambda>i. word_of_int (drop_bit (8 * i) v)) (rev [0..<k])) = uint_bits (8 * k) v" for k
  proof (induction k)
    case 0
    show ?case by simp
  next
    case (Suc k)
    have "uint_bits (8 * Suc k) v = uint_bits 8 (drop_bit (8 * k) v) @ uint_bits (8 * k) v"
      using uint_bits_add [of 8 "8 * k" v] by (simp add: add.commute)
    moreover have "byte_bits (word_of_int (drop_bit (8 * k) v)) = uint_bits 8 (drop_bit (8 * k) v)"
      by (simp add: byte_bits_def uint_word_of_int_eq uint_bits_take_bit)
    ultimately show ?case using Suc.IH by simp
  qed
  with bs show ?thesis by simp
qed

lemma int_to_bytes_Inr_iff:
  "int_to_bytes n v = Inr bs \<longleftrightarrow> 0 \<le> v \<and> v < 256 ^ n \<and> length bs = n \<and> int_from_bytes bs = v"
proof
  assume ok: "int_to_bytes n v = Inr bs"
  then have r: "0 \<le> v" "v < 256 ^ n" by (auto simp: int_to_bytes_def split: if_splits)
  from int_to_bytes_bits [OF r ok] r show "0 \<le> v \<and> v < 256 ^ n \<and> length bs = n \<and> int_from_bytes bs = v"
    by (simp add: bits_uint_small power_mult flip: bits_uint_bytes_bits)
next
  assume h: "0 \<le> v \<and> v < 256 ^ n \<and> length bs = n \<and> int_from_bytes bs = v"
  then obtain cs where cs: "int_to_bytes n v = Inr cs" by (simp add: int_to_bytes_def)
  from int_to_bytes_bits [OF _ _ cs] h
  have "length cs = n" "bytes_bits cs = uint_bits (8 * n) v" by auto
  moreover have "bytes_bits bs = uint_bits (8 * n) v"
    using h uint_bits_bits_uint_len [of "bytes_bits bs" "8 * n"] by (simp add: bits_uint_bytes_bits)
  ultimately have "bits_bytes (bytes_bits cs) = bits_bytes (bytes_bits bs)" by simp
  then show "int_to_bytes n v = Inr bs" using cs by simp
qed

text \<open>A 16-bit register holds a small number as it is.\<close>

lemma uint_of_nat16: "m < 65536 \<Longrightarrow> uint (of_nat m :: 16 word) = int m"
  by (simp only: uint_nat unat_of_nat) simp

end
