(* ===== verification/Sympy.thy ===== *)
theory Sympy
  imports Prelude
begin

text \<open>
  Address formulas.  The compiler and the assembler build them as sympy expressions over the
  loop variables \<^verbatim>\<open>i\<close> to \<^verbatim>\<open>p\<close>; sympy is a third-party package.  \<open>expr\<close>
  is the expression the program writes down (integers, symbols, sums and products); sympy's own
  functions are parameters, and \<open>sympy_lib\<close> states the documented behaviour the code
  relies on.  \<open>coef0\<close> and \<open>coef1 v\<close> are the constant term and the coefficient of the
  monomial \<open>v\<close> of the polynomial an expression denotes.
\<close>

datatype expr = Const int | Sym string | Add expr expr | Mul expr expr

fun eval :: "(string \<Rightarrow> int) \<Rightarrow> expr \<Rightarrow> int" where
  "eval env (Const c) = c"
| "eval env (Sym v) = env v"
| "eval env (Add a b) = eval env a + eval env b"
| "eval env (Mul a b) = eval env a * eval env b"

fun syms :: "expr \<Rightarrow> string list" where
  "syms (Const c) = []"
| "syms (Sym v) = [v]"
| "syms (Add a b) = syms a @ syms b"
| "syms (Mul a b) = syms a @ syms b"

fun coef0 :: "expr \<Rightarrow> int" where
  "coef0 (Const c) = c"
| "coef0 (Sym v) = 0"
| "coef0 (Add a b) = coef0 a + coef0 b"
| "coef0 (Mul a b) = coef0 a * coef0 b"

fun coef1 :: "string \<Rightarrow> expr \<Rightarrow> int" where
  "coef1 v (Const c) = 0"
| "coef1 v (Sym u) = (if u = v then 1 else 0)"
| "coef1 v (Add a b) = coef1 v a + coef1 v b"
| "coef1 v (Mul a b) = coef0 a * coef1 v b + coef1 v a * coef0 b"

text \<open>An upper bound of the total degree; at most 1 for the formulas an address unit can hold.\<close>

fun degree :: "expr \<Rightarrow> nat" where
  "degree (Const c) = 0"
| "degree (Sym v) = 1"
| "degree (Add a b) = max (degree a) (degree b)"
| "degree (Mul a b) = degree a + degree b"

abbreviation affine :: "expr \<Rightarrow> bool" where
  "affine e \<equiv> degree e \<le> 1"

lemma degree_0_eval: "degree e = 0 \<Longrightarrow> eval env e = coef0 e"
  by (induction e) auto

lemma degree_0_coef1: "degree e = 0 \<Longrightarrow> coef1 v e = 0"
  by (induction e) auto

lemma degree_0_syms: "degree e = 0 \<Longrightarrow> syms e = []"
  by (induction e) auto

lemma sum_list_indicator:
  "distinct vs \<Longrightarrow> u \<in> set vs \<Longrightarrow> (\<Sum>v\<leftarrow>vs. (if u = v then 1 else 0) * env v) = (env u :: int)"
proof (induction vs)
  case Nil
  then show ?case by simp
next
  case (Cons a vs)
  have "u \<notin> set vs \<Longrightarrow> (\<Sum>v\<leftarrow>vs. (if u = v then 1 else 0) * env v) = 0"
    by (induction vs) auto
  with Cons show ?case by auto
qed

text \<open>An affine expression is its constant term plus its linear terms.\<close>

lemma affine_eval:
  assumes "affine e" and "set (syms e) \<subseteq> set vs" and "distinct vs"
  shows "eval env e = (\<Sum>v\<leftarrow>vs. coef1 v e * env v) + coef0 e"
  using assms
proof (induction e)
  case (Const c)
  then show ?case by simp
next
  case (Sym u)
  then show ?case using sum_list_indicator [of vs u env] by simp
next
  case (Add a b)
  then show ?case by (simp add: distrib_right sum_list_addf)
next
  case (Mul a b)
  show ?case
  proof (cases "degree a = 0")
    case True
    with Mul show ?thesis
      by (simp add: degree_0_eval degree_0_coef1 distrib_left mult.assoc flip: sum_list_const_mult)
  next
    case False
    with Mul.prems have "degree b = 0" by simp
    have "(\<Sum>v\<leftarrow>vs. coef1 v a * coef0 b * env v) = coef0 b * (\<Sum>v\<leftarrow>vs. coef1 v a * env v)"
      by (simp add: ac_simps flip: sum_list_const_mult)
    with Mul \<open>degree b = 0\<close> show ?thesis
      by (simp add: degree_0_eval degree_0_coef1 algebra_simps)
  qed
qed

type_synonym expander = "expr \<Rightarrow> expr"
type_synonym poly_coeff = "expr \<Rightarrow> string list \<Rightarrow> string \<Rightarrow> int"
type_synonym poly_const = "expr \<Rightarrow> string list \<Rightarrow> int"

text \<open>
  \<^verbatim>\<open>expand(e)\<close> rewrites \<open>e\<close> to an equal polynomial;
  \<^verbatim>\<open>Poly(e, *gens).coeff_monomial(v)\<close> is the coefficient of the monomial \<open>v\<close> and
  \<^verbatim>\<open>Poly(e, *gens).nth(0, ..., 0)\<close> the constant term, when every symbol of \<open>e\<close> is
  a generator; only the number zero is false.
\<close>

locale sympy_lib =
  fixes expand :: expander
    and coeff_monomial :: poly_coeff
    and nth_zero :: poly_const
    and truthy :: "expr \<Rightarrow> bool"
  assumes expand_eval: "eval env (expand e) = eval env e"
    and expand_syms: "set (syms (expand e)) \<subseteq> set (syms e)"
    and expand_coef0: "coef0 (expand e) = coef0 e"
    and expand_coef1: "coef1 v (expand e) = coef1 v e"
    and coeff_monomial: "set (syms e) \<subseteq> set gens \<Longrightarrow> v \<in> set gens \<Longrightarrow>
           coeff_monomial e gens v = coef1 v e"
    and nth_zero: "set (syms e) \<subseteq> set gens \<Longrightarrow> nth_zero e gens = coef0 e"
    and truthy_zero: "\<not> truthy e \<Longrightarrow> coef0 e = 0 \<and> coef1 v e = 0"

section \<open>An executable implementation of the interface\<close>

definition std_truthy :: "expr \<Rightarrow> bool" where
  "std_truthy e \<longleftrightarrow> e \<noteq> Const 0"

interpretation std_sympy: sympy_lib id "\<lambda>e gens v. coef1 v e" "\<lambda>e gens. coef0 e" std_truthy
  by unfold_locales (auto simp: std_truthy_def)

end
