(* ===== verification/Compiler.thy ===== *)
theory Compiler
  imports Sympy
begin

text \<open>
  experiments/compiler/compiler.py: the just-in-time front end that runs a Python function once
  and records the instructions it calls.  The module's global variables are the record
  \<open>cstate\<close>; an operation takes the state and returns its result or exception together with the
  new state, because the Python keeps what it changed before it raised.  A line of
  \<^verbatim>\<open>program\<close> is a \<open>line\<close>, the data of the f-string the code appends (its text, which is only
  printed, is not modelled).  A program under compilation is a
  statement (\<open>stmt\<close>) that calls the importable functions; a \<^verbatim>\<open>cherry_range\<close> loop runs its
  body once, with the symbol of its loop variable.
\<close>

section \<open>Constants\<close>

definition APU_LIMIT :: nat where
  "APU_LIMIT = 16"

definition loop_variables :: "string list" where
  "loop_variables = [''i'', ''j'', ''k'', ''l'', ''m'', ''n'', ''o'', ''p'']"

datatype Slot =
    PRIVATE_TILE_ADDRESSABLE_0
  | PRIVATE_TILE_ADDRESSABLE_1
  | SINGLE_TILE
  | SHARED_STRIDED

datatype DeviceVersion = SMALL_CHERRY_ONE | BIG_CHERRY_ONE

fun address_bits :: "DeviceVersion \<Rightarrow> Slot \<Rightarrow> nat" where
  "address_bits SMALL_CHERRY_ONE SHARED_STRIDED = 14"
| "address_bits SMALL_CHERRY_ONE SINGLE_TILE = 0"
| "address_bits SMALL_CHERRY_ONE PRIVATE_TILE_ADDRESSABLE_0 = 11"
| "address_bits SMALL_CHERRY_ONE PRIVATE_TILE_ADDRESSABLE_1 = 11"
| "address_bits BIG_CHERRY_ONE SHARED_STRIDED = 18"
| "address_bits BIG_CHERRY_ONE SINGLE_TILE = 0"
| "address_bits BIG_CHERRY_ONE PRIVATE_TILE_ADDRESSABLE_0 = 11"
| "address_bits BIG_CHERRY_ONE PRIVATE_TILE_ADDRESSABLE_1 = 11"

fun size_for_version :: "DeviceVersion \<Rightarrow> int" where
  "size_for_version SMALL_CHERRY_ONE = 4"
| "size_for_version BIG_CHERRY_ONE = 16"

definition CURRENT_DEVICE_VERSION :: DeviceVersion where
  "CURRENT_DEVICE_VERSION = SMALL_CHERRY_ONE"

definition SZ :: int where
  "SZ = size_for_version CURRENT_DEVICE_VERSION"

datatype creg = MATMUL_INPUT | MATMUL_WEIGHTS | MATMUL_OUTPUT | MATMUL_ACC

section \<open>Compiler state\<close>

datatype line =
    Loop_start nat
  | Loop_end
  | Op string
  | Cisa_load nat creg Slot
  | Cisa_store creg Slot nat
  | Cisa_mem_read expr Slot nat
  | Cisa_mem_write Slot nat expr

text \<open>The input and output tensors of a program.  A builder's \<open>shape\<close> does not exist before
  \<^verbatim>\<open>set_shape\<close>.\<close>

record ghost_tensor =
  gt_shape :: "int list"
  gt_is_model_param :: bool
  gt_slot_if_on_chip :: "Slot option"
  gt_main_memory_address :: "int option"

record builder =
  b_slot_if_on_chip :: "Slot option"
  b_main_mem_addr :: "int option"
  b_shape :: "int list option"

text \<open>False in \<^verbatim>\<open>loop_ro_data\<close> and \<^verbatim>\<open>apu_ro_data\<close> is None; \<open>outs\<close> are the builders of
  the running program.\<close>

record cstate =
  is_jit_compiling_active :: bool
  loop_var_next :: nat
  loop_ro_data :: "int option list"
  apu_ro_data :: "expr option list"
  next_apu :: nat
  program :: "line list"
  outs :: "builder list"

definition initial_cstate :: cstate where
  "initial_cstate =
     \<lparr>is_jit_compiling_active = False, loop_var_next = 0,
      loop_ro_data = replicate (length loop_variables) None,
      apu_ro_data = replicate APU_LIMIT None, next_apu = 0, program = [], outs = []\<rparr>"

type_synonym 'a cm = "cstate \<Rightarrow> 'a res \<times> cstate"

definition ret :: "'a \<Rightarrow> 'a cm" where
  "ret x = (\<lambda>s. (Inr x, s))"

definition raise :: "py_error \<Rightarrow> 'a cm" where
  "raise e = (\<lambda>s. (Inl e, s))"

definition bind :: "'a cm \<Rightarrow> ('a \<Rightarrow> 'b cm) \<Rightarrow> 'b cm" where
  "bind m f = (\<lambda>s. case m s of (Inl e, s') \<Rightarrow> (Inl e, s') | (Inr x, s') \<Rightarrow> f x s')"

definition cassert :: "bool \<Rightarrow> string \<Rightarrow> unit cm" where
  "cassert target_true error_msg = (if target_true then ret () else raise (CherryError error_msg))"

definition append_line :: "line \<Rightarrow> unit cm" where
  "append_line l = (\<lambda>s. (Inr (), s\<lparr>program := program s @ [l]\<rparr>))"

text \<open>The decorator \<^verbatim>\<open>assert_program_active\<close>; the wrapper drops the function's result.\<close>

definition assert_program_active :: "unit cm \<Rightarrow> unit cm" where
  "assert_program_active func = (\<lambda>s.
     if \<not> is_jit_compiling_active s then (Inl (CherryError ''JIT active status: False''), s)
     else func s)"

section \<open>Importable functions\<close>

text \<open>\<^verbatim>\<open>xs[i] = x\<close> raises IndexError beyond the end.\<close>

definition set_loop_ro :: "nat \<Rightarrow> int \<Rightarrow> unit cm" where
  "set_loop_ro i x = (\<lambda>s.
     if i < length (loop_ro_data s) then (Inr (), s\<lparr>loop_ro_data := (loop_ro_data s)[i := Some x]\<rparr>)
     else (Inl IndexError, s))"

definition set_apu_ro :: "nat \<Rightarrow> expr \<Rightarrow> unit cm" where
  "set_apu_ro i e = (\<lambda>s.
     if i < length (apu_ro_data s) then (Inr (), s\<lparr>apu_ro_data := (apu_ro_data s)[i := Some e]\<rparr>)
     else (Inl IndexError, s))"

text \<open>The generator \<^verbatim>\<open>cherry_range\<close> up to its \<^verbatim>\<open>yield\<close>: slope, intercept and iteration
  count of the three argument lists, and what follows.\<close>

definition range_shape :: "int list \<Rightarrow> (int \<times> int \<times> int) res" where
  "range_shape args =
     (if length args = 1 then Inr (1, 0, args ! 0)
      else if length args = 2 then Inl (CherryError ''TODO: support 2 args'')
      else if length args = 3 then
        (if args ! 2 = 0 then Inl ZeroDivisionError
         else if (args ! 1 - args ! 0) mod (args ! 2) = 0
         then Inr (args ! 2, args ! 0, (args ! 1 - args ! 0) div (args ! 2))
         else Inl (CherryError ''TODO: Support this as nonzero remainder''))
      else Inl UnboundLocalError)"

definition cherry_range :: "int list \<Rightarrow> expr cm" where
  "cherry_range args =
     (\<lambda>s. let cur = loop_var_next s in
       bind (cassert (cur < length loop_variables) ''You exceeded the maximum number of loops'') (\<lambda>_.
       bind (append_line (Loop_start cur)) (\<lambda>_.
         case range_shape args of
           Inl e \<Rightarrow> raise e
         | Inr (slope, y_intercept, iterations) \<Rightarrow>
             bind (set_loop_ro cur iterations) (\<lambda>_ s'.
               (Inr (Add (Mul (Const slope) (Sym (loop_variables ! cur))) (Const y_intercept)),
                s'\<lparr>loop_var_next := loop_var_next s' + 1\<rparr>)))) s)"

text \<open>The generator resumed after the loop body.\<close>

definition cherry_range_end :: "unit cm" where
  "cherry_range_end = append_line Loop_end"

definition cisa_unop :: "string \<Rightarrow> unit cm" where
  "cisa_unop op = assert_program_active (append_line (Op op))"

definition cisa_binop :: "string \<Rightarrow> unit cm" where
  "cisa_binop op = assert_program_active (append_line (Op op))"

definition use_apu :: "expander \<Rightarrow> expr \<Rightarrow> nat cm" where
  "use_apu expand address =
     (\<lambda>s. let cur = next_apu s in
       bind (cassert (cur < APU_LIMIT) ''All available APUs used up'') (\<lambda>_.
       bind (set_apu_ro cur (expand address)) (\<lambda>_ s'.
         (Inr cur, s'\<lparr>next_apu := next_apu s' + 1\<rparr>))) s)"

text \<open>\<open>cmp e n\<close> is the truth value of \<^verbatim>\<open>e < n\<close> for an integer or a sympy expression.\<close>

type_synonym comparison = "expr \<Rightarrow> int \<Rightarrow> bool res"

definition cisa_load :: "expander \<Rightarrow> comparison \<Rightarrow> Slot \<Rightarrow> expr \<Rightarrow> creg \<Rightarrow> unit cm" where
  "cisa_load expand cmp slot address reg = assert_program_active (
     case cmp address (2 ^ address_bits CURRENT_DEVICE_VERSION slot) of
       Inl e \<Rightarrow> raise e
     | Inr ok \<Rightarrow>
         bind (cassert ok ''Address is too big for the slot type you selected'') (\<lambda>_.
         bind (use_apu expand address) (\<lambda>apu. append_line (Cisa_load apu reg slot))))"

definition cisa_store :: "expander \<Rightarrow> Slot \<Rightarrow> expr \<Rightarrow> creg \<Rightarrow> unit cm" where
  "cisa_store expand slot address reg = assert_program_active (
     bind (use_apu expand address) (\<lambda>apu. append_line (Cisa_store reg slot apu)))"

definition cisa_mem_read :: "expander \<Rightarrow> expr \<Rightarrow> Slot \<Rightarrow> expr \<Rightarrow> unit cm" where
  "cisa_mem_read expand main_memory_address slot slot_address = assert_program_active (
     bind (use_apu expand slot_address) (\<lambda>apu. append_line (Cisa_mem_read main_memory_address slot apu)))"

definition cisa_mem_write :: "expander \<Rightarrow> expr \<Rightarrow> Slot \<Rightarrow> expr \<Rightarrow> unit cm" where
  "cisa_mem_write expand main_memory_address slot slot_address = assert_program_active (
     bind (use_apu expand slot_address) (\<lambda>apu. append_line (Cisa_mem_write slot apu main_memory_address)))"

section \<open>Output builders\<close>

definition new_builder :: builder where
  "new_builder = \<lparr>b_slot_if_on_chip = None, b_main_mem_addr = None, b_shape = None\<rparr>"

definition builder_main_memory_address :: "builder \<Rightarrow> int \<times> builder" where
  "builder_main_memory_address b =
     (case b_main_mem_addr b of None \<Rightarrow> (0, b\<lparr>b_main_mem_addr := Some 0\<rparr>) | Some a \<Rightarrow> (a, b))"

definition set_on_chip_slot :: "Slot \<Rightarrow> builder \<Rightarrow> builder" where
  "set_on_chip_slot slot b = b\<lparr>b_slot_if_on_chip := Some slot\<rparr>"

definition set_shape :: "int list \<Rightarrow> builder \<Rightarrow> builder" where
  "set_shape sh b = b\<lparr>b_shape := Some sh\<rparr>"

definition to_ghost_tensor :: "builder \<Rightarrow> ghost_tensor res" where
  "to_ghost_tensor b =
     (case b_shape b of
        None \<Rightarrow> Inl AttributeError
      | Some sh \<Rightarrow> Inr \<lparr>gt_shape = sh, gt_is_model_param = False, gt_slot_if_on_chip = b_slot_if_on_chip b,
                       gt_main_memory_address = b_main_mem_addr b\<rparr>)"

text \<open>A shape is false when it is the empty tuple; reading one that was never set raises
  AttributeError before the assertion can report it.\<close>

definition assert_complete :: "builder \<Rightarrow> unit res" where
  "assert_complete b =
     (case b_shape b of
        None \<Rightarrow> Inl AttributeError
      | Some sh \<Rightarrow> if sh \<noteq> [] then Inr ()
                   else Inl (CherryError ''Your output tensor didn't set a shape''))"


definition on_builder :: "nat \<Rightarrow> (builder \<Rightarrow> builder) \<Rightarrow> unit cm" where
  "on_builder k f = (\<lambda>s.
     if k < length (outs s) then (Inr (), s\<lparr>outs := (outs s)[k := f (outs s ! k)]\<rparr>)
     else (Inl TypeError, s))"

definition read_out_address :: "nat \<Rightarrow> int cm" where
  "read_out_address k = (\<lambda>s.
     if k < length (outs s)
     then (case builder_main_memory_address (outs s ! k) of
             (a, b) \<Rightarrow> (Inr a, s\<lparr>outs := (outs s)[k := b]\<rparr>))
     else (Inl TypeError, s))"

section \<open>Programs\<close>

text \<open>
  The body of a decorated function, by the calls it makes.  \<open>For args body\<close> is
  \<^verbatim>\<open>for v in cherry_range(*args): body\<close>: the body runs once, then the generator is resumed
  and records the loop's end.  \<open>ForBreak\<close> leaves the loop with \<^verbatim>\<open>break\<close>, so the generator is
  never resumed.  \<open>OutAddress k f\<close> reads \<^verbatim>\<open>output.main_memory_address\<close> of builder \<open>k\<close>.
\<close>

datatype stmt =
    Skip
  | Seq stmt stmt
  | Raise py_error
  | Unop string
  | Binop string
  | Load Slot expr creg
  | Store Slot expr creg
  | MemRead expr Slot expr
  | MemWrite expr Slot expr
  | SetShape nat "int list"
  | SetOnChipSlot nat Slot
  | OutAddress nat "int \<Rightarrow> stmt"
  | For "int list" "expr \<Rightarrow> stmt"
  | ForBreak "int list" "expr \<Rightarrow> stmt"

primrec run :: "expander \<Rightarrow> comparison \<Rightarrow> stmt \<Rightarrow> unit cm" where
  "run ex cmp Skip = ret ()"
| "run ex cmp (Seq a b) = bind (run ex cmp a) (\<lambda>_. run ex cmp b)"
| "run ex cmp (Raise e) = raise e"
| "run ex cmp (Unop op) = cisa_unop op"
| "run ex cmp (Binop op) = cisa_binop op"
| "run ex cmp (Load slot a r) = cisa_load ex cmp slot a r"
| "run ex cmp (Store slot a r) = cisa_store ex slot a r"
| "run ex cmp (MemRead m slot a) = cisa_mem_read ex m slot a"
| "run ex cmp (MemWrite m slot a) = cisa_mem_write ex m slot a"
| "run ex cmp (SetShape k sh) = on_builder k (set_shape sh)"
| "run ex cmp (SetOnChipSlot k slot) = on_builder k (set_on_chip_slot slot)"
| "run ex cmp (OutAddress k f) = bind (read_out_address k) (\<lambda>a. run ex cmp (f a))"
| "run ex cmp (For args body) =
     bind (cherry_range args) (\<lambda>v. bind (run ex cmp (body v)) (\<lambda>_. cherry_range_end))"
| "run ex cmp (ForBreak args body) = bind (cherry_range args) (\<lambda>v. run ex cmp (body v))"

text \<open>The decorator \<^verbatim>\<open>cherry_program\<close>: the arguments of the call, the annotations of the
  parameters, and the function, given its ghost tensors (its builders are \<open>outs\<close>, in order).
  The id of a numpy array stands for its address.\<close>

datatype pyarg = NdArray "int list" int | OtherArg

datatype annotation = AnnGhostTensor | AnnOutputBuilder | AnnOther

definition ghost_args :: "annotation list \<Rightarrow> pyarg list \<Rightarrow> ghost_tensor list" where
  "ghost_args types args = concat (map (\<lambda>(i, tensor).
     case tensor of
       NdArray sh addr \<Rightarrow>
         if types ! i = AnnGhostTensor
         then [\<lparr>gt_shape = sh, gt_is_model_param = False, gt_slot_if_on_chip = None,
                gt_main_memory_address = Some addr\<rparr>] else []
     | OtherArg \<Rightarrow> []) (zip [0..<length args] args))"

definition output_builders :: "annotation list \<Rightarrow> builder list" where
  "output_builders types = map (\<lambda>_. new_builder) (filter (\<lambda>t. t = AnnOutputBuilder) types)"

definition reset_cstate :: "cstate \<Rightarrow> cstate" where
  "reset_cstate s = s\<lparr>is_jit_compiling_active := True,
     loop_ro_data := map (\<lambda>_. None) (loop_ro_data s),
     apu_ro_data := map (\<lambda>_. None) (apu_ro_data s),
     program := [], loop_var_next := 0, next_apu := 0, outs := []\<rparr>"

definition cherry_program ::
    "expander \<Rightarrow> comparison \<Rightarrow> annotation list \<Rightarrow> (ghost_tensor list \<Rightarrow> stmt) \<Rightarrow> pyarg list
       \<Rightarrow> builder cm" where
  "cherry_program ex cmp types func args = (\<lambda>s0.
     let s = reset_cstate s0;
         ghosts = ghost_args types args;
         builders = output_builders types in
     if length types \<noteq> length args + 1 then (Inl AssertionError, s)
     else if length ghosts + length builders \<noteq> length types then (Inl TypeError, s)
     else case run ex cmp (func ghosts) (s\<lparr>outs := builders\<rparr>) of
       (Inl e, s) \<Rightarrow> (Inl e, s)
     | (Inr _, s) \<Rightarrow>
         if builders = [] then (Inl UnboundLocalError, s)
         else let ret = last (outs s) in
           (case assert_complete ret of
              Inl e \<Rightarrow> (Inl e, s)
            | Inr _ \<Rightarrow> (Inr ret, s\<lparr>is_jit_compiling_active := False\<rparr>)))"


section \<open>The effect of a statement, primitive by primitive\<close>

lemma length_loop_variables: "length loop_variables = 8"
  by (simp add: loop_variables_def)

text \<open>The loop a line opens and the address unit it uses.\<close>

fun line_loop :: "line \<Rightarrow> nat list" where
  "line_loop (Loop_start n) = [n]"
| "line_loop _ = []"

fun line_apu :: "line \<Rightarrow> nat list" where
  "line_apu (Cisa_load apu _ _) = [apu]"
| "line_apu (Cisa_store _ _ apu) = [apu]"
| "line_apu (Cisa_mem_read _ _ apu) = [apu]"
| "line_apu (Cisa_mem_write _ apu _) = [apu]"
| "line_apu _ = []"

text \<open>
  The interface between the statements and facts about the compiler state.  A property \<open>I\<close> that
  survives each primitive step of the module survives a whole program that succeeds, and a
  program that raises leaves a state with \<open>E\<close>.
\<close>

locale compiler_property =
  fixes I :: "cstate \<Rightarrow> bool" and E :: "cstate \<Rightarrow> bool"
  assumes weaken: "I s \<Longrightarrow> E s"
    and op_line: "I s \<Longrightarrow> I (s\<lparr>program := program s @ [Op op]\<rparr>)"
    and open_loop: "I s \<Longrightarrow> loop_var_next s < 8 \<Longrightarrow>
          E (s\<lparr>program := program s @ [Loop_start (loop_var_next s)]\<rparr>)"
    and start_loop: "I s \<Longrightarrow> loop_var_next s < 8 \<Longrightarrow>
          I (s\<lparr>program := program s @ [Loop_start (loop_var_next s)],
               loop_ro_data := (loop_ro_data s)[loop_var_next s := Some n],
               loop_var_next := loop_var_next s + 1\<rparr>)"
    and end_loop: "I s \<Longrightarrow> I (s\<lparr>program := program s @ [Loop_end]\<rparr>)"
    and use_unit: "I s \<Longrightarrow> next_apu s < 16 \<Longrightarrow> line_loop l = [] \<Longrightarrow> line_apu l = [next_apu s] \<Longrightarrow>
          I (s\<lparr>apu_ro_data := (apu_ro_data s)[next_apu s := Some e],
               next_apu := next_apu s + 1, program := program s @ [l]\<rparr>)"
    and builders: "I s \<Longrightarrow> I (s\<lparr>outs := bs\<rparr>)"
begin

definition keeps :: "'a cm \<Rightarrow> bool" where
  "keeps m \<longleftrightarrow> (\<forall>s. I s \<longrightarrow> (case m s of (Inr _, s') \<Rightarrow> I s' | (Inl _, s') \<Rightarrow> E s'))"

lemma keepsI:
  assumes "\<And>s x s'. I s \<Longrightarrow> m s = (Inr x, s') \<Longrightarrow> I s'"
    and "\<And>s e s'. I s \<Longrightarrow> m s = (Inl e, s') \<Longrightarrow> E s'"
  shows "keeps m"
  unfolding keeps_def
proof (intro allI impI)
  fix s assume "I s"
  then show "case m s of (Inr _, s') \<Rightarrow> I s' | (Inl _, s') \<Rightarrow> E s'"
    using assms [of s] by (cases "m s"; cases "fst (m s)") auto
qed

lemma keepsD:
  assumes "keeps m" and "I s"
  shows "m s = (Inr x, s') \<Longrightarrow> I s'" and "m s = (Inl e, s') \<Longrightarrow> E s'"
  using assms by (auto simp: keeps_def)

lemma keeps_bind: "keeps m \<Longrightarrow> (\<And>x. keeps (f x)) \<Longrightarrow> keeps (bind m f)"
proof (rule keepsI)
  fix s assume a: "keeps m" "\<And>x. keeps (f x)" "I s"
  show "I s'" if "bind m f s = (Inr y, s')" for y s'
    using that keepsD [OF a(1,3)] keepsD(1) [OF a(2)]
    by (auto simp: bind_def split: prod.splits sum.splits)
  show "E s'" if "bind m f s = (Inl e, s')" for e s'
    using that keepsD [OF a(1,3)] keepsD(2) [OF a(2)]
    by (auto simp: bind_def split: prod.splits sum.splits)
qed

lemma keeps_simple: "keeps (ret x)" "keeps (raise e)" "keeps (cassert c msg)"
  by (auto simp: keeps_def ret_def raise_def cassert_def weaken)

lemma keeps_active: "keeps m \<Longrightarrow> keeps (assert_program_active m)"
  by (auto simp: keeps_def assert_program_active_def weaken)

lemma keeps_unit_line:
  assumes "\<And>n. line_apu (l n) = [n]" and "\<And>n. line_loop (l n) = []"
  shows "keeps (bind (use_apu ex a) (\<lambda>n. append_line (l n)))"
proof -
  have "I (s\<lparr>apu_ro_data := (apu_ro_data s)[next_apu s := Some (ex a)],
             next_apu := next_apu s + 1, program := program s @ [l (next_apu s)]\<rparr>)"
    if "I s" "next_apu s < 16" for s
    using that assms by (intro use_unit) simp_all
  then show ?thesis
    by (auto simp: keeps_def bind_def use_apu_def set_apu_ro_def cassert_def ret_def raise_def
        append_line_def APU_LIMIT_def Let_def weaken)
qed

lemma keeps_range: "keeps (cherry_range args)"
  unfolding keeps_def
  using weaken open_loop start_loop
  by (auto simp: cherry_range_def bind_def cassert_def ret_def raise_def append_line_def
      set_loop_ro_def Let_def length_loop_variables
      split: sum.split prod.split)

lemma keeps_lines: "keeps (append_line (Op op))" "keeps cherry_range_end"
  by (auto simp: keeps_def append_line_def cherry_range_end_def op_line end_loop)

lemma keeps_builder: "keeps (on_builder k f)" "keeps (read_out_address k)"
  by (auto simp: keeps_def on_builder_def read_out_address_def weaken builders split: prod.split)

lemma keeps_load: "keeps (cisa_load ex cmp slot a r)"
  unfolding cisa_load_def
  by (intro keeps_active) (auto intro!: keeps_simple keeps_bind keeps_unit_line split: sum.split)

lemma keeps_run: "keeps (run ex cmp p)"
proof (induction p)
  case (For args body)
  then show ?case by (auto intro!: keeps_bind keeps_range keeps_lines)
next
  case (ForBreak args body)
  then show ?case by (auto intro!: keeps_bind keeps_range)
next
  case (OutAddress k f)
  then show ?case by (auto intro!: keeps_bind keeps_builder)
qed (auto intro!: keeps_bind keeps_simple keeps_active keeps_lines keeps_builder keeps_load keeps_unit_line
    simp: cisa_unop_def cisa_binop_def cisa_store_def cisa_mem_read_def cisa_mem_write_def)

lemma run_Inr: "run ex cmp p s = (Inr x, s') \<Longrightarrow> I s \<Longrightarrow> I s'"
  using keeps_run [of ex cmp p] unfolding keeps_def by (metis (mono_tags, lifting) case_prod_conv sum.simps(6))

lemma run_E: "run ex cmp p s = (r, s') \<Longrightarrow> I s \<Longrightarrow> E s'"
  using keeps_run [of ex cmp p] weaken unfolding keeps_def
  by (cases r) (metis (mono_tags, lifting) case_prod_conv sum.simps(5,6))+

end

text \<open>The tables have their size, and exactly the entries handed out so far are filled.\<close>

definition cstate_ok :: "cstate \<Rightarrow> bool" where
  "cstate_ok s \<longleftrightarrow>
     length (loop_ro_data s) = 8 \<and> length (apu_ro_data s) = 16
     \<and> loop_var_next s \<le> 8 \<and> next_apu s \<le> 16
     \<and> (\<forall>i<8. loop_ro_data s ! i \<noteq> None \<longleftrightarrow> i < loop_var_next s)
     \<and> (\<forall>i<16. apu_ro_data s ! i \<noteq> None \<longleftrightarrow> i < next_apu s)"

text \<open>The loops are opened, and the address units used, in the order of their numbers.\<close>

definition numbered :: "cstate \<Rightarrow> bool" where
  "numbered s \<longleftrightarrow>
     concat (map line_loop (program s)) = [0..<loop_var_next s]
     \<and> concat (map line_apu (program s)) = [0..<next_apu s]"

interpretation tables: compiler_property cstate_ok cstate_ok
  by unfold_locales (auto simp: cstate_ok_def nth_list_update)

interpretation numbering: compiler_property numbered "\<lambda>_. True"
  by unfold_locales (auto simp: numbered_def)

interpretation active: compiler_property is_jit_compiling_active is_jit_compiling_active
  by unfold_locales auto


section \<open>The calls of a program\<close>

text \<open>
  What a program asks of the module, as a flat list: the loops are unrolled to their one symbolic
  iteration, and an output address that is read before an allocator exists is 0.  \<open>calls p n\<close> is
  that list for a statement started with \<open>n\<close> loops numbered, with the number of loops after it.
\<close>

datatype call =
    CRange "int list"
  | CEnd
  | COp string
  | CLoad Slot expr creg
  | CStore Slot expr creg
  | CMemRead expr Slot expr
  | CMemWrite expr Slot expr
  | CSetShape nat "int list"
  | CSetOnChipSlot nat Slot
  | COutAddress nat
  | CRaise py_error

definition loop_value :: "int list \<Rightarrow> nat \<Rightarrow> expr" where
  "loop_value args n =
     (case range_shape args of
        Inl _ \<Rightarrow> Const 0
      | Inr (slope, y_intercept, _) \<Rightarrow>
          Add (Mul (Const slope) (Sym (loop_variables ! n))) (Const y_intercept))"

primrec calls :: "stmt \<Rightarrow> nat \<Rightarrow> call list \<times> nat" where
  "calls Skip n = ([], n)"
| "calls (Seq a b) n = (case calls a n of (xs, n1) \<Rightarrow> case calls b n1 of (ys, n2) \<Rightarrow> (xs @ ys, n2))"
| "calls (Raise e) n = ([CRaise e], n)"
| "calls (Unop op) n = ([COp op], n)"
| "calls (Binop op) n = ([COp op], n)"
| "calls (Load slot a r) n = ([CLoad slot a r], n)"
| "calls (Store slot a r) n = ([CStore slot a r], n)"
| "calls (MemRead m slot a) n = ([CMemRead m slot a], n)"
| "calls (MemWrite m slot a) n = ([CMemWrite m slot a], n)"
| "calls (SetShape k sh) n = ([CSetShape k sh], n)"
| "calls (SetOnChipSlot k slot) n = ([CSetOnChipSlot k slot], n)"
| "calls (OutAddress k f) n = (case calls (f 0) n of (xs, n1) \<Rightarrow> (COutAddress k # xs, n1))"
| "calls (For args body) n =
     (case calls (body (loop_value args n)) (n + 1) of (xs, n1) \<Rightarrow> (CRange args # xs @ [CEnd], n1))"
| "calls (ForBreak args body) n =
     (case calls (body (loop_value args n)) (n + 1) of (xs, n1) \<Rightarrow> (CRange args # xs, n1))"

fun exec_call :: "expander \<Rightarrow> comparison \<Rightarrow> call \<Rightarrow> unit cm" where
  "exec_call ex cmp (CRange args) = bind (cherry_range args) (\<lambda>_. ret ())"
| "exec_call ex cmp CEnd = cherry_range_end"
| "exec_call ex cmp (COp op) = cisa_unop op"
| "exec_call ex cmp (CLoad slot a r) = cisa_load ex cmp slot a r"
| "exec_call ex cmp (CStore slot a r) = cisa_store ex slot a r"
| "exec_call ex cmp (CMemRead m slot a) = cisa_mem_read ex m slot a"
| "exec_call ex cmp (CMemWrite m slot a) = cisa_mem_write ex m slot a"
| "exec_call ex cmp (CSetShape k sh) = on_builder k (set_shape sh)"
| "exec_call ex cmp (CSetOnChipSlot k slot) = on_builder k (set_on_chip_slot slot)"
| "exec_call ex cmp (COutAddress k) = bind (read_out_address k) (\<lambda>_. ret ())"
| "exec_call ex cmp (CRaise e) = raise e"

fun exec :: "expander \<Rightarrow> comparison \<Rightarrow> call list \<Rightarrow> unit cm" where
  "exec ex cmp [] = ret ()"
| "exec ex cmp (c # cs) = bind (exec_call ex cmp c) (\<lambda>_. exec ex cmp cs)"

subsection \<open>A program runs exactly its calls\<close>

lemma bind_ret [simp]: "bind (ret x) f = f x" "bind m (\<lambda>_. ret ()) = m" "bind m ret = m"
  by (simp_all add: bind_def ret_def fun_eq_iff split: prod.split sum.split)

lemma bind_raise [simp]: "bind (raise e) f = raise e"
  by (simp add: bind_def raise_def)

lemma bind_assoc [simp]: "bind (bind m f) g = bind m (\<lambda>x. bind (f x) g)"
  by (simp add: bind_def fun_eq_iff split: prod.split sum.split)

lemma exec_append: "exec ex cmp (xs @ ys) = bind (exec ex cmp xs) (\<lambda>_. exec ex cmp ys)"
  by (induction xs) simp_all

lemma bind_eq:
  "bind m f s = (case m s of (Inl e, s') \<Rightarrow> (Inl e, s') | (Inr x, s') \<Rightarrow> f x s')"
  by (simp add: bind_def)

text \<open>No allocator exists: an output has no address, or the address 0.\<close>

definition outs_ok :: "cstate \<Rightarrow> bool" where
  "outs_ok s \<longleftrightarrow> (\<forall>b\<in>set (outs s). b_main_mem_addr b \<in> {None, Some 0})"

text \<open>\<open>tracks n m n'\<close>: started with \<open>n\<close> loops, \<open>m\<close> ends with \<open>n'\<close> when it succeeds.\<close>

definition tracks :: "nat \<Rightarrow> 'a cm \<Rightarrow> nat \<Rightarrow> bool" where
  "tracks n m n' \<longleftrightarrow> (\<forall>s x s'. outs_ok s \<longrightarrow> loop_var_next s = n \<longrightarrow> m s = (Inr x, s') \<longrightarrow>
     outs_ok s' \<and> loop_var_next s' = n')"

lemma bind_InrE:
  assumes "bind m f s = (Inr y, s')"
  obtains x s1 where "m s = (Inr x, s1)" and "f x s1 = (Inr y, s')"
  using assms by (auto simp: bind_eq split: prod.splits sum.splits)

lemma tracks_bind:
  assumes "tracks n m n1" and "\<And>x. tracks n1 (f x) n2"
  shows "tracks n (bind m f) n2"
  unfolding tracks_def
proof (intro allI impI)
  fix s y s'
  assume s: "outs_ok s" "loop_var_next s = n" and "bind m f s = (Inr y, s')"
  from this(3) obtain x s1 where "m s = (Inr x, s1)" "f x s1 = (Inr y, s')"
    by (rule bind_InrE)
  with s assms(1) assms(2) [of x] show "outs_ok s' \<and> loop_var_next s' = n2"
    unfolding tracks_def by metis
qed

lemmas cm_defs =
  ret_def raise_def cassert_def append_line_def assert_program_active_def set_loop_ro_def
  set_apu_ro_def use_apu_def cherry_range_end_def cisa_unop_def cisa_binop_def cisa_store_def
  cisa_mem_read_def cisa_mem_write_def cisa_load_def on_builder_def read_out_address_def
  cherry_range_def Let_def bind_def

lemma tracks_ret [intro]: "tracks n (ret x) n"
  by (simp add: tracks_def ret_def)

lemma tracks_raise [intro]: "tracks n (raise e) n'"
  by (simp add: tracks_def raise_def)

lemma tracks_cassert [intro]: "tracks n (cassert c msg) n"
  by (simp add: tracks_def cassert_def ret_def raise_def)

lemma tracks_active [intro]: "tracks n m n' \<Longrightarrow> tracks n (assert_program_active m) n'"
  unfolding tracks_def assert_program_active_def
  by (intro allI impI) (metis (no_types, lifting) Inr_not_Inl Pair_inject)

lemma tracks_append [intro]: "tracks n (append_line l) n"
  by (simp add: tracks_def append_line_def outs_ok_def)

lemma tracks_use_apu [intro]: "tracks n (use_apu ex a) n"
  by (auto simp: tracks_def use_apu_def set_apu_ro_def cassert_def ret_def raise_def bind_eq outs_ok_def
      Let_def split: if_splits)

lemma outs_ok_update:
  "outs_ok s \<Longrightarrow> b_main_mem_addr b \<in> {None, Some 0} \<Longrightarrow> outs_ok (s\<lparr>outs := (outs s)[k := b]\<rparr>)"
  using set_update_subset_insert [of "outs s" k b] by (auto simp: outs_ok_def)

lemma outs_ok_nth:
  "outs_ok s \<Longrightarrow> k < length (outs s) \<Longrightarrow> b_main_mem_addr (outs s ! k) \<in> {None, Some 0}"
  by (auto simp: outs_ok_def)

lemma tracks_range [intro]: "tracks n (cherry_range args) (Suc n)"
  by (auto simp: tracks_def cherry_range_def set_loop_ro_def cassert_def ret_def raise_def bind_eq
      append_line_def outs_ok_def Let_def length_loop_variables split: sum.splits prod.splits if_splits)

lemma tracks_on_builder [intro]:
  "(\<And>b. b_main_mem_addr (f b) = b_main_mem_addr b) \<Longrightarrow> tracks n (on_builder k f) n"
  using outs_ok_update outs_ok_nth
  by (auto simp: tracks_def on_builder_def split: if_splits)

lemma builder_address_eq:
  "b_main_mem_addr b \<in> {None, Some 0} \<Longrightarrow>
     builder_main_memory_address b = (0, b\<lparr>b_main_mem_addr := Some 0\<rparr>)"
  by (cases b) (auto simp: builder_main_memory_address_def)

lemma read_out_eq:
  "outs_ok s \<Longrightarrow> k < length (outs s) \<Longrightarrow> read_out_address k s =
     (Inr 0, s\<lparr>outs := (outs s)[k := (outs s ! k)\<lparr>b_main_mem_addr := Some 0\<rparr>]\<rparr>)"
  using outs_ok_nth [of s k] by (simp only: read_out_address_def builder_address_eq) simp

lemma tracks_read_out [intro]: "tracks n (read_out_address k) n"
  unfolding tracks_def
proof (intro allI impI)
  fix s x s' assume s: "outs_ok s" "loop_var_next s = n" and r: "read_out_address k s = (Inr x, s')"
  from r have "k < length (outs s)" by (auto simp: read_out_address_def split: if_splits)
  with r s show "outs_ok s' \<and> loop_var_next s' = n"
    by (auto simp: read_out_eq outs_ok_update)
qed

lemma tracks_exec_call:
  "tracks n (exec_call ex cmp c) (case c of CRange _ \<Rightarrow> Suc n | _ \<Rightarrow> n)"
  by (cases c) (auto simp: cherry_range_end_def cisa_unop_def cisa_load_def cisa_store_def
      cisa_mem_read_def cisa_mem_write_def set_shape_def set_on_chip_slot_def
      split: sum.split intro!: tracks_bind)

text \<open>A loop binds the value of \<open>loop_value\<close>, and an output address reads as 0.\<close>

lemma cherry_range_value:
  "cherry_range args s = (Inr v, s') \<Longrightarrow> v = loop_value args (loop_var_next s)"
  by (auto simp: cherry_range_def set_loop_ro_def cassert_def ret_def raise_def bind_eq loop_value_def
      append_line_def Let_def length_loop_variables split: sum.splits prod.splits if_splits)

lemma read_out_value: "outs_ok s \<Longrightarrow> read_out_address k s = (Inr a, s') \<Longrightarrow> a = 0"
  using read_out_eq [of s k] by (cases "k < length (outs s)") (simp_all add: read_out_address_def)

lemma bind_cong:
  assumes "\<And>x s1. m s = (Inr x, s1) \<Longrightarrow> f x s1 = g x s1"
  shows "bind m f s = bind m g s"
  using assms by (auto simp: bind_eq split: prod.split sum.split)

lemma tracksD:
  "tracks n m n' \<Longrightarrow> outs_ok s \<Longrightarrow> loop_var_next s = n \<Longrightarrow> m s = (Inr x, s') \<Longrightarrow> outs_ok s'"
  "tracks n m n' \<Longrightarrow> outs_ok s \<Longrightarrow> loop_var_next s = n \<Longrightarrow> m s = (Inr x, s') \<Longrightarrow> loop_var_next s' = n'"
  unfolding tracks_def by blast+

lemma tracks_step:
  "tracks (case c of CRange _ \<Rightarrow> Suc n | _ \<Rightarrow> n) (exec ex cmp cs) n' \<Longrightarrow> tracks n (exec ex cmp (c # cs)) n'"
  unfolding exec.simps by (rule tracks_bind [OF tracks_exec_call])

lemma tracks_one: "(\<And>args. c \<noteq> CRange args) \<Longrightarrow> tracks n (exec ex cmp [c]) n"
  by (rule tracks_step) (cases c; auto)

lemma tracks_end: "tracks n (exec ex cmp xs) n' \<Longrightarrow> tracks n (exec ex cmp (xs @ [CEnd])) n'"
  unfolding exec_append
  by (rule tracks_bind) (auto simp: cherry_range_end_def)

lemma tracks_calls: "calls p n = (xs, n') \<Longrightarrow> tracks n (exec ex cmp xs) n'"
proof (induction p arbitrary: n xs n')
  case (Seq p q)
  obtain ys n1 zs where "calls p n = (ys, n1)" "calls q n1 = (zs, n')" "xs = ys @ zs"
    using Seq.prems by (auto split: prod.splits)
  then show ?case
    using Seq.IH by (auto simp: exec_append intro!: tracks_bind)
next
  case (OutAddress k f)
  obtain ys where "calls (f 0) n = (ys, n')" "xs = COutAddress k # ys"
    using OutAddress.prems by (auto split: prod.splits)
  then show ?case
    using OutAddress.IH [OF rangeI, of 0 n ys n'] tracks_step [where c = "COutAddress k"] by simp
next
  case (For args body)
  obtain ys where "calls (body (loop_value args n)) (n + 1) = (ys, n')" "xs = CRange args # ys @ [CEnd]"
    using For.prems by (auto split: prod.splits)
  then show ?case
    using tracks_end [OF For.IH [OF rangeI]] tracks_step [where c = "CRange args"] by simp
next
  case (ForBreak args body)
  obtain ys where "calls (body (loop_value args n)) (n + 1) = (ys, n')" "xs = CRange args # ys"
    using ForBreak.prems by (auto split: prod.splits)
  then show ?case
    using ForBreak.IH [OF rangeI] tracks_step [where c = "CRange args"] by simp
qed (auto intro: tracks_one simp del: exec.simps(2))

lemma run_after:
  assumes "tracks n m n1" and "outs_ok s" and "loop_var_next s = n"
    and "\<And>x s1. m s = (Inr x, s1) \<Longrightarrow> outs_ok s1 \<Longrightarrow> loop_var_next s1 = n1 \<Longrightarrow> f x s1 = g s1"
  shows "bind m f s = bind m (\<lambda>_. g) s"
  using assms(4) tracksD [OF assms(1-3)] by (intro bind_cong) metis

lemma run_calls:
  "calls p n = (xs, n') \<Longrightarrow> outs_ok s \<Longrightarrow> loop_var_next s = n \<Longrightarrow> run ex cmp p s = exec ex cmp xs s"
proof (induction p arbitrary: n xs n' s)
  case (Seq p q)
  obtain ys n1 zs where c: "calls p n = (ys, n1)" "calls q n1 = (zs, n')" "xs = ys @ zs"
    using Seq.prems(1) by (auto split: prod.splits)
  have "run ex cmp (Seq p q) s = bind (exec ex cmp ys) (\<lambda>_. run ex cmp q) s"
    using Seq.IH(1) [OF c(1) Seq.prems(2,3)] by (simp add: bind_eq)
  also have "\<dots> = bind (exec ex cmp ys) (\<lambda>_. exec ex cmp zs) s"
    using tracks_calls [OF c(1)] Seq.prems(2,3) Seq.IH(2) [OF c(2)] by (rule run_after)
  finally show ?case by (simp add: c exec_append)
next
  case (OutAddress k f)
  obtain ys where c: "calls (f 0) n = (ys, n')" "xs = COutAddress k # ys"
    using OutAddress.prems(1) by (auto split: prod.splits)
  have "run ex cmp (OutAddress k f) s = bind (read_out_address k) (\<lambda>a. run ex cmp (f a)) s"
    by simp
  also have "\<dots> = bind (read_out_address k) (\<lambda>_. exec ex cmp ys) s"
    using tracks_read_out OutAddress.prems(2,3)
    by (rule run_after) (auto dest!: read_out_value [OF OutAddress.prems(2)] simp: OutAddress.IH [OF rangeI c(1)])
  finally show ?case by (simp add: c)
next
  case (For args body)
  obtain ys where c: "calls (body (loop_value args n)) (Suc n) = (ys, n')" "xs = CRange args # ys @ [CEnd]"
    using For.prems(1) by (auto split: prod.splits)
  have "run ex cmp (For args body) s =
      bind (cherry_range args) (\<lambda>v. bind (run ex cmp (body v)) (\<lambda>_. cherry_range_end)) s"
    by simp
  also have "\<dots> = bind (cherry_range args) (\<lambda>_. bind (exec ex cmp ys) (\<lambda>_. cherry_range_end)) s"
    using tracks_range For.prems(2,3)
    by (rule run_after)
      (auto dest!: cherry_range_value simp: bind_eq For.prems(3) For.IH [OF rangeI c(1)])
  finally show ?case by (simp add: c exec_append)
next
  case (ForBreak args body)
  obtain ys where c: "calls (body (loop_value args n)) (Suc n) = (ys, n')" "xs = CRange args # ys"
    using ForBreak.prems(1) by (auto split: prod.splits)
  have "run ex cmp (ForBreak args body) s = bind (cherry_range args) (\<lambda>v. run ex cmp (body v)) s"
    by simp
  also have "\<dots> = bind (cherry_range args) (\<lambda>_. exec ex cmp ys) s"
    using tracks_range ForBreak.prems(2,3)
    by (rule run_after) (auto dest!: cherry_range_value simp: ForBreak.prems(3) ForBreak.IH [OF rangeI c(1)])
  finally show ?case by (simp add: c)
qed (auto simp: cisa_unop_def cisa_binop_def)


subsection \<open>What a list of calls compiles to\<close>

text \<open>The operands a call puts into the two tables, and whether it can succeed.\<close>

fun call_iterations :: "call \<Rightarrow> int list" where
  "call_iterations (CRange args) = (case range_shape args of Inl _ \<Rightarrow> [] | Inr (_, _, n) \<Rightarrow> [n])"
| "call_iterations _ = []"

fun call_addresses :: "call \<Rightarrow> expr list" where
  "call_addresses (CLoad slot a r) = [a]"
| "call_addresses (CStore slot a r) = [a]"
| "call_addresses (CMemRead m slot a) = [a]"
| "call_addresses (CMemWrite m slot a) = [a]"
| "call_addresses _ = []"

fun call_ok :: "comparison \<Rightarrow> nat \<Rightarrow> call \<Rightarrow> bool" where
  "call_ok cmp nb (CRange args) = (case range_shape args of Inl _ \<Rightarrow> False | Inr _ \<Rightarrow> True)"
| "call_ok cmp nb (CLoad slot a r) =
     (cmp a (2 ^ address_bits CURRENT_DEVICE_VERSION slot) = Inr True)"
| "call_ok cmp nb (CSetShape k sh) = (k < nb)"
| "call_ok cmp nb (CSetOnChipSlot k slot) = (k < nb)"
| "call_ok cmp nb (COutAddress k) = (k < nb)"
| "call_ok cmp nb (CRaise e) = False"
| "call_ok cmp nb _ = True"

text \<open>The lines of the calls, loops numbered from \<open>n\<close> and address units from \<open>a\<close>.\<close>

fun call_line :: "nat \<Rightarrow> nat \<Rightarrow> call \<Rightarrow> line list" where
  "call_line n a (CRange args) = [Loop_start n]"
| "call_line n a CEnd = [Loop_end]"
| "call_line n a (COp op) = [Op op]"
| "call_line n a (CLoad slot e r) = [Cisa_load a r slot]"
| "call_line n a (CStore slot e r) = [Cisa_store r slot a]"
| "call_line n a (CMemRead m slot e) = [Cisa_mem_read m slot a]"
| "call_line n a (CMemWrite m slot e) = [Cisa_mem_write slot a m]"
| "call_line n a _ = []"

fun lines_of :: "nat \<Rightarrow> nat \<Rightarrow> call list \<Rightarrow> line list" where
  "lines_of n a [] = []"
| "lines_of n a (c # cs) = call_line n a c
     @ lines_of (n + length (call_iterations c)) (a + length (call_addresses c)) cs"

fun call_builders :: "call \<Rightarrow> builder list \<Rightarrow> builder list" where
  "call_builders (CSetShape k sh) bs = bs[k := set_shape sh (bs ! k)]"
| "call_builders (CSetOnChipSlot k slot) bs = bs[k := set_on_chip_slot slot (bs ! k)]"
| "call_builders (COutAddress k) bs = bs[k := snd (builder_main_memory_address (bs ! k))]"
| "call_builders _ bs = bs"

definition iterations_of :: "call list \<Rightarrow> int list" where
  "iterations_of cs = concat (map call_iterations cs)"

definition addresses_of :: "call list \<Rightarrow> expr list" where
  "addresses_of cs = concat (map call_addresses cs)"

definition fits :: "comparison \<Rightarrow> nat \<Rightarrow> call list \<Rightarrow> bool" where
  "fits cmp nb cs \<longleftrightarrow> list_all (call_ok cmp nb) cs"

text \<open>The tables hold the iteration counts \<open>L\<close> and the formulas \<open>A\<close> so far.\<close>

definition tables_hold :: "int list \<Rightarrow> expr list \<Rightarrow> cstate \<Rightarrow> bool" where
  "tables_hold L A s \<longleftrightarrow> length L \<le> 8 \<and> length A \<le> 16
     \<and> loop_var_next s = length L \<and> loop_ro_data s = map Some L @ replicate (8 - length L) None
     \<and> next_apu s = length A \<and> apu_ro_data s = map Some A @ replicate (16 - length A) None"

lemma append_entry:
  "length xs < n \<Longrightarrow> (map Some xs @ replicate (n - length xs) None)[length xs := Some x]
     = map Some (xs @ [x]) @ replicate (n - length (xs @ [x])) None"
  by (cases "n - length xs") (auto simp: list_update_append)

text \<open>The state after a call that succeeds.\<close>

definition after_call ::
    "expander \<Rightarrow> int list \<Rightarrow> expr list \<Rightarrow> call \<Rightarrow> cstate \<Rightarrow> cstate \<Rightarrow> bool" where
  "after_call ex L A c s s1 \<longleftrightarrow>
     tables_hold (L @ call_iterations c) (A @ map ex (call_addresses c)) s1
     \<and> program s1 = program s @ call_line (length L) (length A) c
     \<and> outs s1 = call_builders c (outs s) \<and> is_jit_compiling_active s1"

lemma raise_apply: "raise e s = (Inl e, s)"
  by (simp add: raise_def)

lemma unit_line_outcome:
  assumes "tables_hold L A s" and "is_jit_compiling_active s"
  shows "assert_program_active (bind (use_apu ex e) (\<lambda>n. append_line (l n))) s =
    (if length A < 16
     then (Inr (), s\<lparr>apu_ro_data := map Some (A @ [ex e]) @ replicate (16 - length (A @ [ex e])) None,
                     next_apu := length A + 1, program := program s @ [l (length A)]\<rparr>)
     else (Inl (CherryError ''All available APUs used up''), s))"
  using assms append_entry [of A 16 "ex e"]
  by (auto simp: tables_hold_def assert_program_active_def use_apu_def set_apu_ro_def cassert_def
      ret_def raise_def bind_eq append_line_def APU_LIMIT_def Let_def)

lemma range_outcome:
  assumes "tables_hold L A s"
  shows "case range_shape args of
     Inl e \<Rightarrow> (\<exists>e s1. cherry_range args s = (Inl e, s1))
   | Inr (slope, y_intercept, n) \<Rightarrow>
       if length L < 8
       then cherry_range args s = (Inr (loop_value args (length L)),
              s\<lparr>program := program s @ [Loop_start (length L)],
                loop_ro_data := map Some (L @ [n]) @ replicate (8 - length (L @ [n])) None,
                loop_var_next := length L + 1\<rparr>)
       else (\<exists>e s1. cherry_range args s = (Inl e, s1))"
  using assms append_entry [of L 8]
  by (auto simp: tables_hold_def cherry_range_def set_loop_ro_def cassert_def ret_def raise_def bind_eq
      append_line_def Let_def length_loop_variables loop_value_def split: sum.split prod.split)

lemma call_outcome:
  assumes s: "tables_hold L A s" "is_jit_compiling_active s"
  shows "if call_ok cmp (length (outs s)) c \<and> length L + length (call_iterations c) \<le> 8
            \<and> length A + length (call_addresses c) \<le> 16
         then \<exists>s1. exec_call ex cmp c s = (Inr (), s1) \<and> after_call ex L A c s s1
         else \<exists>e s1. exec_call ex cmp c s = (Inl e, s1)"
proof (cases c)
  case (CRange args)
  show ?thesis
    using range_outcome [OF s(1), of args] s
    by (auto simp: CRange bind_eq ret_def after_call_def tables_hold_def
        split: sum.splits prod.splits if_splits)
next
  case (CLoad slot e r)
  show ?thesis
    using unit_line_outcome [OF s, of ex e "\<lambda>n. Cisa_load n r slot"] s
    by (auto simp: CLoad cisa_load_def cassert_def after_call_def tables_hold_def raise_apply
        assert_program_active_def split: sum.split)
next
  case (COutAddress k)
  show ?thesis
    using s by (auto simp: COutAddress read_out_address_def after_call_def bind_eq ret_def
        tables_hold_def split: prod.split)
next
  case (CStore slot e r)
  show ?thesis
    using s(1) by (auto simp: CStore cisa_store_def unit_line_outcome [OF s] after_call_def tables_hold_def s(2))
next
  case (CMemRead m slot e)
  show ?thesis
    using s(1) by (auto simp: CMemRead cisa_mem_read_def unit_line_outcome [OF s] after_call_def
        tables_hold_def s(2))
next
  case (CMemWrite m slot e)
  show ?thesis
    using s(1) by (auto simp: CMemWrite cisa_mem_write_def unit_line_outcome [OF s] after_call_def
        tables_hold_def s(2))
qed (use s in \<open>auto simp: after_call_def tables_hold_def cherry_range_end_def append_line_def
       cisa_unop_def assert_program_active_def on_builder_def raise_def\<close>)

lemma length_call_builders [simp]: "length (call_builders c bs) = length bs"
  by (cases c) auto

lemma calls_simps [simp]:
  "iterations_of [] = []" "iterations_of (c # cs) = call_iterations c @ iterations_of cs"
  "addresses_of [] = []" "addresses_of (c # cs) = call_addresses c @ addresses_of cs"
  "fits cmp nb []" "fits cmp nb (c # cs) \<longleftrightarrow> call_ok cmp nb c \<and> fits cmp nb cs"
  by (simp_all add: iterations_of_def addresses_of_def fits_def)

definition after_calls ::
    "expander \<Rightarrow> int list \<Rightarrow> expr list \<Rightarrow> call list \<Rightarrow> cstate \<Rightarrow> cstate \<Rightarrow> bool" where
  "after_calls ex L A cs s s1 \<longleftrightarrow>
     tables_hold (L @ iterations_of cs) (A @ map ex (addresses_of cs)) s1
     \<and> program s1 = program s @ lines_of (length L) (length A) cs
     \<and> outs s1 = fold call_builders cs (outs s) \<and> is_jit_compiling_active s1"

lemma exec_outcome:
  assumes "tables_hold L A s" and "is_jit_compiling_active s"
  shows "if fits cmp (length (outs s)) cs \<and> length L + length (iterations_of cs) \<le> 8
            \<and> length A + length (addresses_of cs) \<le> 16
         then \<exists>s1. exec ex cmp cs s = (Inr (), s1) \<and> after_calls ex L A cs s s1
         else \<exists>e s1. exec ex cmp cs s = (Inl e, s1)"
  using assms
proof (induction cs arbitrary: L A s)
  case Nil
  then show ?case by (simp add: ret_def after_calls_def tables_hold_def)
next
  case (Cons c cs)
  note step = call_outcome [OF Cons.prems, of cmp c ex]
  show ?case
  proof (cases "\<exists>s1. exec_call ex cmp c s = (Inr (), s1)")
    case False
    with step show ?thesis by (auto simp: bind_eq split: if_splits)
  next
    case True
    then obtain s1 where r: "exec_call ex cmp c s = (Inr (), s1)" by blast
    with step have ok: "call_ok cmp (length (outs s)) c"
      and s1: "after_call ex L A c s s1"
      by (auto split: if_splits)
    have "if fits cmp (length (outs s1)) cs \<and> length (L @ call_iterations c) + length (iterations_of cs) \<le> 8
            \<and> length (A @ map ex (call_addresses c)) + length (addresses_of cs) \<le> 16
         then \<exists>s2. exec ex cmp cs s1 = (Inr (), s2)
            \<and> after_calls ex (L @ call_iterations c) (A @ map ex (call_addresses c)) cs s1 s2
         else \<exists>e s2. exec ex cmp cs s1 = (Inl e, s2)"
      using s1 by (intro Cons.IH) (auto simp: after_call_def)
    then show ?thesis
      using ok r s1 by (auto simp: bind_eq after_call_def after_calls_def ac_simps split: if_splits)
  qed
qed

subsection \<open>What a program compiles to\<close>

text \<open>The calls of a decorated function, and when its call succeeds.\<close>

definition program_calls :: "annotation list \<Rightarrow> (ghost_tensor list \<Rightarrow> stmt) \<Rightarrow> pyarg list \<Rightarrow> call list" where
  "program_calls types func args = fst (calls (func (ghost_args types args)) 0)"

definition program_result :: "annotation list \<Rightarrow> (ghost_tensor list \<Rightarrow> stmt) \<Rightarrow> pyarg list \<Rightarrow> builder" where
  "program_result types func args =
     last (fold call_builders (program_calls types func args) (output_builders types))"

definition accepted ::
    "comparison \<Rightarrow> annotation list \<Rightarrow> (ghost_tensor list \<Rightarrow> stmt) \<Rightarrow> pyarg list \<Rightarrow> bool" where
  "accepted cmp types func args \<longleftrightarrow>
     (let cs = program_calls types func args; builders = output_builders types in
      length types = length args + 1
      \<and> length (ghost_args types args) + length builders = length types \<and> builders \<noteq> []
      \<and> fits cmp (length builders) cs
      \<and> length (iterations_of cs) \<le> 8 \<and> length (addresses_of cs) \<le> 16
      \<and> b_shape (program_result types func args) \<notin> {None, Some []})"

text \<open>The module's tables keep the size they are created with.\<close>

definition sized :: "cstate \<Rightarrow> bool" where
  "sized s \<longleftrightarrow> length (loop_ro_data s) = 8 \<and> length (apu_ro_data s) = 16"

lemma reset_tables:
  assumes "sized s"
  shows "tables_hold [] [] (reset_cstate s\<lparr>outs := bs\<rparr>)" "is_jit_compiling_active (reset_cstate s\<lparr>outs := bs\<rparr>)"
    "outs_ok (reset_cstate s\<lparr>outs := output_builders types\<rparr>)"
  using assms
  by (auto simp: tables_hold_def sized_def reset_cstate_def outs_ok_def output_builders_def
      new_builder_def map_replicate_const)

lemma run_outcome:
  assumes "sized s"
  shows "run ex cmp (func (ghost_args types args)) (reset_cstate s\<lparr>outs := output_builders types\<rparr>)
     = exec ex cmp (program_calls types func args) (reset_cstate s\<lparr>outs := output_builders types\<rparr>)"
  unfolding program_calls_def
  using reset_tables [OF assms]
  by (intro run_calls [where n = 0 and n' = "snd (calls (func (ghost_args types args)) 0)"])
    (simp_all add: reset_cstate_def)

lemma program_outcome:
  assumes s: "sized s"
  shows "if accepted cmp types func args
         then \<exists>s1 s2. cherry_program ex cmp types func args s
                 = (Inr (program_result types func args), s2\<lparr>is_jit_compiling_active := False\<rparr>)
              \<and> s1 = reset_cstate s\<lparr>outs := output_builders types\<rparr>
              \<and> after_calls ex [] [] (program_calls types func args) s1 s2
         else \<exists>e s1. cherry_program ex cmp types func args s = (Inl e, s1)"
proof -
  let ?cs = "program_calls types func args" and ?bs = "output_builders types"
  let ?s1 = "reset_cstate s\<lparr>outs := ?bs\<rparr>"
  let ?fit = "fits cmp (length ?bs) ?cs \<and> length (iterations_of ?cs) \<le> 8 \<and> length (addresses_of ?cs) \<le> 16"
  have out: "if ?fit then \<exists>s2. exec ex cmp ?cs ?s1 = (Inr (), s2) \<and> after_calls ex [] [] ?cs ?s1 s2
        else \<exists>e s2. exec ex cmp ?cs ?s1 = (Inl e, s2)"
    using exec_outcome [OF reset_tables(1,2) [OF s, of ?bs], of cmp ?cs ex] by simp
  note prog = cherry_program_def Let_def run_outcome [OF s]
  show ?thesis
  proof (cases "length types = length args + 1 \<and> length (ghost_args types args) + length ?bs = length types")
    case False
    then show ?thesis by (auto simp: prog accepted_def)
  next
    case args: True
    show ?thesis
    proof (cases ?fit)
      case False
      with out obtain e s2 where "exec ex cmp ?cs ?s1 = (Inl e, s2)" by auto
      with args False show ?thesis by (auto simp: prog accepted_def)
    next
      case True
      with out obtain s2 where s2: "exec ex cmp ?cs ?s1 = (Inr (), s2)" "after_calls ex [] [] ?cs ?s1 s2"
        by auto
      then have "last (outs s2) = program_result types func args"
        by (simp add: after_calls_def program_result_def)
      with args True s2 show ?thesis
        by (auto simp: prog accepted_def assert_complete_def split: option.split)
    qed
  qed
qed

lemma program_succeeds:
  assumes "sized s" and "cherry_program ex cmp types func args s = (Inr b, s')"
  obtains s1 s2 where "s' = s2\<lparr>is_jit_compiling_active := False\<rparr>"
    and "s1 = reset_cstate s\<lparr>outs := output_builders types\<rparr>"
    and "after_calls ex [] [] (program_calls types func args) s1 s2"
    and "b = program_result types func args" and "accepted cmp types func args"
  using program_outcome [OF assms(1), of cmp types func args ex] assms(2) by (auto split: if_splits)

section \<open>The module as a state machine\<close>

text \<open>The states the module can be in: after its import, after a call of any decorated function,
  whether it returned or raised, and after calls of its functions outside of one.\<close>

inductive reachable :: "expander \<Rightarrow> comparison \<Rightarrow> cstate \<Rightarrow> bool" for ex cmp where
  imported: "reachable ex cmp initial_cstate"
| program_called: "reachable ex cmp s \<Longrightarrow> cherry_program ex cmp types func args s = (r, s')
    \<Longrightarrow> reachable ex cmp s'"
| called_outside: "reachable ex cmp s \<Longrightarrow> run ex cmp p s = (r, s') \<Longrightarrow> reachable ex cmp s'"

lemma cstate_ok_sized: "cstate_ok s \<Longrightarrow> sized s"
  by (simp add: cstate_ok_def sized_def)

lemma cstate_ok_reset: "cstate_ok s \<Longrightarrow> cstate_ok (reset_cstate s\<lparr>outs := bs\<rparr>)" "cstate_ok s \<Longrightarrow> cstate_ok (reset_cstate s)"
  by (simp_all add: cstate_ok_def reset_cstate_def)

lemma cstate_ok_flag: "cstate_ok (s\<lparr>is_jit_compiling_active := b\<rparr>) = cstate_ok s"
  by (simp add: cstate_ok_def)

text \<open>A call of a decorated function ends in its reset state, or in the state in which its body
  ended, with the flag cleared when it returned.\<close>

lemma program_cases:
  assumes "cherry_program ex cmp types func args s = (r, s')"
  obtains (early) e where "r = Inl e" "s' = reset_cstate s"
    | (body) e q where "r = Inl e"
        "run ex cmp (func (ghost_args types args)) (reset_cstate s\<lparr>outs := output_builders types\<rparr>) = (q, s')"
    | (returned) b s1 where "r = Inr b" "s' = s1\<lparr>is_jit_compiling_active := False\<rparr>"
        "run ex cmp (func (ghost_args types args)) (reset_cstate s\<lparr>outs := output_builders types\<rparr>) = (Inr (), s1)"
  using assms unfolding cherry_program_def Let_def
  by (auto split: if_splits prod.splits sum.splits)

lemma reachable_ok: "reachable ex cmp s \<Longrightarrow> cstate_ok s"
proof (induction rule: reachable.induct)
  case imported
  show ?case by (auto simp: cstate_ok_def initial_cstate_def length_loop_variables APU_LIMIT_def)
next
  case (program_called s types func args r s')
  from program_called.hyps(2) show ?case
  proof (cases rule: program_cases)
    case (body e q)
    then show ?thesis using tables.run_E cstate_ok_reset(1) program_called.IH by blast
  next
    case (returned b s1)
    then show ?thesis
      using tables.run_E [OF returned(3)] cstate_ok_reset(1) [OF program_called.IH]
      by (simp add: cstate_ok_flag)
  qed (simp add: cstate_ok_reset program_called.IH)
next
  case (called_outside s p r s')
  then show ?case using tables.run_E by blast
qed

lemma reachable_sized: "reachable ex cmp s \<Longrightarrow> sized s"
  by (intro cstate_ok_sized reachable_ok)

text \<open>Loops opened and not closed.\<close>

fun open_loops :: "nat \<Rightarrow> line list \<Rightarrow> nat option" where
  "open_loops d [] = Some d"
| "open_loops d (Loop_start n # ls) = open_loops (d + 1) ls"
| "open_loops d (Loop_end # ls) = (if d = 0 then None else open_loops (d - 1) ls)"
| "open_loops d (l # ls) = open_loops d ls"

text \<open>The loops that a statement leaves with \<^verbatim>\<open>break\<close>.\<close>

primrec breaks :: "stmt \<Rightarrow> nat \<Rightarrow> nat" where
  "breaks Skip n = 0"
| "breaks (Seq a b) n = breaks a n + breaks b (snd (calls a n))"
| "breaks (Raise e) n = 0"
| "breaks (Unop op) n = 0"
| "breaks (Binop op) n = 0"
| "breaks (Load slot a r) n = 0"
| "breaks (Store slot a r) n = 0"
| "breaks (MemRead m slot a) n = 0"
| "breaks (MemWrite m slot a) n = 0"
| "breaks (SetShape k sh) n = 0"
| "breaks (SetOnChipSlot k slot) n = 0"
| "breaks (OutAddress k f) n = breaks (f 0) n"
| "breaks (For args body) n = breaks (body (loop_value args n)) (n + 1)"
| "breaks (ForBreak args body) n = 1 + breaks (body (loop_value args n)) (n + 1)"

lemma lines_of_append:
  "lines_of n a (xs @ ys) = lines_of n a xs
     @ lines_of (n + length (iterations_of xs)) (a + length (addresses_of xs)) ys"
  by (induction xs arbitrary: n a) (simp_all add: add.assoc)

lemma open_loops_append:
  "open_loops d (xs @ ys) = (case open_loops d xs of None \<Rightarrow> None | Some d' \<Rightarrow> open_loops d' ys)"
  by (induction d xs rule: open_loops.induct) auto

lemma open_loops_simple: "line_loop l = [] \<Longrightarrow> l \<noteq> Loop_end \<Longrightarrow> open_loops d (l # ls) = open_loops d ls"
  by (cases l) auto

lemma open_loops_calls:
  "open_loops d (lines_of m a (fst (calls p n))) = Some (d + breaks p n)"
proof (induction p arbitrary: d m a n)
  case (Seq p q)
  obtain xs n1 ys n2 where c: "calls p n = (xs, n1)" "calls q n1 = (ys, n2)"
    by (metis surj_pair)
  then show ?case
    using Seq.IH(1) [of d m a n] Seq.IH(2) [where n = n1]
    by (simp add: lines_of_append open_loops_append add.assoc)
next
  case (OutAddress k f)
  show ?case using OutAddress.IH [OF rangeI, of d m a 0 n] by (auto split: prod.split)
next
  case (For args body)
  show ?case
    using For.IH [OF rangeI, of "d + 1" "m + length (call_iterations (CRange args))" a
        "loop_value args n" "n + 1"]
    by (auto simp: lines_of_append open_loops_append split: prod.split)
next
  case (ForBreak args body)
  show ?case
    using ForBreak.IH [OF rangeI, of "d + 1" "m + length (call_iterations (CRange args))" a
        "loop_value args n" "n + 1"]
    by (auto split: prod.split)
qed auto

section \<open>Properties\<close>

text \<open>C30. In every state the module can reach, through programs that return, programs that raise
  and calls outside of any program, the two tables keep their sizes, and exactly the loops and
  address units handed out so far have an entry.\<close>

theorem module_invariant:
  assumes "reachable ex cmp s"
  shows "cstate_ok s"
  using assms by (rule reachable_ok)

theorem module_invariant_witness:
  "cstate_ok (snd (run id (\<lambda>e n. Inr True) (Seq (Unop ''relu'') Skip) initial_cstate))"
  by (rule module_invariant [of id "\<lambda>e n. Inr True"])
    (rule called_outside [OF imported], rule prod.collapse [symmetric])

text \<open>C28. The call of a decorated function returns exactly when its arguments match its parameters,
  its last output gets a shape that is not empty, every range is one the compiler supports, every
  load address compares below the size of its slot, no body raises, and it uses at most eight
  loops and sixteen address units.  What state an earlier program left behind does not matter.\<close>

theorem compile_accepts:
  assumes "reachable ex cmp s"
  shows "(\<exists>b s'. cherry_program ex cmp types func args s = (Inr b, s')) \<longleftrightarrow> accepted cmp types func args"
  using program_outcome [OF reachable_sized [OF assms], of cmp types func args ex]
  by (auto split: if_splits)

theorem compile_accepts_witness:
  "\<nexists>b s'. cherry_program id (\<lambda>e n. Inr True) [AnnOutputBuilder] (\<lambda>_. Unop ''relu'') [] initial_cstate
            = (Inr b, s')"
  unfolding compile_accepts [OF imported]
  by (simp add: accepted_def program_calls_def program_result_def output_builders_def new_builder_def Let_def)

text \<open>C29. A program that compiles has exactly the lines of its calls, in their order, with the
  loops and address units numbered by first use; the loop table holds the iteration counts, the
  address table the expanded address formulas, in the same order, and nothing of an earlier
  program is left.  The call returns the last output builder.\<close>

theorem compile_result:
  assumes "reachable ex cmp s" and "cherry_program ex cmp types func args s = (Inr b, s')"
  shows "let cs = program_calls types func args in
     program s' = lines_of 0 0 cs
     \<and> loop_ro_data s' = map Some (iterations_of cs) @ replicate (8 - length (iterations_of cs)) None
     \<and> apu_ro_data s' = map (\<lambda>e. Some (ex e)) (addresses_of cs) @ replicate (16 - length (addresses_of cs)) None
     \<and> b = program_result types func args"
  using reachable_sized [OF assms(1)] assms(2)
  by (rule program_succeeds)
    (simp add: after_calls_def tables_hold_def reset_cstate_def Let_def comp_def)

definition tiny_program :: "ghost_tensor list \<Rightarrow> stmt" where
  "tiny_program gs = Seq (SetShape 0 [4]) (For [4] (\<lambda>v. Store SINGLE_TILE v MATMUL_OUTPUT))"

lemma tiny_accepted: "accepted cmp [AnnOutputBuilder] tiny_program []"
  by (simp add: accepted_def program_calls_def program_result_def tiny_program_def output_builders_def
      ghost_args_def range_shape_def set_shape_def Let_def)

theorem compile_result_witness:
  "\<exists>b s'. cherry_program id (\<lambda>e n. Inr True) [AnnOutputBuilder] tiny_program [] initial_cstate = (Inr b, s')
     \<and> program s' = [Loop_start 0, Cisa_store MATMUL_OUTPUT SINGLE_TILE 0, Loop_end]"
proof -
  obtain b s' where r: "cherry_program id (\<lambda>e n. Inr True) [AnnOutputBuilder] tiny_program []
      initial_cstate = (Inr b, s')"
    using program_outcome [of initial_cstate "\<lambda>e n. Inr True" "[AnnOutputBuilder]" tiny_program "[]" id]
      tiny_accepted reachable_sized [OF imported] by auto
  then show ?thesis
    using compile_result [OF imported r]
    by (simp add: program_calls_def tiny_program_def ghost_args_def range_shape_def Let_def)
qed

text \<open>After the call of a decorated function the module still believes that a program is being
  compiled exactly when the call raised: the flag that guards the instructions is cleared only on
  the way out of a call that returns.\<close>

theorem flag_after_call:
  assumes "cherry_program ex cmp types func args s = (r, s')"
  shows "is_jit_compiling_active s' \<longleftrightarrow> (\<exists>e. r = Inl e)"
  using assms
proof (cases rule: program_cases)
  case (body e q)
  then show ?thesis
    using active.run_E [OF body(2)] by (simp add: reset_cstate_def)
qed (auto simp: reset_cstate_def)

theorem flag_after_call_witness:
  "is_jit_compiling_active
     (snd (cherry_program id (\<lambda>e n. Inr True) [AnnOutputBuilder] (\<lambda>_. Raise TypeError) [] initial_cstate))"
proof -
  let ?c = "cherry_program id (\<lambda>e n. Inr True) [AnnOutputBuilder] (\<lambda>_. Raise TypeError) [] initial_cstate"
  have "fst ?c = Inl TypeError"
    by (simp add: cherry_program_def ghost_args_def output_builders_def raise_def Let_def)
  then show ?thesis
    using flag_after_call [OF surjective_pairing, of id "\<lambda>e n. Inr True" "[AnnOutputBuilder]"
        "\<lambda>_. Raise TypeError" "[]" initial_cstate] by blast
qed

text \<open>C31. The loop marks of a compiled program nest: no \<^verbatim>\<open>loop_end\<close> comes without an open loop, and
  the loops still open at the end are exactly those the program left with \<^verbatim>\<open>break\<close>, whose
  generator never runs on to record the end.\<close>

theorem loops_nest:
  assumes "reachable ex cmp s" and "cherry_program ex cmp types func args s = (Inr b, s')"
  shows "open_loops 0 (program s') = Some (breaks (func (ghost_args types args)) 0)"
  using reachable_sized [OF assms(1)] assms(2)
proof (rule program_succeeds)
  fix s1 s2
  assume "s' = s2\<lparr>is_jit_compiling_active := False\<rparr>" "s1 = reset_cstate s\<lparr>outs := output_builders types\<rparr>"
    "after_calls ex [] [] (program_calls types func args) s1 s2"
  then have "program s' = lines_of 0 0 (program_calls types func args)"
    by (simp add: after_calls_def reset_cstate_def)
  then show ?thesis
    using open_loops_calls [of 0 0 0 "func (ghost_args types args)" 0] by (simp add: program_calls_def)
qed

definition breaking_program :: "ghost_tensor list \<Rightarrow> stmt" where
  "breaking_program gs = Seq (SetShape 0 [4]) (ForBreak [4] (\<lambda>v. Unop ''relu''))"

lemma breaking_accepted: "accepted cmp [AnnOutputBuilder] breaking_program []"
  by (simp add: accepted_def program_calls_def program_result_def breaking_program_def
      output_builders_def ghost_args_def range_shape_def set_shape_def Let_def)

theorem loops_nest_witness:
  "\<exists>b s'. cherry_program id (\<lambda>e n. Inr True) [AnnOutputBuilder] breaking_program [] initial_cstate
             = (Inr b, s') \<and> open_loops 0 (program s') = Some 1"
proof -
  obtain b s' where r: "cherry_program id (\<lambda>e n. Inr True) [AnnOutputBuilder] breaking_program []
      initial_cstate = (Inr b, s')"
    using program_outcome [of initial_cstate "\<lambda>e n. Inr True" "[AnnOutputBuilder]" breaking_program "[]" id]
      breaking_accepted reachable_sized [OF imported] by auto
  then show ?thesis
    using loops_nest [OF imported r] by (simp add: breaking_program_def)
qed

text \<open>In a compiled program the loops are opened in the order of their numbers, and every address
  unit is used by exactly one line, in the order of their numbers.\<close>

theorem units_used_once:
  assumes "cherry_program ex cmp types func args s = (Inr b, s')"
  shows "concat (map line_loop (program s')) = [0..<loop_var_next s']
       \<and> concat (map line_apu (program s')) = [0..<next_apu s']"
  using assms
proof (cases rule: program_cases)
  case (returned b' s1)
  have "numbered (reset_cstate s\<lparr>outs := output_builders types\<rparr>)"
    by (simp add: numbered_def reset_cstate_def)
  then have "numbered s1" by (rule numbering.run_Inr [OF returned(3)])
  then show ?thesis using returned(2) by (simp add: numbered_def)
qed simp_all

theorem units_used_once_witness:
  "\<exists>b s'. cherry_program id (\<lambda>e n. Inr True) [AnnOutputBuilder] tiny_program [] initial_cstate = (Inr b, s')
     \<and> concat (map line_apu (program s')) = [0..<next_apu s']"
proof -
  obtain b s' where r: "cherry_program id (\<lambda>e n. Inr True) [AnnOutputBuilder] tiny_program []
      initial_cstate = (Inr b, s')"
    using program_outcome [of initial_cstate "\<lambda>e n. Inr True" "[AnnOutputBuilder]" tiny_program "[]" id]
      tiny_accepted reachable_sized [OF imported] by auto
  then show ?thesis
    using units_used_once [OF r] by simp
qed

text \<open>The numbers Python's \<^verbatim>\<open>range(a, b, c)\<close> runs through, for a step that is not 0.\<close>

definition range_values :: "int \<Rightarrow> int \<Rightarrow> int \<Rightarrow> int list" where
  "range_values a b c =
     map (\<lambda>t. a + c * int t) [0..<nat (if 0 < c then (b - a + c - 1) div c else (a - b - c - 1) div (- c))]"

definition range_of_args :: "int list \<Rightarrow> int list" where
  "range_of_args args =
     (if length args = 1 then range_values 0 (args ! 0) 1
      else range_values (args ! 0) (args ! 1) (args ! 2))"

lemma range_values_dvd:
  assumes "c \<noteq> 0" and "c dvd b - a"
  shows "range_values a b c = map (\<lambda>t. a + c * int t) [0..<nat ((b - a) div c)]"
proof -
  obtain q where b: "b - a = c * q" using assms(2) by blast
  have pos: "(c * q + c - 1) div c = q" if "0 < c"
    using that by (intro int_div_pos_eq [where r = "c - 1"]) auto
  have neg: "(- (c * q) - c - 1) div (- c) = q" if "c < 0"
    using that by (intro int_div_pos_eq [where r = "- c - 1"]) auto
  show ?thesis
  proof (cases "0 < c")
    case True
    then show ?thesis using pos b by (simp add: range_values_def)
  next
    case False
    have "a - b = - (c * q)" using b by simp
    with False assms(1) neg show ?thesis by (simp add: range_values_def b)
  qed
qed

lemma range_shape_values:
  assumes "range_shape args = Inr (slope, y_intercept, n)"
  shows "range_of_args args = map (\<lambda>t. slope * int t + y_intercept) [0..<nat n]"
    and "range_of_args args = [] \<longleftrightarrow> n \<le> 0"
proof -
  show e: "range_of_args args = map (\<lambda>t. slope * int t + y_intercept) [0..<nat n]"
    using assms range_values_dvd [of 1 "args ! 0" 0] range_values_dvd [of "args ! 2" "args ! 1" "args ! 0"]
    by (auto simp: range_shape_def range_of_args_def dvd_eq_mod_eq_0 add.commute split: if_splits)
  show "range_of_args args = [] \<longleftrightarrow> n \<le> 0"
    by (simp add: e)
qed

text \<open>C32. A loop that \<^verbatim>\<open>cherry_range\<close> accepts runs through the numbers of Python's \<^verbatim>\<open>range\<close> with the
  same arguments: the recorded iteration count is their number, and the value bound in the body,
  with the loop's variable at \<open>t\<close>, is the \<open>t\<close>-th of them.  Where \<^verbatim>\<open>range\<close> is empty the recorded count
  is 0 or negative.\<close>

theorem range_agrees:
  assumes "reachable ex cmp s" and "cherry_range args s = (Inr v, s')"
  shows "\<exists>n. loop_ro_data s' ! loop_var_next s = Some n
     \<and> range_of_args args
         = map (\<lambda>t. eval (\<lambda>x. if x = loop_variables ! loop_var_next s then int t else 0) v) [0..<nat n]
     \<and> (range_of_args args = [] \<longleftrightarrow> n \<le> 0)"
proof -
  obtain slope y n where sh: "range_shape args = Inr (slope, y, n)"
    and v: "v = Add (Mul (Const slope) (Sym (loop_variables ! loop_var_next s))) (Const y)"
    and tab: "loop_ro_data s' = (loop_ro_data s)[loop_var_next s := Some n]" "loop_var_next s < 8"
    using assms(2)
    by (auto simp: cherry_range_def set_loop_ro_def cassert_def ret_def raise_def bind_eq
        append_line_def Let_def length_loop_variables split: sum.splits prod.splits if_splits)
  have "loop_ro_data s' ! loop_var_next s = Some n"
    using tab reachable_sized [OF assms(1)] by (simp add: sized_def)
  then show ?thesis
    using range_shape_values [OF sh] by (simp add: v)
qed

theorem range_agrees_witness:
  "\<exists>v s'. cherry_range [10, 0, - 5] initial_cstate = (Inr v, s')
     \<and> (\<exists>n. loop_ro_data s' ! 0 = Some n \<and> length (range_of_args [10, 0, - 5]) = nat n)
     \<and> range_of_args [10, 0, - 5] = [10, 5]"
proof -
  obtain v s' where r: "cherry_range [10, 0, - 5] initial_cstate = (Inr v, s')"
    by (auto simp: cherry_range_def set_loop_ro_def cassert_def ret_def bind_eq append_line_def Let_def
        length_loop_variables range_shape_def initial_cstate_def)
  have "\<exists>n. loop_ro_data s' ! 0 = Some n \<and> length (range_of_args [10, 0, - 5]) = nat n"
    using range_agrees [OF imported r] by (auto simp: initial_cstate_def)
  moreover have "range_of_args [10, 0, - 5] = [10, 5]"
    by (simp add: range_of_args_def range_values_def upt_rec)
  ultimately show ?thesis using r by blast
qed

text \<open>A relation between a loop variable and a number has no truth value, so comparing such an
  address raises TypeError (\<open>cmp\<close>).  A program that loads from an address containing a loop variable
  therefore never compiles: its call raises.\<close>

theorem symbolic_load_never_compiles:
  assumes "\<And>e n. syms e \<noteq> [] \<Longrightarrow> cmp e n = Inl TypeError"
    and "reachable ex cmp s"
    and "CLoad slot e r \<in> set (program_calls types func args)" and "syms e \<noteq> []"
  shows "\<exists>err s'. cherry_program ex cmp types func args s = (Inl err, s')"
proof -
  have "\<not> accepted cmp types func args"
  proof -
    have "\<not> call_ok cmp (length (output_builders types)) (CLoad slot e r)"
      using assms(1) [OF assms(4)] by simp
    with assms(3) show ?thesis
      unfolding accepted_def fits_def list_all_iff Let_def by blast
  qed
  then show ?thesis
    using program_outcome [OF reachable_sized [OF assms(2)], of cmp types func args ex] by auto
qed

definition loading_program :: "ghost_tensor list \<Rightarrow> stmt" where
  "loading_program gs = Seq (SetShape 0 [4])
     (For [4] (\<lambda>v. Load PRIVATE_TILE_ADDRESSABLE_0 v MATMUL_INPUT))"

theorem symbolic_load_never_compiles_witness:
  "\<exists>err s'. cherry_program id (\<lambda>e n. if syms e \<noteq> [] then Inl TypeError else Inr (coef0 e < n))
     [AnnOutputBuilder] loading_program [] initial_cstate = (Inl err, s')"
proof (rule symbolic_load_never_compiles [OF _ imported])
  show "CLoad PRIVATE_TILE_ADDRESSABLE_0 (Add (Mul (Const 1) (Sym ''i'')) (Const 0)) MATMUL_INPUT
      \<in> set (program_calls [AnnOutputBuilder] loading_program [])"
    by (simp add: program_calls_def loading_program_def loop_value_def range_shape_def loop_variables_def)
qed simp_all

end
