(* ===== verification/NewExample.thy ===== *)
theory NewExample
  imports Compiler
begin

text \<open>
  experiments/compiler/new_example.py: the relu program in the compiler's front end, and what the
  compiler makes of it for an array of any shape.
\<close>

text \<open>The sum of an address and a loop value; adding to None raises TypeError.\<close>

definition cherry_relu :: "ghost_tensor list \<Rightarrow> stmt" where
  "cherry_relu gs =
     (let x = gs ! 0 in
      Seq (SetShape 0 (gt_shape x))
       (if gt_slot_if_on_chip x = None then
          Seq
           (For [0, prod_list (gt_shape x), SZ * SZ] (\<lambda>i.
              Seq (case gt_main_memory_address x of
                     None \<Rightarrow> Raise TypeError
                   | Some addr \<Rightarrow> MemRead (Add (Const addr) i) SINGLE_TILE (Const 0))
             (Seq (Load SINGLE_TILE (Const 0) MATMUL_INPUT)
             (Seq (Unop ''relu'')
             (Seq (Store PRIVATE_TILE_ADDRESSABLE_0 i MATMUL_OUTPUT)
                  (OutAddress 0 (\<lambda>addr. MemWrite (Add (Const addr) i) PRIVATE_TILE_ADDRESSABLE_0 i)))))))
           (SetOnChipSlot 0 PRIVATE_TILE_ADDRESSABLE_0)
        else Skip))"

abbreviation relu_types :: "annotation list" where
  "relu_types \<equiv> [AnnGhostTensor, AnnOutputBuilder]"

text \<open>The loop value of \<^verbatim>\<open>cherry_range(0, n, 16)\<close>, the first loop of the program.\<close>

definition tile_offset :: expr where
  "tile_offset = Add (Mul (Const 16) (Sym ''i'')) (Const 0)"

lemma relu_range:
  "range_shape [0, n, SZ * SZ] = (if n mod 16 = 0 then Inr (16, 0, n div 16)
     else Inl (CherryError ''TODO: Support this as nonzero remainder''))"
  by (simp add: range_shape_def SZ_def CURRENT_DEVICE_VERSION_def)

lemma relu_calls:
  "program_calls relu_types cherry_relu [NdArray sh addr] =
     (let i = loop_value [0, prod_list sh, SZ * SZ] 0 in
      [CSetShape 0 sh, CRange [0, prod_list sh, SZ * SZ],
       CMemRead (Add (Const addr) i) SINGLE_TILE (Const 0),
       CLoad SINGLE_TILE (Const 0) MATMUL_INPUT, COp ''relu'',
       CStore PRIVATE_TILE_ADDRESSABLE_0 i MATMUL_OUTPUT, COutAddress 0,
       CMemWrite (Add (Const 0) i) PRIVATE_TILE_ADDRESSABLE_0 i, CEnd,
       CSetOnChipSlot 0 PRIVATE_TILE_ADDRESSABLE_0])"
  by (simp add: program_calls_def cherry_relu_def ghost_args_def Let_def)

lemma relu_accepted:
  assumes "\<And>c n. cmp (Const c) n = Inr (c < n)"
  shows "accepted cmp relu_types cherry_relu [NdArray sh addr] \<longleftrightarrow> prod_list sh mod 16 = 0 \<and> sh \<noteq> []"
    and "program_result relu_types cherry_relu [NdArray sh addr] =
      \<lparr>b_slot_if_on_chip = Some PRIVATE_TILE_ADDRESSABLE_0, b_main_mem_addr = Some 0, b_shape = Some sh\<rparr>"
  using assms
  by (simp_all add: accepted_def program_result_def relu_calls relu_range ghost_args_def output_builders_def
      new_builder_def set_shape_def set_on_chip_slot_def builder_main_memory_address_def Let_def)

lemma relu_compiled:
  assumes "\<And>c n. cmp (Const c) n = Inr (c < n)" and "reachable ex cmp s" and "sh \<noteq> []"
  shows "if prod_list sh mod 16 = 0
     then \<exists>s'. cherry_program ex cmp relu_types cherry_relu [NdArray sh addr] s =
         (Inr \<lparr>b_slot_if_on_chip = Some PRIVATE_TILE_ADDRESSABLE_0, b_main_mem_addr = Some 0,
               b_shape = Some sh\<rparr>, s')
       \<and> program s' =
           [Loop_start 0,
            Cisa_mem_read (Add (Const addr) tile_offset) SINGLE_TILE 0,
            Cisa_load 1 MATMUL_INPUT SINGLE_TILE,
            Op ''relu'',
            Cisa_store MATMUL_OUTPUT PRIVATE_TILE_ADDRESSABLE_0 2,
            Cisa_mem_write PRIVATE_TILE_ADDRESSABLE_0 3 (Add (Const 0) tile_offset),
            Loop_end]
       \<and> loop_ro_data s' = Some (prod_list sh div 16) # replicate 7 None
       \<and> take 4 (apu_ro_data s') =
           [Some (ex (Const 0)), Some (ex (Const 0)), Some (ex tile_offset), Some (ex tile_offset)]
     else \<exists>e s'. cherry_program ex cmp relu_types cherry_relu [NdArray sh addr] s = (Inl e, s')"
proof (cases "prod_list sh mod 16 = 0")
  case True
  let ?cs = "program_calls relu_types cherry_relu [NdArray sh addr]"
  have i: "loop_value [0, prod_list sh, SZ * SZ] 0 = tile_offset"
    using True by (simp add: loop_value_def relu_range tile_offset_def loop_variables_def)
  obtain s1 s2 where r: "cherry_program ex cmp relu_types cherry_relu [NdArray sh addr] s
        = (Inr (program_result relu_types cherry_relu [NdArray sh addr]), s2\<lparr>is_jit_compiling_active := False\<rparr>)"
    and s1: "s1 = reset_cstate s\<lparr>outs := output_builders relu_types\<rparr>"
    and after: "after_calls ex [] [] ?cs s1 s2"
    using program_outcome [OF reachable_sized [OF assms(2)], of cmp relu_types cherry_relu "[NdArray sh addr]" ex]
      relu_accepted(1) [OF assms(1), of sh addr] True assms(3) by auto
  have "iterations_of ?cs = [prod_list sh div 16]"
    "addresses_of ?cs = [Const 0, Const 0, tile_offset, tile_offset]"
    using True by (simp_all add: relu_calls relu_range i Let_def)
  then show ?thesis
    using True after r
    by (simp add: relu_accepted(2) [OF assms(1)] after_calls_def tables_hold_def s1 reset_cstate_def
        relu_calls relu_range i Let_def)
next
  case False
  then show ?thesis
    using program_outcome [OF reachable_sized [OF assms(2)], of cmp relu_types cherry_relu "[NdArray sh addr]" ex]
      relu_accepted(1) [OF assms(1), of sh addr] by simp
qed

text \<open>C38. The relu program of new_example.py compiles for an array exactly when its size is a multiple
  of the tile's sixteen elements, whatever the module did before.  It is then one loop over the
  tiles, which reads a tile from main memory, loads it, applies relu, stores it and writes it back,
  with four address units; the output has the input's shape and stays in the first private slot.\<close>

theorem relu_compiles:
  assumes "\<And>c n. cmp (Const c) n = Inr (c < n)" and "reachable ex cmp s" and "sh \<noteq> []"
  shows "if prod_list sh mod 16 = 0
     then \<exists>s'. cherry_program ex cmp relu_types cherry_relu [NdArray sh addr] s =
         (Inr \<lparr>b_slot_if_on_chip = Some PRIVATE_TILE_ADDRESSABLE_0, b_main_mem_addr = Some 0,
               b_shape = Some sh\<rparr>, s')
       \<and> program s' =
           [Loop_start 0,
            Cisa_mem_read (Add (Const addr) tile_offset) SINGLE_TILE 0,
            Cisa_load 1 MATMUL_INPUT SINGLE_TILE,
            Op ''relu'',
            Cisa_store MATMUL_OUTPUT PRIVATE_TILE_ADDRESSABLE_0 2,
            Cisa_mem_write PRIVATE_TILE_ADDRESSABLE_0 3 (Add (Const 0) tile_offset),
            Loop_end]
       \<and> loop_ro_data s' = Some (prod_list sh div 16) # replicate 7 None
       \<and> take 4 (apu_ro_data s') =
           [Some (ex (Const 0)), Some (ex (Const 0)), Some (ex tile_offset), Some (ex tile_offset)]
     else \<exists>e s'. cherry_program ex cmp relu_types cherry_relu [NdArray sh addr] s = (Inl e, s')"
  by (rule relu_compiled [OF assms])

theorem relu_compiles_witness:
  "\<exists>b s'. cherry_program id (\<lambda>e n. if syms e \<noteq> [] then Inl TypeError else Inr (coef0 e < n))
      relu_types cherry_relu [NdArray [1024, 10] 4096] initial_cstate = (Inr b, s')
    \<and> loop_ro_data s' = Some 640 # replicate 7 None"
  using relu_compiles [OF _ imported, of "\<lambda>e n. if syms e \<noteq> [] then Inl TypeError else Inr (coef0 e < n)"
      "[1024, 10]" id 4096]
  by auto

text \<open>The script's own run, on an array of 1024 times 10 ones in a fresh module; \<open>addr\<close> is the array's
  address.\<close>

definition new_example ::
    "(expr \<Rightarrow> expr) \<Rightarrow> (expr \<Rightarrow> int \<Rightarrow> bool res) \<Rightarrow> int \<Rightarrow> builder res \<times> cstate" where
  "new_example ex cmp addr = cherry_program ex cmp relu_types cherry_relu [NdArray [1024, 10] addr] initial_cstate"

theorem new_example_runs:
  assumes "\<And>c n. cmp (Const c) n = Inr (c < n)"
  shows "\<exists>s'. new_example ex cmp addr =
         (Inr \<lparr>b_slot_if_on_chip = Some PRIVATE_TILE_ADDRESSABLE_0, b_main_mem_addr = Some 0,
               b_shape = Some [1024, 10]\<rparr>, s')
       \<and> length (program s') = 7 \<and> loop_ro_data s' = Some 640 # replicate 7 None"
  unfolding new_example_def using relu_compiled [OF assms imported, where sh = "[1024, 10]"] by fastforce

end
