(* ===== verification/Superscalar.thy ===== *)
theory Superscalar
  imports Complex_Main Prelude
begin

text \<open>
  experiments/superscalar.py: the algorithm that spreads the copies of each instruction of a loop
  over two execution queues.  The class \<^verbatim>\<open>Queue\<close> and the two module lists it writes are the
  record \<open>queue\<close>; its dictionaries are functions of the instruction type.  Everything is a natural
  number, as in the script; writing beyond the end of a list raises IndexError.
\<close>

section \<open>Model\<close>

datatype itype = Memory | Processing

definition SUPERSCALAR_WIDTH :: nat where
  "SUPERSCALAR_WIDTH = 12"

definition LOOP_ITER :: nat where
  "LOOP_ITER = 96"

definition loop_program :: "string list" where
  "loop_program = [''load'', ''load'', ''matmul'', ''store'']"

definition get_type :: "string \<Rightarrow> itype" where
  "get_type instr = (if instr = ''load'' \<or> instr = ''store'' then Memory else Processing)"

fun LATENCY :: "itype \<Rightarrow> nat" where
  "LATENCY Memory = 3"
| "LATENCY Processing = 6"

record queue =
  prevInstrType :: itype
  next_spot_in_queue :: "itype \<Rightarrow> nat"
  queue_position_when_done :: "itype \<Rightarrow> nat"
  slots :: "itype \<Rightarrow> string list"

definition new_queue :: queue where
  "new_queue = \<lparr>prevInstrType = Memory, next_spot_in_queue = (\<lambda>_. 0),
     queue_position_when_done = (\<lambda>_. 0), slots = (\<lambda>_. replicate 1000 ''_'')\<rparr>"

fun write_copies :: "string \<Rightarrow> nat \<Rightarrow> nat list \<Rightarrow> string list \<Rightarrow> string list res" where
  "write_copies instr insert_spot [] q = Inr q"
| "write_copies instr insert_spot (i # is) q =
     (if insert_spot + i < length q
      then write_copies instr insert_spot is (q[insert_spot + i := instr]) else Inl IndexError)"

definition insert_spot :: "itype \<Rightarrow> queue \<Rightarrow> nat" where
  "insert_spot instr_type q =
     max (queue_position_when_done q (prevInstrType q)) (next_spot_in_queue q instr_type)"

definition superscalar_push :: "string \<Rightarrow> itype \<Rightarrow> nat \<Rightarrow> queue \<Rightarrow> queue res" where
  "superscalar_push instr instr_type copy_count q =
     (let spot = insert_spot instr_type q in
      bind_res (write_copies instr spot [0..<copy_count] (slots q instr_type)) (\<lambda>xs.
        Inr (q\<lparr>next_spot_in_queue := (next_spot_in_queue q)(instr_type := spot + SUPERSCALAR_WIDTH),
               queue_position_when_done :=
                 (queue_position_when_done q)(instr_type := spot + LATENCY instr_type),
               prevInstrType := instr_type,
               slots := (slots q)(instr_type := xs)\<rparr>)))"

definition instructions_used :: "queue \<Rightarrow> nat" where
  "instructions_used q = max (next_spot_in_queue q Memory) (next_spot_in_queue q Processing)"

text \<open>The control unit's loops: the instructions it pushes, with their copy counts.\<close>

fun push_all :: "(string \<times> nat) list \<Rightarrow> queue \<Rightarrow> queue res" where
  "push_all [] q = Inr q"
| "push_all ((instr, c) # ps) q =
     bind_res (superscalar_push instr (get_type instr) c q) (push_all ps)"

definition copy_count :: "nat \<Rightarrow> nat" where
  "copy_count i = (if LOOP_ITER - i > SUPERSCALAR_WIDTH then SUPERSCALAR_WIDTH else LOOP_ITER - i)"

definition loop_starts :: "nat list" where
  "loop_starts = map (\<lambda>k. k * SUPERSCALAR_WIDTH) [0..<(LOOP_ITER + SUPERSCALAR_WIDTH - 1) div SUPERSCALAR_WIDTH]"

definition control_pushes :: "(string \<times> nat) list" where
  "control_pushes = concat (map (\<lambda>i. map (\<lambda>instr. (instr, copy_count i)) loop_program) loop_starts)"

definition slots_used :: "itype \<Rightarrow> queue \<Rightarrow> nat" where
  "slots_used t q = length (filter (\<lambda>i. i \<noteq> ''_'') (take (instructions_used q) (slots q t)))"

text \<open>The end of the script: the rows of its table, and its statistics, the quotients before they are
  rounded for printing.\<close>

definition visualization :: "queue \<Rightarrow> (nat \<times> string \<times> string) list" where
  "visualization q =
     (let memory_q = take (instructions_used q) (slots q Memory);
          processing_q = take (instructions_used q) (slots q Processing) in
      zip [0..<length (zip memory_q processing_q)] (zip memory_q processing_q))"

definition SAD_FACTOR :: rat where
  "SAD_FACTOR = of_nat (LOOP_ITER mod SUPERSCALAR_WIDTH) / of_nat LOOP_ITER"

record statistics =
  memory_utilization :: rat
  processing_utilization :: rat
  instructions_per_cycle :: rat
  expected_workload_success :: rat
  regfile_size_kb :: rat

definition show_stats :: "queue \<Rightarrow> statistics" where
  "show_stats q =
     (let memory_q_used = of_nat (slots_used Memory q); processing_q_used = of_nat (slots_used Processing q);
          used = of_nat (instructions_used q) in
      \<lparr>memory_utilization = memory_q_used / used,
       processing_utilization = processing_q_used / used,
       instructions_per_cycle = (memory_q_used + processing_q_used) / used,
       expected_workload_success = SAD_FACTOR,
       regfile_size_kb = of_int \<lfloor>1024 * 4 * of_nat SUPERSCALAR_WIDTH * 19 / 8 / (1024 :: rat)\<rfloor>\<rparr>)"

text \<open>Where each of a list of pushes is inserted, by itself.\<close>

fun spots :: "(string \<times> nat) list \<Rightarrow> queue \<Rightarrow> nat list" where
  "spots [] q = []"
| "spots ((instr, c) # ps) q =
     (let t = get_type instr; spot = insert_spot t q in
      spot # spots ps (q\<lparr>next_spot_in_queue := (next_spot_in_queue q)(t := spot + SUPERSCALAR_WIDTH),
               queue_position_when_done := (queue_position_when_done q)(t := spot + LATENCY t),
               prevInstrType := t\<rparr>))"

section \<open>What a push does\<close>

lemma write_copies_from:
  "a < b \<Longrightarrow> write_copies instr s [a..<b] q =
     (if s + b \<le> length q then Inr (take (s + a) q @ replicate (b - a) instr @ drop (s + b) q)
      else Inl IndexError)"
proof (induction "b - a" arbitrary: a q)
  case (Suc k)
  show ?case
  proof (cases "s + a < length q")
    case True
    let ?q = "q[s + a := instr]"
    have q: "take (s + Suc a) ?q = take (s + a) q @ [instr]"
      using True by (simp add: take_Suc_conv_app_nth)
    show ?thesis
    proof (cases "Suc a < b")
      case b: True
      then have "write_copies instr s [Suc a..<b] ?q =
          (if s + b \<le> length ?q then Inr (take (s + Suc a) ?q @ replicate (b - Suc a) instr @ drop (s + b) ?q)
           else Inl IndexError)"
        using Suc by (intro Suc.hyps(1)) auto
      moreover have "b - a = Suc (b - Suc a)" using b by simp
      ultimately show ?thesis
        using True b Suc.prems q by (simp add: upt_conv_Cons)
    next
      case False
      then have "b = Suc a" using Suc.prems by simp
      then show ?thesis using True by (simp add: upd_conv_take_nth_drop)
    qed
  qed (use Suc.prems in \<open>simp add: upt_conv_Cons\<close>)
qed simp

lemma write_copies_eq:
  "write_copies instr s [0..<c] q =
     (if c = 0 \<or> s + c \<le> length q then Inr (take s q @ replicate c instr @ drop (s + c) q)
      else Inl IndexError)"
  by (cases "c = 0") (simp_all add: write_copies_from)

text \<open>The bookkeeping of a push, without the writes.\<close>

definition book :: "itype \<Rightarrow> queue \<Rightarrow> queue" where
  "book t q = q\<lparr>next_spot_in_queue := (next_spot_in_queue q)(t := insert_spot t q + SUPERSCALAR_WIDTH),
     queue_position_when_done := (queue_position_when_done q)(t := insert_spot t q + LATENCY t),
     prevInstrType := t\<rparr>"

lemma spots_Cons: "spots ((instr, c) # ps) q = insert_spot (get_type instr) q # spots ps (book (get_type instr) q)"
  by (simp add: book_def Let_def)

lemma superscalar_push_eq:
  "superscalar_push instr t c q =
     (if c = 0 \<or> insert_spot t q + c \<le> length (slots q t)
      then Inr ((book t q)\<lparr>slots := (slots q)(t := take (insert_spot t q) (slots q t) @ replicate c instr
                    @ drop (insert_spot t q + c) (slots q t))\<rparr>)
      else Inl IndexError)"
  by (simp add: superscalar_push_def write_copies_eq book_def Let_def)

lemma spots_slots: "spots ps (q\<lparr>slots := xs\<rparr>) = spots ps q"
proof (induction ps arbitrary: q)
  case (Cons p ps)
  have "book t (q\<lparr>slots := xs\<rparr>) = (book t q)\<lparr>slots := xs\<rparr>" "insert_spot t (q\<lparr>slots := xs\<rparr>) = insert_spot t q" for t
    by (simp_all add: book_def insert_spot_def)
  with Cons show ?case by (cases p) (simp only: spots_Cons)
qed simp

section \<open>Order and latency\<close>

lemma spot_bounds:
  "next_spot_in_queue q t \<le> insert_spot t q"
  "queue_position_when_done q (prevInstrType q) \<le> insert_spot t q"
  by (simp_all add: insert_spot_def)

lemma length_spots [simp]: "length (spots ps q) = length ps"
  by (induction ps q rule: spots.induct) (simp_all add: Let_def)

lemma spots_after_next:
  "n < length ps \<Longrightarrow> next_spot_in_queue q (get_type (fst (ps ! n))) \<le> spots ps q ! n"
proof (induction ps arbitrary: q n)
  case (Cons p ps)
  obtain instr c where p: "p = (instr, c)" by (cases p)
  show ?case
  proof (cases n)
    case (Suc m)
    let ?t = "get_type instr"
    have "next_spot_in_queue q u \<le> next_spot_in_queue (book ?t q) u" for u
      using spot_bounds(1) [of q ?t] by (simp add: book_def)
    also have "next_spot_in_queue (book ?t q) (get_type (fst (ps ! m))) \<le> spots ps (book ?t q) ! m"
      using Suc Cons.prems by (intro Cons.IH) simp
    finally show ?thesis
      using Suc by (simp add: p spots_Cons del: spots.simps)
  qed (simp add: p spots_Cons spot_bounds del: spots.simps)
qed simp

lemma spots_order:
  "Suc n < length ps \<Longrightarrow> spots ps q ! n + LATENCY (get_type (fst (ps ! n))) \<le> spots ps q ! Suc n"
proof (induction ps arbitrary: q n)
  case (Cons p ps)
  obtain instr c where p: "p = (instr, c)" by (cases p)
  show ?case
  proof (cases n)
    case 0
    then obtain instr' c' qs where ps: "ps = (instr', c') # qs"
      using Cons.prems by (cases ps) auto
    show ?thesis
      using spot_bounds(2) [of "book (get_type instr) q" "get_type instr'"]
      by (simp add: p ps spots_Cons 0 book_def [of "get_type instr" q] del: spots.simps)
  next
    case (Suc m)
    then show ?thesis
      using Cons by (simp add: p spots_Cons del: spots.simps)
  qed
qed simp

lemma spots_apart:
  "m < n \<Longrightarrow> n < length ps \<Longrightarrow> get_type (fst (ps ! m)) = get_type (fst (ps ! n)) \<Longrightarrow>
     spots ps q ! m + SUPERSCALAR_WIDTH \<le> spots ps q ! n"
proof (induction ps arbitrary: q m n)
  case (Cons p ps)
  obtain instr c where p: "p = (instr, c)" by (cases p)
  obtain k where n: "n = Suc k" using Cons.prems by (cases n) auto
  show ?case
  proof (cases m)
    case 0
    let ?q = "book (get_type instr) q"
    have "next_spot_in_queue ?q (get_type (fst (ps ! k))) \<le> spots ps ?q ! k"
      using Cons.prems n by (intro spots_after_next) simp
    then show ?thesis
      using Cons.prems(3) 0 n by (simp add: p spots_Cons book_def del: spots.simps)
  next
    case (Suc j)
    then show ?thesis
      using Cons n by (simp add: p spots_Cons del: spots.simps)
  qed
qed simp

section \<open>Contents\<close>

text \<open>The instructions of a queue, without its empty slots.\<close>

definition issued :: "string list \<Rightarrow> string list" where
  "issued xs = filter (\<lambda>x. x \<noteq> ''_'') xs"

text \<open>The invariant: nothing lies at or beyond the next free spot of either queue.\<close>

definition queue_ok :: "nat \<Rightarrow> queue \<Rightarrow> bool" where
  "queue_ok N q \<longleftrightarrow> (\<forall>t. length (slots q t) = N \<and> issued (drop (next_spot_in_queue q t) (slots q t)) = [])"

definition push_ok :: "string \<times> nat \<Rightarrow> bool" where
  "push_ok p \<longleftrightarrow> fst p \<noteq> ''_'' \<and> snd p \<le> SUPERSCALAR_WIDTH"

definition copies_of :: "itype \<Rightarrow> (string \<times> nat) list \<Rightarrow> string list" where
  "copies_of t ps = concat (map (\<lambda>(instr, c). replicate c instr) (filter (\<lambda>(instr, c). get_type instr = t) ps))"

lemma issued_simps [simp]:
  "issued [] = []" "issued (xs @ ys) = issued xs @ issued ys"
  "x \<noteq> ''_'' \<Longrightarrow> issued (replicate n x) = replicate n x" "issued (replicate n ''_'') = []"
  by (simp_all add: issued_def filter_replicate)

lemma issued_drop_later:
  assumes "issued (drop n xs) = []" and "n \<le> m"
  shows "issued (drop m xs) = []" and "issued (take m xs) = issued xs"
proof -
  have "drop m xs = drop (m - n) (drop n xs)" using assms(2) by simp
  then have "set (drop m xs) \<subseteq> set (drop n xs)" by (metis set_drop_subset)
  then show d: "issued (drop m xs) = []"
    using assms(1) by (auto simp: issued_def filter_empty_conv)
  have "issued xs = issued (take m xs) @ issued (drop m xs)"
    by (simp flip: issued_simps(2))
  then show "issued (take m xs) = issued xs" by (simp add: d)
qed

lemma push_contents:
  assumes "queue_ok N q" and "push_ok (instr, c)" and "c = 0 \<or> insert_spot t q + c \<le> N"
  defines "xs \<equiv> take (insert_spot t q) (slots q t) @ replicate c instr @ drop (insert_spot t q + c) (slots q t)"
  shows "queue_ok N ((book t q)\<lparr>slots := (slots q)(t := xs)\<rparr>)"
    and "issued xs = issued (slots q t) @ replicate c instr"
proof -
  let ?s = "insert_spot t q"
  have len: "length (slots q t) = N" and blank: "issued (drop (next_spot_in_queue q t) (slots q t)) = []"
    using assms(1) by (simp_all add: queue_ok_def)
  note later = issued_drop_later [OF blank]
  have s: "next_spot_in_queue q t \<le> ?s" by (rule spot_bounds)
  show "issued xs = issued (slots q t) @ replicate c instr"
    using assms(2) later(2) [OF s] later(1) [of "?s + c"] s by (simp add: xs_def push_ok_def)
  have "issued (drop (?s + SUPERSCALAR_WIDTH) xs) = []" and "length xs = N"
  proof -
    show "length xs = N"
      using assms(3) len by (auto simp: xs_def)
    have "drop (?s + SUPERSCALAR_WIDTH) xs = drop (?s + SUPERSCALAR_WIDTH) (slots q t)"
      using assms(2,3) len by (cases "?s \<le> N") (auto simp: xs_def push_ok_def add.commute)
    then show "issued (drop (?s + SUPERSCALAR_WIDTH) xs) = []"
      using later(1) [of "?s + SUPERSCALAR_WIDTH"] s by simp
  qed
  then show "queue_ok N ((book t q)\<lparr>slots := (slots q)(t := xs)\<rparr>)"
    using assms(1) by (simp add: queue_ok_def book_def)
qed

text \<open>A list of pushes succeeds exactly when every copy fits, and then adds its copies in order.\<close>

lemma push_all_outcome:
  "queue_ok N q \<Longrightarrow> list_all push_ok ps \<Longrightarrow>
     if list_all2 (\<lambda>p s. snd p = 0 \<or> s + snd p \<le> N) ps (spots ps q)
     then \<exists>q'. push_all ps q = Inr q' \<and> queue_ok N q'
        \<and> (\<forall>t. issued (slots q' t) = issued (slots q t) @ copies_of t ps)
     else push_all ps q = Inl IndexError"
proof (induction ps arbitrary: q)
  case Nil
  then show ?case by (simp add: copies_of_def)
next
  case (Cons p ps)
  obtain instr c where p: "p = (instr, c)" by (cases p)
  let ?t = "get_type instr"
  let ?xs = "take (insert_spot ?t q) (slots q ?t) @ replicate c instr @ drop (insert_spot ?t q + c) (slots q ?t)"
  define q1 where "q1 = (book ?t q)\<lparr>slots := (slots q)(?t := ?xs)\<rparr>"
  have len: "length (slots q ?t) = N" using Cons.prems(1) by (simp add: queue_ok_def)
  show ?case
  proof (cases "c = 0 \<or> insert_spot ?t q + c \<le> N")
    case False
    then show ?thesis
      by (simp add: p spots_Cons superscalar_push_eq len del: spots.simps)
  next
    case True
    have "push_ok (instr, c)" using Cons.prems(2) p by simp
    note step = push_contents [OF Cons.prems(1) this True]
    have push: "push_all (p # ps) q = push_all ps q1"
      using True by (simp add: p superscalar_push_eq len q1_def)
    have same: "spots ps q1 = spots ps (book ?t q)" by (simp add: q1_def spots_slots)
    have contents: "issued (slots q1 t) @ copies_of t ps = issued (slots q t) @ copies_of t (p # ps)" for t
      using step(2) by (simp add: p copies_of_def q1_def)
    have "queue_ok N q1" using step(1) by (simp add: q1_def)
    from Cons.IH [OF this] Cons.prems(2) True show ?thesis
      unfolding push same contents by (simp add: p spots_Cons del: spots.simps push_all.simps)
  qed
qed

lemma new_queue_ok: "queue_ok 1000 new_queue" "issued (slots new_queue t) = []"
  by (simp_all add: queue_ok_def new_queue_def)

section \<open>Properties\<close>

text \<open>C39. However many instructions the control unit pushes, with at most the superscalar width of
  copies each, no push overwrites or loses an instruction: either a copy does not fit and the
  script ends with IndexError, or each queue holds, apart from its empty slots, exactly the copies of
  the instructions of its type, in program order.\<close>

theorem pushes_keep_program_order:
  assumes "list_all push_ok ps"
  shows "if list_all2 (\<lambda>p s. snd p = 0 \<or> s + snd p \<le> 1000) ps (spots ps new_queue)
     then \<exists>q. push_all ps new_queue = Inr q \<and> (\<forall>t. issued (slots q t) = copies_of t ps)
     else push_all ps new_queue = Inl IndexError"
  using push_all_outcome [OF new_queue_ok(1) assms] by (auto simp: new_queue_ok(2))

theorem pushes_keep_program_order_witness:
  "\<exists>q. push_all [(''load'', 12), (''matmul'', 12), (''store'', 5)] new_queue = Inr q
     \<and> issued (slots q Memory) = replicate 12 ''load'' @ replicate 5 ''store''"
proof -
  let ?ps = "[(''load'', 12), (''matmul'', 12), (''store'', 5)]"
  have ok: "list_all push_ok ?ps"
    and fits: "list_all2 (\<lambda>p s. snd p = 0 \<or> s + snd p \<le> 1000) ?ps (spots ?ps new_queue)"
    and copies: "copies_of Memory ?ps = replicate 12 ''load'' @ replicate 5 ''store''"
    by code_simp+
  show ?thesis
    using pushes_keep_program_order [OF ok] fits unfolding copies [symmetric] by (simp only: if_True) blast
qed

text \<open>The schedule keeps the latencies: a copy of an instruction is placed at least the latency of
  the previous instruction after the same copy of that instruction, whose result it may need, and
  two instructions of the same type are at least the superscalar width apart, so that their
  copies never share a slot.\<close>

theorem schedule_keeps_latency:
  assumes "m < n" and "n < length ps"
  shows "(n = Suc m \<longrightarrow> spots ps q ! m + LATENCY (get_type (fst (ps ! m))) \<le> spots ps q ! n)
     \<and> (get_type (fst (ps ! m)) = get_type (fst (ps ! n)) \<longrightarrow>
          spots ps q ! m + SUPERSCALAR_WIDTH \<le> spots ps q ! n)"
  using spots_order [of m ps q] spots_apart [OF assms, of q] assms by simp

theorem schedule_keeps_latency_witness:
  "spots [(''matmul'', 12), (''store'', 12)] new_queue ! 0 + 6
     \<le> spots [(''matmul'', 12), (''store'', 12)] new_queue ! 1"
  using schedule_keeps_latency [of 0 1 "[(''matmul'', 12), (''store'', 12)]" new_queue]
  by (simp add: get_type_def del: spots.simps)

lemma issued_take_used:
  assumes "queue_ok N q"
  shows "slots_used t q = length (issued (slots q t))"
proof -
  have "next_spot_in_queue q t \<le> instructions_used q"
    by (cases t) (simp_all add: instructions_used_def)
  then have "issued (take (instructions_used q) (slots q t)) = issued (slots q t)"
    using assms issued_drop_later(2) by (auto simp: queue_ok_def)
  then show ?thesis
    by (simp add: slots_used_def issued_def)
qed

lemma push_all_next_spot:
  "push_all ps q = Inr q' \<Longrightarrow> next_spot_in_queue q' t =
     (case filter (\<lambda>(p, s). get_type (fst p) = t) (rev (zip ps (spots ps q))) of
        [] \<Rightarrow> next_spot_in_queue q t | (p, s) # _ \<Rightarrow> s + SUPERSCALAR_WIDTH)"
proof (induction ps arbitrary: q)
  case (Cons p ps)
  obtain instr c where p: "p = (instr, c)" by (cases p)
  let ?t = "get_type instr"
  obtain xs where "push_all ps ((book ?t q)\<lparr>slots := xs\<rparr>) = Inr q'"
    using Cons.prems by (auto simp: p superscalar_push_eq split: if_splits)
  then have "next_spot_in_queue q' t =
     (case filter (\<lambda>(p, s). get_type (fst p) = t) (rev (zip ps (spots ps (book ?t q)))) of
        [] \<Rightarrow> next_spot_in_queue (book ?t q) t | (p, s) # _ \<Rightarrow> s + SUPERSCALAR_WIDTH)"
    using Cons.IH by (simp add: spots_slots split: list.split)
  then show ?case
    by (auto simp: p spots_Cons book_def [of ?t q] simp del: spots.simps split: list.split)
qed simp

text \<open>The script's own run, eight rounds of load, load, matmul, store over 96 iterations, fits the
  queues: it issues 192 loads, 96 stores and 96 matmuls in 288 positions, so that every slot of
  the memory queue and a third of the processing queue is used.  It prints 288 rows, and the statistics are
  full and one third utilization, four instructions in three cycles, no lost iterations and 114 KB of registers.\<close>

theorem script_run:
  "\<exists>q. push_all control_pushes new_queue = Inr q \<and> instructions_used q = 288
     \<and> slots_used Memory q = 288 \<and> slots_used Processing q = 96
     \<and> length (filter (\<lambda>i. i = ''load'') (slots q Memory)) = 192
     \<and> length (visualization q) = 288
     \<and> show_stats q = \<lparr>memory_utilization = 1, processing_utilization = 1 / 3, instructions_per_cycle = 4 / 3,
          expected_workload_success = 0, regfile_size_kb = 114\<rparr>"
proof -
  have ok: "list_all push_ok control_pushes" by code_simp
  have fits: "list_all2 (\<lambda>p s. snd p = 0 \<or> s + snd p \<le> 1000) control_pushes (spots control_pushes new_queue)"
    by code_simp
  have "\<exists>q. push_all control_pushes new_queue = Inr q \<and> queue_ok 1000 q
      \<and> (\<forall>t. issued (slots q t) = copies_of t control_pushes)"
    using push_all_outcome [OF new_queue_ok(1) ok] fits by (simp add: new_queue_ok(2))
  then obtain q where q: "push_all control_pushes new_queue = Inr q" "queue_ok 1000 q"
    and copies: "\<And>t. issued (slots q t) = copies_of t control_pushes"
    by blast
  have "next_spot_in_queue q Memory = 288" "next_spot_in_queue q Processing = 279"
    unfolding push_all_next_spot [OF q(1)] by code_simp+
  moreover have "length (copies_of Memory control_pushes) = 288"
    "length (copies_of Processing control_pushes) = 96"
    "length (filter (\<lambda>i. i = ''load'') (copies_of Memory control_pushes)) = 192"
    by code_simp+
  moreover have "filter (\<lambda>i. i = ''load'') (slots q Memory)
      = filter (\<lambda>i. i = ''load'') (issued (slots q Memory))"
    by (auto simp: issued_def intro: filter_cong)
  moreover have "length (slots q t) = 1000" for t
    using q(2) by (simp add: queue_ok_def)
  ultimately show ?thesis
    using q by (auto simp: issued_take_used copies instructions_used_def visualization_def Let_def show_stats_def
        SAD_FACTOR_def LOOP_ITER_def SUPERSCALAR_WIDTH_def)
qed

end
