(* ===== verification/RiskMem.thy ===== *)
theory RiskMem
  imports Prelude "HOL-Library.Multiset"
begin

text \<open>
  experiments/risk_mem.py: a simulation of a memory of hashed banks, which counts the cycles a strided
  tile load takes.  The shuffled table \<^verbatim>\<open>lookup\<close> and numpy's \<^verbatim>\<open>log2\<close> are
  parameters; what the script relies on is the locale \<open>hashed_banks\<close>: the table is a permutation,
  and the logarithm of a power of two is exact.
\<close>

section \<open>Model\<close>

definition ELE :: int where
  "ELE = 1024"

definition CNT :: int where
  "CNT = 128"

definition SZ :: int where
  "SZ = 8"

text \<open>The bank and the element of an address; Python's \<^verbatim>\<open>&\<close> on a negative address keeps its
  low bits, and the table has an entry for each of them.\<close>

definition ahash :: "(int \<Rightarrow> nat) \<Rightarrow> int list \<Rightarrow> int \<Rightarrow> int \<times> int" where
  "ahash log2 lookup address =
     (let a = lookup ! nat (and address (ELE * CNT - 1)) in
      (and a (CNT - 1), and (drop_bit (log2 CNT) a) (ELE - 1)))"

text \<open>A \<^verbatim>\<open>Counter\<close>'s values: how often each element occurs.\<close>

definition counter_values :: "'a list \<Rightarrow> nat list" where
  "counter_values xs = map (count_list xs) (remdups xs)"

definition riski_load ::
    "(int \<Rightarrow> nat) \<Rightarrow> int list \<Rightarrow> int \<Rightarrow> int \<Rightarrow> int \<Rightarrow> nat \<Rightarrow> nat \<Rightarrow> nat res" where
  "riski_load log2 lookup address stride_y stride_x len_y len_x =
     (let addrs = concat (map (\<lambda>y. map (\<lambda>x.
                    ahash log2 lookup (address + int y * stride_y + int x * stride_x)) [0..<len_x]) [0..<len_y]);
          banks = map fst (remdups addrs) in
      if banks = [] then Inl ValueError else Inr (fold max (counter_values banks) 0))"

text \<open>The table is made by shuffling the numbers in order; \<^verbatim>\<open>random.shuffle\<close> is a parameter.\<close>

definition lookup_table :: "(int list \<Rightarrow> int list) \<Rightarrow> int list" where
  "lookup_table shuffle = shuffle [0..ELE * CNT - 1]"

text \<open>The main program counts the cycles of loads at random addresses and strides, as many as it gets to
  before the user stops it.  A draw is the three numbers \<^verbatim>\<open>random.randint\<close> returns, and the final
  \<^verbatim>\<open>Counter\<close> is a multiset.\<close>

definition risk_main ::
    "(int \<Rightarrow> nat) \<Rightarrow> (int list \<Rightarrow> int list) \<Rightarrow> (int \<times> int \<times> int) list \<Rightarrow> nat multiset res" where
  "risk_main log2 shuffle draws =
     bind_res (map_res (\<lambda>(address, stride_y, stride_x).
         riski_load log2 (lookup_table shuffle) address stride_y stride_x (nat SZ) (nat SZ)) draws)
       (\<lambda>cnts. Inr (mset cnts))"

section \<open>The hash\<close>

lemma ahash_arith:
  "ahash log2 lookup address =
     (let a = lookup ! nat (address mod 131072) in (a mod 128, (a div 2 ^ log2 128) mod 1024))"
proof -
  have "and x 131071 = x mod 131072" "and x 127 = x mod 128" "and x 1023 = x mod 1024" for x :: int
    using take_bit_eq_mask [of 17 x] take_bit_eq_mask [of 7 x] take_bit_eq_mask [of 10 x]
    by (simp_all add: mask_eq_exp_minus_1 take_bit_eq_mod and.commute)
  then show ?thesis
    by (simp add: ahash_def ELE_def CNT_def drop_bit_eq_div Let_def)
qed

lemma div_128: "(x :: int) < 131072 \<Longrightarrow> x div 128 < 1024"
  by presburger

locale hashed_banks =
  fixes log2 :: "int \<Rightarrow> nat" and lookup :: "int list"
  assumes log2_exact: "log2 128 = 7"
    and lookup_perm: "mset lookup = mset [0..131071]"
begin

lemma lookup_facts: "length lookup = 131072" "distinct lookup" "set lookup = {0..131071}"
proof -
  have "size (mset lookup) = size (mset [0..131071])" using lookup_perm by simp
  then show "length lookup = 131072" by simp
  show "distinct lookup" using lookup_perm distinct_upto mset_eq_imp_distinct_iff by blast
  show "set lookup = {0..131071}" using mset_eq_setD [OF lookup_perm] by simp
qed

lemma lookup_range: "0 \<le> i \<Longrightarrow> i < 131072 \<Longrightarrow> 0 \<le> lookup ! nat i \<and> lookup ! nat i < 131072"
proof -
  assume "0 \<le> i" "i < 131072"
  then have "lookup ! nat i \<in> set lookup" using lookup_facts(1) by (intro nth_mem) simp
  then show ?thesis using lookup_facts(3) by simp
qed

lemma ahash_range: "ahash log2 lookup a \<in> {0..<128} \<times> {0..<1024}"
  by (simp add: ahash_arith Let_def log2_exact)

lemma ahash_inj:
  assumes "ahash log2 lookup a = ahash log2 lookup b"
  shows "a mod 131072 = b mod 131072"
proof -
  let ?x = "lookup ! nat (a mod 131072)" and ?y = "lookup ! nat (b mod 131072)"
  have r: "0 \<le> ?x" "?x < 131072" "0 \<le> ?y" "?y < 131072" using lookup_range by simp_all
  have "?x mod 128 = ?y mod 128" "(?x div 128) mod 1024 = (?y div 128) mod 1024"
    using assms by (simp_all add: ahash_arith Let_def log2_exact)
  moreover have "?x div 128 < 1024" "?y div 128 < 1024" "0 \<le> ?x div 128" "0 \<le> ?y div 128"
    using r div_128 by (simp_all add: div_int_pos_iff)
  ultimately have "?x = ?y"
    by (metis div_mult_mod_eq mod_pos_pos_trivial)
  then have "nat (a mod 131072) = nat (b mod 131072)"
    using lookup_facts by (simp add: nth_eq_iff_index_eq)
  then show ?thesis by simp
qed

end

text \<open>A table that is not shuffled, with the exact logarithm.\<close>

definition std_log2 :: "int \<Rightarrow> nat" where
  "std_log2 n = length (takeWhile (\<lambda>k. 2 ^ k < n) [0..<64])"

definition plain_lookup :: "int list" where
  "plain_lookup = [0..131071]"

interpretation std_banks: hashed_banks std_log2 plain_lookup
proof unfold_locales
  show "std_log2 128 = 7" by (simp add: std_log2_def upt_rec)
  show "mset plain_lookup = mset [0..131071]" unfolding plain_lookup_def ..
qed


section \<open>The loads\<close>

lemma fold_max: "fold max xs (m :: nat) = Max (insert m (set xs))"
  by (simp flip: Max.set_eq_fold)

lemma counter_values_set: "set (counter_values xs) = count_list xs ` set xs"
  by (simp add: counter_values_def)

lemma counter_max:
  assumes "xs \<noteq> []"
  shows "fold max (counter_values xs) 0 = Max (count_list xs ` set xs)"
  using assms by (simp add: fold_max counter_values_set)

lemma length_as_counts: "length xs = (\<Sum>b\<in>set xs. count_list xs b)"
  by (simp add: sum_count_set)

lemma finite_section: "finite C \<Longrightarrow> finite {e. (b, e) \<in> C}"
  using finite_vimageI [of C "Pair b"] by (simp add: vimage_def inj_on_def)

lemma count_fst_distinct:
  assumes "distinct cells"
  shows "count_list (map fst cells) b = card {e. (b, e) \<in> set cells}"
proof -
  have "count_list (map fst cells) b = length (filter (\<lambda>c. fst c = b) cells)"
    by (induction cells) auto
  also have "\<dots> = card (set (filter (\<lambda>c. fst c = b) cells))"
    using assms by (intro distinct_card [symmetric] distinct_filter)
  also have "\<dots> = card {e. (b, e) \<in> set cells}"
    by (rule card_bij_eq [of snd _ _ "Pair b"]) (auto simp: inj_on_def image_iff finite_section)
  finally show ?thesis .
qed

text \<open>The cells a load touches, each once.\<close>

definition load_cells :: "(int \<Rightarrow> nat) \<Rightarrow> int list \<Rightarrow> int \<Rightarrow> int \<Rightarrow> int \<Rightarrow> nat \<Rightarrow> nat \<Rightarrow> (int \<times> int) set" where
  "load_cells log2 lookup address stride_y stride_x len_y len_x =
     (\<lambda>(y, x). ahash log2 lookup (address + int y * stride_y + int x * stride_x)) ` ({..<len_y} \<times> {..<len_x})"

lemma riski_load_eq:
  "riski_load log2 lookup address stride_y stride_x len_y len_x =
     (let cells = load_cells log2 lookup address stride_y stride_x len_y len_x in
      if cells = {} then Inl ValueError
      else Inr (Max ((\<lambda>b. card {e. (b, e) \<in> cells}) ` fst ` cells)))"
proof -
  let ?addrs = "concat (map (\<lambda>y. map (\<lambda>x.
      ahash log2 lookup (address + int y * stride_y + int x * stride_x)) [0..<len_x]) [0..<len_y])"
  have cells: "set ?addrs = load_cells log2 lookup address stride_y stride_x len_y len_x"
    by (auto simp: load_cells_def)
  have "count_list (map fst (remdups ?addrs)) b = card {e. (b, e) \<in> set ?addrs}" for b
    using count_fst_distinct [of "remdups ?addrs" b] by simp
  then have "map fst (remdups ?addrs) \<noteq> [] \<Longrightarrow> fold max (counter_values (map fst (remdups ?addrs))) 0
      = Max ((\<lambda>b. card {e. (b, e) \<in> set ?addrs}) ` fst ` set ?addrs)"
    by (subst counter_max) simp_all
  moreover have "map fst (remdups ?addrs) = [] \<longleftrightarrow> set ?addrs = {}"
    by simp
  ultimately show ?thesis
    unfolding riski_load_def Let_def cells [symmetric] by presburger
qed

text \<open>The busiest bank: no load is faster than the average over the banks, and none is slower than
  the number of its cells or the size of a bank.\<close>

lemma busiest_bank:
  assumes "finite (C :: (int \<times> int) set)" and "C \<noteq> {}" and "C \<subseteq> {0..<128} \<times> {0..<1024}"
  defines "r \<equiv> Max ((\<lambda>b. card {e. (b, e) \<in> C}) ` fst ` C)"
  shows "card C \<le> 128 * r" and "1 \<le> r" and "r \<le> 1024" and "r \<le> card C"
proof -
  let ?f = "\<lambda>b. card {e. (b, e) \<in> C}"
  have fin: "finite (?f ` fst ` C)" "?f ` fst ` C \<noteq> {}" using assms by simp_all
  have fine: "finite {e. (b, e) \<in> C}" for b
    using assms(1) by (rule finite_section)
  have le: "?f b \<le> r" if "b \<in> fst ` C" for b
    using Max_ge [OF fin(1)] that by (auto simp: r_def)
  have bound: "?f b \<le> 1024 \<and> ?f b \<le> card C \<and> (b \<in> fst ` C \<longrightarrow> 1 \<le> ?f b)" for b
  proof -
    have "{e. (b, e) \<in> C} \<subseteq> {0..<1024}" using assms(3) by auto
    then have "?f b \<le> card {0..<1024::int}" by (rule card_mono [rotated]) simp
    moreover have "?f b \<le> card (snd ` C)"
      by (rule card_mono) (use assms(1) in \<open>force+\<close>)
    moreover have "card (snd ` C) \<le> card C" using assms(1) by (rule card_image_le)
    moreover have "b \<in> fst ` C \<longrightarrow> 1 \<le> ?f b"
      using fine [of b] by (auto simp: Suc_le_eq card_gt_0_iff)
    ultimately show ?thesis by auto
  qed
  have "r \<in> ?f ` fst ` C" unfolding r_def using fin by (rule Max_in)
  then show "1 \<le> r" "r \<le> 1024" "r \<le> card C" using bound by auto
  have "C = (SIGMA b : fst ` C. {e. (b, e) \<in> C})" by force
  then have "card C = (\<Sum>b\<in>fst ` C. ?f b)"
    using card_SigmaI [of "fst ` C" "\<lambda>b. {e. (b, e) \<in> C}"] assms(1) fine by auto
  also have "\<dots> \<le> card (fst ` C) * r"
    using le sum_bounded_above [of "fst ` C" ?f r] by simp
  also have "card (fst ` C) \<le> card {0..<128::int}"
    using assms(3) by (intro card_mono) auto
  finally show "card C \<le> 128 * r" by simp
qed

section \<open>Properties\<close>

lemma ahash_periodic: "ahash log2 lookup (a + 131072 * k) = ahash log2 lookup a"
  by (simp add: ahash_arith)

text \<open>The hash spreads the addresses perfectly: the 131072 addresses go one to one onto the 1024
  elements of the 128 banks, and every other address, negative ones too, to the cell of the address
  it is congruent to.\<close>

theorem hash_is_bijective:
  assumes "hashed_banks log2 lookup"
  shows "bij_betw (ahash log2 lookup) {0..<131072} ({0..<128} \<times> {0..<1024})
     \<and> (\<forall>a k. ahash log2 lookup (a + 131072 * k) = ahash log2 lookup a)"
proof -
  have inj: "inj_on (ahash log2 lookup) {0..<131072}"
    by (rule inj_onI) (use hashed_banks.ahash_inj [OF assms] in fastforce)
  have "ahash log2 lookup ` {0..<131072} \<subseteq> {0..<128} \<times> {0..<1024}"
    using hashed_banks.ahash_range [OF assms] by blast
  moreover have "card (ahash log2 lookup ` {0..<131072}) = card ({0..<128::int} \<times> {0..<1024::int})"
    using card_image [OF inj] by (simp add: card_cartesian_product)
  ultimately have "ahash log2 lookup ` {0..<131072} = {0..<128} \<times> {0..<1024}"
    by (intro card_subset_eq) simp_all
  with inj show ?thesis
    by (simp add: bij_betw_def ahash_periodic)
qed

theorem hash_is_bijective_witness:
  "bij_betw (ahash std_log2 plain_lookup) {0..<131072} ({0..<128} \<times> {0..<1024})"
  using hash_is_bijective [OF std_banks.hashed_banks_axioms] by blast

lemma load_bounds:
  assumes "hashed_banks log2 lookup"
  shows "let C = load_cells log2 lookup address stride_y stride_x len_y len_x in
     if len_y = 0 \<or> len_x = 0
     then riski_load log2 lookup address stride_y stride_x len_y len_x = Inl ValueError
     else \<exists>r. riski_load log2 lookup address stride_y stride_x len_y len_x = Inr r
        \<and> (\<forall>b. card {e. (b, e) \<in> C} \<le> r) \<and> (\<exists>b. card {e. (b, e) \<in> C} = r)
        \<and> 1 \<le> r \<and> card C \<le> 128 * r \<and> r \<le> 1024 \<and> r \<le> card C \<and> card C \<le> len_y * len_x"
proof -
  let ?C = "load_cells log2 lookup address stride_y stride_x len_y len_x"
  let ?f = "\<lambda>b. card {e. (b, e) \<in> ?C}"
  have fin: "finite ?C" by (simp add: load_cells_def)
  have empty: "?C = {} \<longleftrightarrow> len_y = 0 \<or> len_x = 0" by (auto simp: load_cells_def)
  show ?thesis
  proof (cases "?C = {}")
    case True
    then show ?thesis using empty by (simp add: riski_load_eq Let_def)
  next
    case False
    have range: "?C \<subseteq> {0..<128} \<times> {0..<1024}"
      using hashed_banks.ahash_range [OF assms] unfolding load_cells_def
      by (intro image_subsetI) (simp only: case_prod_beta)
    have fins: "finite (?f ` fst ` ?C)" "?f ` fst ` ?C \<noteq> {}" using fin False by simp_all
    have "?f b \<le> Max (?f ` fst ` ?C)" for b
    proof (cases "b \<in> fst ` ?C")
      case True
      then show ?thesis using fins(1) by simp
    next
      case False
      then have "{e. (b, e) \<in> ?C} = {}" by force
      then show ?thesis by (simp only: card.empty zero_le)
    qed
    moreover have "\<exists>b. ?f b = Max (?f ` fst ` ?C)"
      using Max_in [OF fins] by (rule imageE) (rule exI, erule sym)
    moreover have "card ?C \<le> len_y * len_x"
      using card_image_le [of "{..<len_y} \<times> {..<len_x}"] unfolding load_cells_def by fastforce
    ultimately show ?thesis
      using busiest_bank [OF fin False range] empty False
      unfolding riski_load_eq Let_def by auto
  qed
qed

text \<open>C40. A load of at least one element takes as many cycles as its busiest bank has cells to read,
  each cell counted once however often the strides come back to it: at least one cycle and at least
  the average over the 128 banks, at most 1024 and at most the number of cells.  A load of no
  elements raises ValueError.\<close>

theorem load_cycles:
  assumes "hashed_banks log2 lookup"
  shows "let C = load_cells log2 lookup address stride_y stride_x len_y len_x in
     if len_y = 0 \<or> len_x = 0
     then riski_load log2 lookup address stride_y stride_x len_y len_x = Inl ValueError
     else \<exists>r. riski_load log2 lookup address stride_y stride_x len_y len_x = Inr r
        \<and> (\<forall>b. card {e. (b, e) \<in> C} \<le> r) \<and> (\<exists>b. card {e. (b, e) \<in> C} = r)
        \<and> 1 \<le> r \<and> card C \<le> 128 * r \<and> r \<le> 1024 \<and> r \<le> card C \<and> card C \<le> len_y * len_x"
  by (rule load_bounds [OF assms])

theorem load_cycles_witness:
  "\<exists>r. riski_load std_log2 plain_lookup 5 8 1 8 8 = Inr r \<and> 1 \<le> r \<and> r \<le> 64"
proof -
  have c: "\<not> ((8::nat) = 0 \<or> (8::nat) = 0)" and e: "(8::nat) * 8 = 64" by simp_all
  obtain r where r: "riski_load std_log2 plain_lookup 5 8 1 8 8 = Inr r" "1 \<le> r"
    "r \<le> card (load_cells std_log2 plain_lookup 5 8 1 8 8)"
    "card (load_cells std_log2 plain_lookup 5 8 1 8 8) \<le> 8 * 8"
    using load_cycles [OF std_banks.hashed_banks_axioms, of 5 8 1 8 8]
    unfolding Let_def if_not_P [OF c] by (elim exE conjE) (rule that)
  have "r \<le> 64" using le_trans [OF r(3,4)] unfolding e .
  with r(1,2) show ?thesis by blast
qed

text \<open>The main program never fails, whatever it draws and whenever it is stopped: it counts one load for
  each draw, each of at least one and at most 64 cycles.\<close>

lemma lookup_table_banks:
  assumes "\<And>xs. mset (shuffle xs) = mset xs" and "log2 128 = 7"
  shows "hashed_banks log2 (lookup_table shuffle)"
  using assms by unfold_locales (simp_all add: lookup_table_def ELE_def CNT_def)

lemma riski_load_tile:
  assumes "hashed_banks log2 lookup"
  shows "\<exists>r. riski_load log2 lookup a sy sx (nat SZ) (nat SZ) = Inr r \<and> 1 \<le> r \<and> r \<le> 64"
proof -
  obtain r where "riski_load log2 lookup a sy sx 8 8 = Inr r" "1 \<le> r"
    "r \<le> card (load_cells log2 lookup a sy sx 8 8)" "card (load_cells log2 lookup a sy sx 8 8) \<le> 8 * 8"
    using load_bounds [OF assms, of a sy sx 8 8] unfolding Let_def by (auto split: if_splits)
  then show ?thesis by (auto simp: SZ_def)
qed

theorem risk_main_counts:
  assumes "\<And>xs. mset (shuffle xs) = mset xs" and "log2 128 = 7"
  shows "\<exists>M. risk_main log2 shuffle draws = Inr M \<and> size M = length draws \<and> (\<forall>r \<in># M. 1 \<le> r \<and> r \<le> 64)"
proof -
  have "hashed_banks log2 (lookup_table shuffle)" using assms by (rule lookup_table_banks)
  note load = riski_load_tile [OF this]
  have "\<exists>cnts. map_res (\<lambda>(address, stride_y, stride_x).
        riski_load log2 (lookup_table shuffle) address stride_y stride_x (nat SZ) (nat SZ)) draws = Inr cnts
      \<and> length cnts = length draws \<and> (\<forall>r \<in> set cnts. 1 \<le> r \<and> r \<le> 64)"
  proof (induction draws)
    case (Cons d draws)
    obtain a sy sx where d: "d = (a, sy, sx)" by (cases d)
    then show ?case using Cons load [of a sy sx] by auto
  qed simp
  then show ?thesis by (auto simp: risk_main_def)
qed

end
