(* ===== verification/Decoder.thy ===== *)
theory Decoder
  imports Prelude
begin

text \<open>
  The decoder of the control unit (core/ControlUnit/control_unit.sv, loopmux.sv): how the
  hardware splits a 16-bit instruction word, how it looks a loop up in the program's loop
  read-only data, how it splits the address-unit part of the program header, and how it keeps
  the address registers up to date.  A SystemVerilog vector \<^verbatim>\<open>[0:n]\<close> is a bit list
  indexed from its most significant bit; an 18-bit register is an 18-bit word.
\<close>

type_synonym u18 = "18 word"

text \<open>The ascending part select \<^verbatim>\<open>v[a:b]\<close> and the indexed one \<^verbatim>\<open>v[a +: w]\<close>.\<close>

definition slice :: "nat \<Rightarrow> nat \<Rightarrow> bits \<Rightarrow> bits" where
  "slice a b v = take (Suc b - a) (drop a v)"

definition part :: "nat \<Rightarrow> nat \<Rightarrow> bits \<Rightarrow> bits" where
  "part a w v = take w (drop a v)"

datatype instr_type =
    INSTR_TYPE_LOAD_STORE | INSTR_TYPE_RAM | INSTR_TYPE_ARITHMETIC | INSTR_TYPE_LOOP

text \<open>In the instruction queue the fourth type is the end of a program (types.sv).\<close>

abbreviation INSTR_TYPE_PROG_END :: instr_type where
  "INSTR_TYPE_PROG_END \<equiv> INSTR_TYPE_LOOP"

definition instruction_type :: "bits \<Rightarrow> instr_type" where
  "instruction_type raw =
     (if bits_uint (slice 0 1 raw) = 0 then INSTR_TYPE_LOAD_STORE
      else if bits_uint (slice 0 1 raw) = 1 then INSTR_TYPE_RAM
      else if bits_uint (slice 0 1 raw) = 2 then INSTR_TYPE_ARITHMETIC
      else INSTR_TYPE_LOOP)"

text \<open>\<^verbatim>\<open>decoded_loop_instruction\<close> of types.sv and the module \<^verbatim>\<open>loopmux\<close>.\<close>

record decoded_loop_instruction =
  is_new_loop :: bool
  iteration_count :: int
  jump_amount :: int
  is_independent :: bool
  loop_name :: int

definition loopmux :: "int \<Rightarrow> bits \<Rightarrow> bool \<Rightarrow> bool \<Rightarrow> decoded_loop_instruction" where
  "loopmux addr ro independent new_loop =
     (let out = part (nat addr * 24) 24 ro in
      \<lparr>is_new_loop = new_loop,
       iteration_count = bits_uint (take 18 out),
       jump_amount = bits_uint (drop 18 out),
       is_independent = independent,
       loop_name = addr\<rparr>)"

text \<open>
  What the control unit hands on for each kind of instruction: the load/store word (is load,
  address unit, cache slot, register, zero flag, skip flag), the ram word (is write, cache
  address unit, main memory address unit, cache slot), the arithmetic word (category and
  options, as the instruction queue and types.sv split its nine bits), or a loop.
\<close>

datatype decoded =
    DLoadStore bool int int int bool bool
  | DRam bool int int int
  | DArith int bits
  | DLoop decoded_loop_instruction

definition decode :: "bits \<Rightarrow> bits \<Rightarrow> decoded" where
  "decode loop_ro_data raw =
     (let arith_instr = slice 2 10 raw;
          ram_instr = slice 2 10 raw;
          ld_st_instr = slice 2 11 raw in
      case instruction_type raw of
        INSTR_TYPE_LOAD_STORE \<Rightarrow>
          DLoadStore (ld_st_instr ! 0) (bits_uint (slice 1 3 ld_st_instr))
            (bits_uint (slice 4 5 ld_st_instr)) (bits_uint (slice 6 7 ld_st_instr))
            (ld_st_instr ! 8) (ld_st_instr ! 9)
      | INSTR_TYPE_RAM \<Rightarrow>
          DRam (ram_instr ! 0) (bits_uint (slice 1 3 ram_instr))
            (bits_uint (slice 4 6 ram_instr)) (bits_uint (slice 7 8 ram_instr))
      | INSTR_TYPE_ARITHMETIC \<Rightarrow>
          DArith (bits_uint (slice 0 2 arith_instr)) (slice 3 8 arith_instr)
      | INSTR_TYPE_LOOP \<Rightarrow>
          DLoop (loopmux (bits_uint (slice 4 6 raw)) loop_ro_data (raw ! 2) (raw ! 3)))"

lemmas slice_simps = slice_def part_def

section \<open>Address units\<close>

text \<open>
  The states \<^verbatim>\<open>PREPARE_PROGRAM_1\<close> and \<^verbatim>\<open>PREPARE_PROGRAM_2\<close> each load four
  formulas from one 648-bit read of the read-only data: the constant becomes the start value of
  the address register, the eight coefficients stay in \<^verbatim>\<open>apu_linear_formulas\<close>.
  \<open>ro_apu h r\<close> is read \<open>r\<close> of the header \<open>h\<close>, whose first 192 bits are the loop data.
\<close>

definition ro_loops :: "bits \<Rightarrow> bits" where
  "ro_loops h = part 0 (24 * 8) h"

definition ro_apu :: "bits \<Rightarrow> nat \<Rightarrow> bits" where
  "ro_apu h r = part (24 * 8 + r * (4 * 9 * 18)) (4 * 9 * 18) h"

definition load_address :: "nat \<Rightarrow> bits \<Rightarrow> u18" where
  "load_address i prog_apu_formula =
     word_of_int (bits_uint (part (i * 9 * 18 + 8 * 18) 18 prog_apu_formula))"

definition load_linear :: "nat \<Rightarrow> bits \<Rightarrow> bits" where
  "load_linear i prog_apu_formula = part (i * 9 * 18) (8 * 18) prog_apu_formula"

definition apu_address_registers :: "bits \<Rightarrow> u18 list" where
  "apu_address_registers h =
     map (\<lambda>i. load_address i (ro_apu h 0)) [0..<4] @ map (\<lambda>i. load_address i (ro_apu h 1)) [0..<4]"

definition apu_linear_formulas :: "bits \<Rightarrow> bits list" where
  "apu_linear_formulas h =
     map (\<lambda>i. load_linear i (ro_apu h 0)) [0..<4] @ map (\<lambda>i. load_linear i (ro_apu h 1)) [0..<4]"

definition daddr_di :: "bits \<Rightarrow> nat \<Rightarrow> u18" where
  "daddr_di linear_formula loop_var =
     word_of_int (bits_uint (part (loop_var * 18) 18 linear_formula))"

text \<open>The state \<^verbatim>\<open>UPDATE_APU\<close>: every register moves by \<^verbatim>\<open>apu_in_di\<close> times its
  coefficient for the loop variable \<^verbatim>\<open>apu_in_loop_var\<close>.\<close>

definition update_apu :: "bits list \<Rightarrow> nat \<Rightarrow> u18 \<Rightarrow> u18 list \<Rightarrow> u18 list" where
  "update_apu linear_formulas loop_var di regs =
     map2 (\<lambda>r f. r + di * daddr_di f loop_var) regs linear_formulas"

fun update_apus :: "bits list \<Rightarrow> (nat \<times> u18) list \<Rightarrow> u18 list \<Rightarrow> u18 list" where
  "update_apus fs [] regs = regs"
| "update_apus fs ((v, di) # us) regs = update_apus fs us (update_apu fs v di regs)"

text \<open>How far a loop variable has moved in a sequence of updates.\<close>

definition moved :: "(nat \<times> u18) list \<Rightarrow> nat \<Rightarrow> u18" where
  "moved us v = sum_list (map snd (filter (\<lambda>u. fst u = v) us))"

lemma length_update_apu [simp]:
  "length regs = length fs \<Longrightarrow> length (update_apu fs v di regs) = length fs"
  by (simp add: update_apu_def)

lemma moved_Cons: "moved ((u, di) # us) v = (if u = v then di else 0) + moved us v"
  by (simp add: moved_def)

lemma sum_list_one:
  "u < n \<Longrightarrow> (\<Sum>v\<leftarrow>[0..<n]. (if u = v then di else 0) * f v) = (di * f u :: u18)"
proof (induction n)
  case 0
  then show ?case by simp
next
  case (Suc n)
  have "m \<le> n \<Longrightarrow> (\<Sum>v\<leftarrow>[0..<m]. (if n = v then di else 0) * f v) = 0" for m
    by (induction m) auto
  from this [of n] have "(\<Sum>v\<leftarrow>[0..<n]. (if n = v then di else 0) * f v) = 0"
    by simp
  with Suc show ?case by (cases "u = n") auto
qed

text \<open>The incremental registers hold a linear function of the loop variables.\<close>

lemma update_apus_nth:
  assumes "length regs = length fs" and "k < length fs" and "\<forall>u\<in>set us. fst u < 8"
  shows "update_apus fs us regs ! k =
           regs ! k + (\<Sum>v\<leftarrow>[0..<8]. moved us v * daddr_di (fs ! k) v)"
  using assms
proof (induction us arbitrary: regs)
  case Nil
  show ?case by (simp add: moved_def)
next
  case (Cons u us)
  obtain x di where u: "u = (x, di)" by (cases u)
  with Cons.prems have x: "x < 8" by simp
  have "update_apus fs (u # us) regs ! k =
          regs ! k + di * daddr_di (fs ! k) x + (\<Sum>v\<leftarrow>[0..<8]. moved us v * daddr_di (fs ! k) v)"
    using Cons u by (simp add: update_apu_def)
  also have "di * daddr_di (fs ! k) x =
      (\<Sum>v\<leftarrow>[0..<8]. (if x = v then di else 0) * daddr_di (fs ! k) v)"
    using sum_list_one [OF x, of di "daddr_di (fs ! k)"] by simp
  finally show ?case
    by (simp add: u moved_Cons distrib_right sum_list_addf add.assoc del: upt.simps upt_rec_numeral)
qed


lemma part_part: "a + w \<le> w' \<Longrightarrow> part a w (part b w' v) = part (a + b) w v"
  by (simp add: part_def drop_take min_def add.commute)

text \<open>The registers and formulas of a header cut into 162-bit pieces.\<close>

lemma apu_registers_nth:
  assumes "k < 8"
  shows "apu_address_registers h ! k = word_of_int (bits_uint (part (192 + k * 162 + 144) 18 h))"
    and "apu_linear_formulas h ! k = part (192 + k * 162) 144 h"
proof -
  have "k < 4 \<or> (4 \<le> k \<and> k - 4 < 4 \<and> k = k - 4 + 4)" using assms by auto
  then show "apu_address_registers h ! k = word_of_int (bits_uint (part (192 + k * 162 + 144) 18 h))"
    and "apu_linear_formulas h ! k = part (192 + k * 162) 144 h"
    using assms by (auto simp: apu_address_registers_def apu_linear_formulas_def nth_append
        load_address_def load_linear_def ro_apu_def part_part algebra_simps
        simp del: upt.simps upt_rec_numeral)
qed

lemma length_apu_registers [simp]:
  "length (apu_address_registers h) = 8" "length (apu_linear_formulas h) = 8"
  by (simp_all add: apu_address_registers_def apu_linear_formulas_def)

end
