(* ===== verification/ControlUnit.thy ===== *)
theory ControlUnit
  imports Decoder
begin

text \<open>
  The control unit (core/ControlUnit/control_unit.sv) as a clocked state machine: it takes a program
  from the execution queue, loads its header, and runs its loops, pushing every other
  instruction to the instruction queue with its copy count and addresses.  \<open>cu_clk E W stall s\<close> is
  one edge of the clock; right-hand sides read the registers before the edge.  The caches are the
  combinational functions of \<open>E\<close>, \<open>W\<close> is \<^verbatim>\<open>SUPERSCALAR_WIDTH\<close>.
\<close>

section \<open>Registers\<close>

datatype cu_state =
    IDLE | PREPARE_PROGRAM_0 | PREPARE_PROGRAM_1 | PREPARE_PROGRAM_2 | DECODE | START_NEW_LOOP
  | INCREMENT_LOOP | UPDATE_APU | INSERT_TO_QUEUE | UPDATE_PC | FINISH_PROGRAM_1 | FINISH_PROGRAM_2

text \<open>The inputs: the head of the execution queue and the caches.\<close>

record env =
  execution_queue_not_empty :: bool
  execution_queue_start_pc :: "16 word"
  execution_queue_end_pc :: "16 word"
  execution_queue_start_ro_data_addr :: "4 word"
  icache :: "16 word \<Rightarrow> bits"
  prog_apu_formula :: "4 word \<Rightarrow> bits"
  prog_loop_ro_data :: "4 word \<Rightarrow> bits"

record cu =
  S :: cu_state
  execution_queue_read_enable :: bool
  pc :: "16 word"
  ro_data_addr :: "4 word"
  program_end_pc :: "16 word"
  loop_ro_data :: bits
  loop_cur_depth :: "4 word"
  loop_stack_value :: "u18 list"
  loop_stack_total_iterations :: "u18 list"
  loop_stack_jump_amount :: "6 word list"
  loop_stack_is_independent :: "bool list"
  loop_stack_name :: "3 word list"
  jump_amount :: "6 word"
  apu_in_loop_var :: "3 word"
  apu_in_di :: u18
  apu_linear_formulas :: "bits list"
  apu_address_registers :: "u18 list"
  program_error :: bool
  queue_we :: bool
  queue_instr_type :: instr_type
  queue_copy_count :: u18
  queue_arith_instr :: bits
  queue_ram_instr :: bits
  queue_ld_st_instr :: bits
  cache_addr :: u18
  main_mem_addr :: u18
  d_cache_addr :: u18
  d_main_mem_addr :: u18

text \<open>The state after \<^verbatim>\<open>reset\<close>.  Registers that \<^verbatim>\<open>reset\<close> leaves alone are those of
  the state before it; 8 is the number of loops and of address units.\<close>

definition cu_reset :: "cu \<Rightarrow> cu" where
  "cu_reset s =
     s\<lparr>program_error := False, S := IDLE, pc := 0, program_end_pc := 0, ro_data_addr := 0,
       loop_ro_data := replicate 192 False, execution_queue_read_enable := False,
       loop_cur_depth := - 1, loop_stack_value := replicate 8 0,
       loop_stack_total_iterations := replicate 8 0, loop_stack_jump_amount := replicate 8 0,
       loop_stack_name := replicate 8 0, jump_amount := 0, apu_in_loop_var := 0, apu_in_di := 0,
       apu_address_registers := replicate 8 0, apu_linear_formulas := replicate 8 (replicate 144 False),
       queue_we := False, queue_instr_type := INSTR_TYPE_LOAD_STORE, queue_copy_count := 0\<rparr>"

section \<open>One clock\<close>

text \<open>\<^verbatim>\<open>LOOP_CUR_DEPTH\<close> is the low three bits of the depth, and the successor is a
  three-bit wire.\<close>

definition LOOP_CUR_DEPTH :: "cu \<Rightarrow> nat" where
  "LOOP_CUR_DEPTH s = unat (ucast (loop_cur_depth s) :: 3 word)"

definition loop_cur_depth_plus_one :: "cu \<Rightarrow> 3 word" where
  "loop_cur_depth_plus_one s = ucast (loop_cur_depth s + 1)"

definition loop_cur_remaining_iterations :: "cu \<Rightarrow> u18" where
  "loop_cur_remaining_iterations s =
     loop_stack_total_iterations s ! LOOP_CUR_DEPTH s - loop_stack_value s ! LOOP_CUR_DEPTH s"

definition cu_independent :: "cu \<Rightarrow> bool" where
  "cu_independent s = loop_stack_is_independent s ! LOOP_CUR_DEPTH s"

text \<open>\<open>last_chunk\<close>: the remaining iterations fit one chunk of \<open>W\<close>.\<close>

definition last_chunk :: "u18 \<Rightarrow> cu \<Rightarrow> bool" where
  "last_chunk W s \<longleftrightarrow> loop_cur_remaining_iterations s \<le> W"

definition prepare_program_0 :: "env \<Rightarrow> cu \<Rightarrow> cu" where
  "prepare_program_0 E s =
     s\<lparr>S := PREPARE_PROGRAM_1, ro_data_addr := execution_queue_start_ro_data_addr E,
       pc := execution_queue_start_pc E, program_end_pc := execution_queue_end_pc E\<rparr>"

definition prepare_program_1 :: "env \<Rightarrow> cu \<Rightarrow> cu" where
  "prepare_program_1 E s =
     (let f = prog_apu_formula E (ro_data_addr s) in
      s\<lparr>ro_data_addr := ro_data_addr s + 1, S := PREPARE_PROGRAM_2,
        apu_address_registers := map (\<lambda>i. load_address i f) [0..<4] @ drop 4 (apu_address_registers s),
        apu_linear_formulas := map (\<lambda>i. load_linear i f) [0..<4] @ drop 4 (apu_linear_formulas s),
        loop_ro_data := prog_loop_ro_data E (ro_data_addr s)\<rparr>)"

definition prepare_program_2 :: "env \<Rightarrow> cu \<Rightarrow> cu" where
  "prepare_program_2 E s =
     (let f = prog_apu_formula E (ro_data_addr s) in
      s\<lparr>S := DECODE,
        apu_address_registers := take 4 (apu_address_registers s) @ map (\<lambda>i. load_address i f) [0..<4],
        apu_linear_formulas := take 4 (apu_linear_formulas s) @ map (\<lambda>i. load_linear i f) [0..<4]\<rparr>)"

definition decode_step :: "env \<Rightarrow> cu \<Rightarrow> cu" where
  "decode_step E s =
     (let raw = icache E (pc s) in
      s\<lparr>S := (case instruction_type raw of
                INSTR_TYPE_LOOP \<Rightarrow> if raw ! 3 then START_NEW_LOOP else INCREMENT_LOOP
              | _ \<Rightarrow> INSERT_TO_QUEUE)\<rparr>)"

definition loop_instr :: "env \<Rightarrow> cu \<Rightarrow> decoded_loop_instruction" where
  "loop_instr E s =
     (let raw = icache E (pc s) in
      loopmux (bits_uint (slice 4 6 raw)) (loop_ro_data s) (raw ! 2) (raw ! 3))"

text \<open>\<^verbatim>\<open>max_loops\<close> is a signed comparison: it holds for a depth below -1 only.\<close>

definition start_new_loop :: "env \<Rightarrow> cu \<Rightarrow> cu" where
  "start_new_loop E s =
     (let d = unat (loop_cur_depth_plus_one s); l = loop_instr E s in
      s\<lparr>program_error := (sint (loop_cur_depth s) + 1 < 0 \<or> program_error s),
        loop_stack_value := (loop_stack_value s)[d := 0],
        loop_cur_depth := ucast (loop_cur_depth_plus_one s),
        loop_stack_is_independent := (loop_stack_is_independent s)[d := is_independent l],
        loop_stack_jump_amount := (loop_stack_jump_amount s)[d := word_of_int (Decoder.jump_amount l)],
        loop_stack_total_iterations := (loop_stack_total_iterations s)[d := word_of_int (iteration_count l)],
        loop_stack_name := (loop_stack_name s)[d := word_of_int (loop_name l)],
        S := UPDATE_APU\<rparr>)"

definition increment_loop :: "u18 \<Rightarrow> cu \<Rightarrow> cu" where
  "increment_loop W s =
     (let d = LOOP_CUR_DEPTH s;
          remaining = loop_cur_remaining_iterations s;
          total = loop_stack_total_iterations s ! d;
          s1 = s\<lparr>loop_stack_value := (loop_stack_value s)[d := loop_stack_value s ! d +
                   (if cu_independent s then (if last_chunk W s then remaining else W) else 1)],
                 apu_in_loop_var := loop_stack_name s ! d,
                 S := UPDATE_APU\<rparr> in
      if cu_independent s \<and> last_chunk W s
      then s1\<lparr>apu_in_di := - total, loop_cur_depth := loop_cur_depth s - 1\<rparr>
      else if remaining = 1
      then s1\<lparr>apu_in_di := - total, loop_cur_depth := loop_cur_depth s - 1\<rparr>
      else s1\<lparr>apu_in_di := (if cu_independent s then W else 1),
              jump_amount := loop_stack_jump_amount s ! d\<rparr>)"

definition update_apu_step :: "cu \<Rightarrow> cu" where
  "update_apu_step s =
     s\<lparr>apu_address_registers :=
         update_apu (apu_linear_formulas s) (unat (apu_in_loop_var s)) (apu_in_di s) (apu_address_registers s),
       S := UPDATE_PC\<rparr>"

definition insert_to_queue :: "env \<Rightarrow> u18 \<Rightarrow> cu \<Rightarrow> cu" where
  "insert_to_queue E W s =
     (let raw = icache E (pc s); ld_st = slice 2 11 raw; ram = slice 2 10 raw;
          unit = (\<lambda>a b v. nat (bits_uint (slice a b v)));
          s1 = s\<lparr>S := UPDATE_PC, queue_we := True,
                 queue_instr_type := instruction_type raw,
                 queue_copy_count := (if cu_independent s
                   then (if last_chunk W s then loop_cur_remaining_iterations s else W) else 1),
                 queue_arith_instr := slice 2 10 raw,
                 queue_ram_instr := ram ! 0 # slice 7 8 ram,
                 queue_ld_st_instr := ld_st ! 0 # slice 4 9 ld_st\<rparr> in
      case instruction_type raw of
        INSTR_TYPE_LOAD_STORE \<Rightarrow>
          s1\<lparr>cache_addr := apu_address_registers s ! unit 1 3 ld_st,
             d_cache_addr := daddr_di (apu_linear_formulas s ! unit 1 3 ld_st) (LOOP_CUR_DEPTH s)\<rparr>
      | INSTR_TYPE_RAM \<Rightarrow>
          s1\<lparr>cache_addr := apu_address_registers s ! unit 1 3 ram,
             main_mem_addr := apu_address_registers s ! unit 4 6 ram,
             d_cache_addr := daddr_di (apu_linear_formulas s ! unit 1 3 ram) (LOOP_CUR_DEPTH s),
             d_main_mem_addr := daddr_di (apu_linear_formulas s ! unit 4 6 ram) (LOOP_CUR_DEPTH s)\<rparr>
      | _ \<Rightarrow> s1)"

text \<open>The next address is computed on 32 bits and compared without sign, then cut to 16 bits.\<close>

definition update_pc :: "cu \<Rightarrow> cu" where
  "update_pc s =
     (let next_pc = uint (pc s) + 1 - uint (jump_amount s) in
      s\<lparr>queue_we := False, pc := word_of_int next_pc, jump_amount := 0,
        S := (if uint (program_end_pc s) \<le> next_pc mod 2 ^ 32 then FINISH_PROGRAM_1 else DECODE)\<rparr>)"

definition cu_step :: "env \<Rightarrow> u18 \<Rightarrow> bool \<Rightarrow> cu \<Rightarrow> cu" where
  "cu_step E W stall s =
     (case S s of
        IDLE \<Rightarrow> if execution_queue_not_empty E
          then s\<lparr>S := PREPARE_PROGRAM_0, execution_queue_read_enable := True\<rparr> else s
      | PREPARE_PROGRAM_0 \<Rightarrow> prepare_program_0 E s
      | PREPARE_PROGRAM_1 \<Rightarrow> prepare_program_1 E s
      | PREPARE_PROGRAM_2 \<Rightarrow> prepare_program_2 E s
      | DECODE \<Rightarrow> decode_step E s
      | START_NEW_LOOP \<Rightarrow> start_new_loop E s
      | INCREMENT_LOOP \<Rightarrow> increment_loop W s
      | UPDATE_APU \<Rightarrow> update_apu_step s
      | INSERT_TO_QUEUE \<Rightarrow> if stall then s else insert_to_queue E W s
      | UPDATE_PC \<Rightarrow> update_pc s
      | FINISH_PROGRAM_1 \<Rightarrow> if stall then s
          else s\<lparr>queue_we := True, queue_instr_type := INSTR_TYPE_PROG_END, S := FINISH_PROGRAM_2\<rparr>
      | FINISH_PROGRAM_2 \<Rightarrow> s\<lparr>queue_we := False\<rparr>)"

definition cu_clk :: "env \<Rightarrow> u18 \<Rightarrow> bool \<Rightarrow> cu \<Rightarrow> cu" where
  "cu_clk E W stall s = cu_step E W stall (s\<lparr>execution_queue_read_enable := False\<rparr>)"

text \<open>What the instruction queue is pushed while \<^verbatim>\<open>queue_we\<close> is set.\<close>

datatype push =
    PushLoadStore u18 bits u18 u18
  | PushRam u18 bits u18 u18 u18 u18
  | PushArith u18 bits
  | PushProgEnd

definition pushed :: "cu \<Rightarrow> push list" where
  "pushed s =
     (if queue_we s then
        [case queue_instr_type s of
           INSTR_TYPE_LOAD_STORE \<Rightarrow> PushLoadStore (queue_copy_count s) (queue_ld_st_instr s) (cache_addr s) (d_cache_addr s)
         | INSTR_TYPE_RAM \<Rightarrow> PushRam (queue_copy_count s) (queue_ram_instr s) (cache_addr s) (d_cache_addr s)
                      (main_mem_addr s) (d_main_mem_addr s)
         | INSTR_TYPE_ARITHMETIC \<Rightarrow> PushArith (queue_copy_count s) (queue_arith_instr s)
         | INSTR_TYPE_PROG_END \<Rightarrow> PushProgEnd]
      else [])"

fun cu_run :: "env \<Rightarrow> u18 \<Rightarrow> bool list \<Rightarrow> cu \<Rightarrow> push list \<times> cu" where
  "cu_run E W [] s = ([], s)"
| "cu_run E W (stall # stalls) s =
     (let s1 = cu_clk E W stall s in (pushed s1 @ fst (cu_run E W stalls s1), snd (cu_run E W stalls s1)))"

section \<open>Stalls\<close>

text \<open>The write strobe is up in two states only, so that a stalled push is not seen twice.\<close>

definition strobe_ok :: "cu \<Rightarrow> bool" where
  "strobe_ok s \<longleftrightarrow> (queue_we s \<longrightarrow> S s = UPDATE_PC \<or> S s = FINISH_PROGRAM_2)"

lemmas cu_steps =
  prepare_program_0_def prepare_program_1_def prepare_program_2_def decode_step_def start_new_loop_def
  increment_loop_def update_apu_step_def insert_to_queue_def update_pc_def

lemma strobe_ok_clk: "strobe_ok s \<Longrightarrow> strobe_ok (cu_clk E W stall s)"
  by (cases "S s") (auto simp: strobe_ok_def cu_clk_def cu_step_def cu_steps Let_def
      split: option.split instr_type.split)

definition quiet :: "cu \<Rightarrow> cu" where
  "quiet s = s\<lparr>execution_queue_read_enable := False\<rparr>"

lemma cu_clk_quiet: "cu_clk E W stall (quiet s) = cu_clk E W stall s"
  by (simp add: cu_clk_def quiet_def)

lemma S_quiet: "S (quiet s) = S s"
  by (simp add: quiet_def)

lemma cu_run_quiet:
  "fst (cu_run E W stalls (quiet s)) = fst (cu_run E W stalls s)
   \<and> S (snd (cu_run E W stalls (quiet s))) = S (snd (cu_run E W stalls s))"
  by (cases stalls) (simp_all add: cu_clk_quiet S_quiet Let_def)

lemma cu_run_append:
  "fst (cu_run E W (xs @ ys) s) = fst (cu_run E W xs s) @ fst (cu_run E W ys (snd (cu_run E W xs s)))"
  "snd (cu_run E W (xs @ ys) s) = snd (cu_run E W ys (snd (cu_run E W xs s)))"
  by (induction xs arbitrary: s) (simp_all add: Let_def)

text \<open>A stalled clock either does what a clock without a stall does, or nothing.\<close>

lemma stalled_clock:
  assumes "strobe_ok s"
  shows "cu_clk E W True s = cu_clk E W False s \<or> cu_clk E W True s = quiet s \<and> pushed (quiet s) = []"
proof (cases "S s = INSERT_TO_QUEUE \<or> S s = FINISH_PROGRAM_1")
  case True
  then have "cu_clk E W True s = quiet s" by (auto simp: cu_clk_def cu_step_def quiet_def)
  moreover have "pushed (quiet s) = []"
    using True assms by (auto simp: strobe_ok_def quiet_def pushed_def)
  ultimately show ?thesis by blast
next
  case False
  then show ?thesis by (cases "S s") (simp_all add: cu_clk_def cu_step_def)
qed

text \<open>So a run with stalls is a run without them, of as many clocks as were not stalled or more.\<close>

lemma run_with_stalls:
  "strobe_ok s \<Longrightarrow> \<exists>k. length (filter Not stalls) \<le> k \<and> k \<le> length stalls
     \<and> fst (cu_run E W stalls s) = fst (cu_run E W (replicate k False) s)
     \<and> S (snd (cu_run E W stalls s)) = S (snd (cu_run E W (replicate k False) s))"
proof (induction stalls arbitrary: s)
  case (Cons stall stalls)
  have "cu_clk E W stall s = cu_clk E W False s
      \<or> stall \<and> cu_clk E W stall s = quiet s \<and> pushed (quiet s) = []"
    using stalled_clock [OF Cons.prems] by (cases stall) auto
  then show ?case
  proof
    assume same: "cu_clk E W stall s = cu_clk E W False s"
    obtain k where k: "length (filter Not stalls) \<le> k" "k \<le> length stalls"
      "fst (cu_run E W stalls (cu_clk E W False s)) = fst (cu_run E W (replicate k False) (cu_clk E W False s))"
      "S (snd (cu_run E W stalls (cu_clk E W False s))) = S (snd (cu_run E W (replicate k False) (cu_clk E W False s)))"
      using Cons.IH [OF strobe_ok_clk [OF Cons.prems]] by blast
    then show ?thesis
      by (intro exI [of _ "Suc k"]) (simp add: same Let_def)
  next
    assume waits: "stall \<and> cu_clk E W stall s = quiet s \<and> pushed (quiet s) = []"
    have "strobe_ok (quiet s)" using Cons.prems by (simp add: strobe_ok_def quiet_def)
    then obtain k where "length (filter Not stalls) \<le> k" "k \<le> length stalls"
      "fst (cu_run E W stalls (quiet s)) = fst (cu_run E W (replicate k False) (quiet s))"
      "S (snd (cu_run E W stalls (quiet s))) = S (snd (cu_run E W (replicate k False) (quiet s)))"
      using Cons.IH by blast
    moreover have "stall = True" "cu_clk E W True s = quiet s" "pushed (quiet s) = []"
      using waits by auto
    ultimately show ?thesis
      by (intro exI [of _ k]) (simp add: cu_run_quiet Let_def)
  qed
qed simp

text \<open>A finished control unit stays finished.\<close>

lemma finished_stays:
  "S s = FINISH_PROGRAM_2 \<Longrightarrow> fst (cu_run E W stalls s) = [] \<and> S (snd (cu_run E W stalls s)) = FINISH_PROGRAM_2"
proof (induction stalls arbitrary: s)
  case (Cons stall stalls)
  have "S (cu_clk E W stall s) = FINISH_PROGRAM_2" "pushed (cu_clk E W stall s) = []"
    using Cons.prems by (simp_all add: cu_clk_def cu_step_def pushed_def)
  then show ?case using Cons.IH by (simp add: Let_def)
qed simp

end
