(* ===== verification/ControlLoop.thy ===== *)
theory ControlLoop
  imports ControlUnit
begin

text \<open>
  The runs of the control unit on a program that is one loop, the shape of both relu programs: a
  loop start, \<open>m\<close> other instructions and a loop end.  One instruction of the body is three
  clocks, one loop instruction four; from these the pushes of the whole program are computed for
  every iteration count, body and pattern of stalls.
\<close>

section \<open>A program of one loop\<close>

text \<open>At address \<open>a\<close> a loop start, then \<open>m\<close> instructions that are no loops, then the loop end; the
  loop has number \<open>j\<close>.\<close>

definition loop_code :: "env \<Rightarrow> nat \<Rightarrow> nat \<Rightarrow> bool \<Rightarrow> nat \<Rightarrow> bool" where
  "loop_code E a m ind j \<longleftrightarrow> a + m + 2 < 65536 \<and> m + 1 < 64 \<and> j < 8
     \<and> (let w = icache E (of_nat a) in instruction_type w = INSTR_TYPE_LOOP \<and> w ! 3 \<and> w ! 2 = ind
          \<and> bits_uint (slice 4 6 w) = int j)
     \<and> list_all (\<lambda>k. instruction_type (icache E (of_nat (a + 1 + k))) \<noteq> INSTR_TYPE_LOOP) [0..<m]
     \<and> (let w = icache E (of_nat (a + 1 + m)) in instruction_type w = INSTR_TYPE_LOOP \<and> \<not> w ! 3)"

text \<open>The address registers with the loop variable at \<open>v\<close>, started from \<open>R\<close>.\<close>

definition shifted :: "bits list \<Rightarrow> nat \<Rightarrow> nat \<Rightarrow> u18 list \<Rightarrow> u18 list" where
  "shifted F j v R = map2 (\<lambda>r f. r + of_nat v * daddr_di f j) R F"

definition at_body ::
    "nat \<Rightarrow> nat \<Rightarrow> bool \<Rightarrow> nat \<Rightarrow> nat \<Rightarrow> bits list \<Rightarrow> u18 list \<Rightarrow> nat \<Rightarrow> nat \<Rightarrow> cu \<Rightarrow> bool" where
  "at_body a m ind j n F R k v s \<longleftrightarrow>
     S s = DECODE \<and> \<not> queue_we s \<and> pc s = of_nat (a + 1 + k) \<and> program_end_pc s = of_nat (a + m + 2)
     \<and> jump_amount s = 0 \<and> loop_cur_depth s = 0
     \<and> loop_stack_value s \<noteq> [] \<and> loop_stack_value s ! 0 = of_nat v
     \<and> loop_stack_total_iterations s ! 0 = of_nat n \<and> loop_stack_is_independent s ! 0 = ind
     \<and> loop_stack_jump_amount s ! 0 = of_nat (m + 1) \<and> loop_stack_name s ! 0 = of_nat j
     \<and> apu_linear_formulas s = F \<and> apu_address_registers s = shifted F j v R"

text \<open>What an instruction of the body pushes, with \<open>c\<close> copies.\<close>

definition body_push :: "bits list \<Rightarrow> u18 list \<Rightarrow> u18 \<Rightarrow> bits \<Rightarrow> push" where
  "body_push F regs c raw =
     (let ld_st = slice 2 11 raw; ram = slice 2 10 raw; unit = (\<lambda>a b v. nat (bits_uint (slice a b v))) in
      case instruction_type raw of
        INSTR_TYPE_LOAD_STORE \<Rightarrow>
          PushLoadStore c (ld_st ! 0 # slice 4 9 ld_st) (regs ! unit 1 3 ld_st)
            (daddr_di (F ! unit 1 3 ld_st) 0)
      | INSTR_TYPE_RAM \<Rightarrow>
          PushRam c (ram ! 0 # slice 7 8 ram) (regs ! unit 1 3 ram) (daddr_di (F ! unit 1 3 ram) 0)
            (regs ! unit 4 6 ram) (daddr_di (F ! unit 4 6 ram) 0)
      | INSTR_TYPE_ARITHMETIC \<Rightarrow> PushArith c (slice 2 10 raw)
      | INSTR_TYPE_PROG_END \<Rightarrow> PushProgEnd)"

text \<open>Numbers as words.\<close>

lemma unat_of_nat18: "x < 262144 \<Longrightarrow> unat (of_nat x :: u18) = x"
  by (simp only: unat_of_nat) simp

lemma remaining_word: "v \<le> n \<Longrightarrow> (of_nat n :: u18) - of_nat v = of_nat (n - v)"
  by (simp add: of_nat_diff)

lemma remaining_le: "n < 262144 \<Longrightarrow> w < 262144 \<Longrightarrow> (of_nat (n - v) :: u18) \<le> of_nat w \<longleftrightarrow> n - v \<le> w"
  by (simp only: word_le_nat_alt unat_of_nat18)

lemma remaining_one: "n < 262144 \<Longrightarrow> (of_nat (n - v) :: u18) = 1 \<longleftrightarrow> n - v = 1"
proof -
  assume "n < 262144"
  then have "unat (of_nat (n - v) :: u18) = n - v" by (intro unat_of_nat18) simp
  moreover have "unat (1 :: u18) = 1" by simp
  ultimately show ?thesis by (metis word_unat_eq_iff)
qed

text \<open>The step of the loop variable, and the copies of a round.\<close>

definition loop_step :: "bool \<Rightarrow> nat \<Rightarrow> nat" where
  "loop_step ind w = (if ind then w else 1)"

lemma depth_zero: "loop_cur_depth s = 0 \<Longrightarrow> LOOP_CUR_DEPTH s = 0"
  by (simp add: LOOP_CUR_DEPTH_def)

text \<open>What the control unit reads of the loop it is in.\<close>

lemma chunk_frame [simp]:
  "LOOP_CUR_DEPTH (s\<lparr>S := x\<rparr>) = LOOP_CUR_DEPTH s"
  "loop_cur_remaining_iterations (s\<lparr>S := x\<rparr>) = loop_cur_remaining_iterations s"
  "cu_independent (s\<lparr>S := x\<rparr>) = cu_independent s" "last_chunk W (s\<lparr>S := x\<rparr>) = last_chunk W s"
  "LOOP_CUR_DEPTH (s\<lparr>execution_queue_read_enable := b\<rparr>) = LOOP_CUR_DEPTH s"
  "loop_cur_remaining_iterations (s\<lparr>execution_queue_read_enable := b\<rparr>) = loop_cur_remaining_iterations s"
  "cu_independent (s\<lparr>execution_queue_read_enable := b\<rparr>) = cu_independent s"
  "last_chunk W (s\<lparr>execution_queue_read_enable := b\<rparr>) = last_chunk W s"
  by (simp_all add: LOOP_CUR_DEPTH_def loop_cur_remaining_iterations_def cu_independent_def last_chunk_def)

lemma at_body_chunk:
  assumes "at_body a m ind j n F R k v s" and "v < n" and "n < 262144" and "w < 262144"
  shows "LOOP_CUR_DEPTH s = 0" and "loop_cur_remaining_iterations s = of_nat (n - v)"
    and "cu_independent s = ind" and "last_chunk (of_nat w) s \<longleftrightarrow> n - v \<le> w"
proof -
  show d: "LOOP_CUR_DEPTH s = 0" using assms(1) by (intro depth_zero) (simp add: at_body_def)
  show r: "loop_cur_remaining_iterations s = of_nat (n - v)"
    using assms(1) d remaining_word [OF less_imp_le [OF assms(2)]]
    by (simp add: loop_cur_remaining_iterations_def at_body_def)
  show "cu_independent s = ind" using assms(1) d by (simp add: cu_independent_def at_body_def)
  show "last_chunk (of_nat w) s \<longleftrightarrow> n - v \<le> w"
    using remaining_le [OF assms(3,4), of v] by (simp add: last_chunk_def r)
qed

text \<open>The next address, with no wrap-around.\<close>

lemma update_pc_eq:
  assumes "pc s = of_nat p" and "program_end_pc s = of_nat e" and "jump_amount s = of_nat d"
    and "d \<le> p + 1" and "p < 65536" and "e < 65536" and "d < 64"
  shows "update_pc s = s\<lparr>queue_we := False, pc := of_nat (p + 1 - d), jump_amount := 0,
           S := (if e \<le> p + 1 - d then FINISH_PROGRAM_1 else DECODE)\<rparr>"
proof -
  have "uint (jump_amount s) = int d" using assms(3,7) by (simp only: uint_nat unat_of_nat) simp
  then have next_pc: "uint (pc s) + 1 - uint (jump_amount s) = int (p + 1 - d)"
    using assms by (simp add: uint_of_nat16 of_nat_diff)
  have "int (p + 1 - d) mod 2 ^ 32 = int (p + 1 - d)" using assms(5) by simp
  then show ?thesis
    using assms(6) unfolding update_pc_def Let_def next_pc
    by (simp add: assms(2) uint_of_nat16)
qed

text \<open>Pushing an instruction moves the state on and leaves the loop and the address units alone.\<close>

lemma insert_to_queue_frame [simp]:
  "S (insert_to_queue E W s) = UPDATE_PC" "queue_we (insert_to_queue E W s)"
  "cu.program_end_pc (insert_to_queue E W s) = cu.program_end_pc s"
  "cu.loop_cur_depth (insert_to_queue E W s) = cu.loop_cur_depth s"
  "cu.loop_stack_value (insert_to_queue E W s) = cu.loop_stack_value s"
  "cu.loop_stack_total_iterations (insert_to_queue E W s) = cu.loop_stack_total_iterations s"
  "cu.loop_stack_is_independent (insert_to_queue E W s) = cu.loop_stack_is_independent s"
  "cu.loop_stack_jump_amount (insert_to_queue E W s) = cu.loop_stack_jump_amount s"
  "cu.loop_stack_name (insert_to_queue E W s) = cu.loop_stack_name s"
  "cu.apu_linear_formulas (insert_to_queue E W s) = cu.apu_linear_formulas s"
  "cu.apu_address_registers (insert_to_queue E W s) = cu.apu_address_registers s"
  "cu.jump_amount (insert_to_queue E W s) = cu.jump_amount s"
  "cu.pc (insert_to_queue E W s) = cu.pc s"
  by (simp_all add: insert_to_queue_def Let_def split: instr_type.split)

text \<open>An instruction of the body takes three clocks and pushes once.\<close>

lemma chunk_copies:
  "1 \<le> x \<Longrightarrow> (if ind then if x \<le> w then of_nat x else of_nat w else 1)
     = (of_nat (min (loop_step ind w) x) :: u18)"
  by (auto simp: loop_step_def min_def)

lemma three: "replicate 3 x = [x, x, x]" "replicate 4 x = [x, x, x, x]"
  by (simp_all add: numeral_eq_Suc)

lemma body_instruction:
  assumes s: "at_body a m ind j n F R k v s" and code: "loop_code E a m ind j"
    and "k < m" and "v < n" and "n < 262144" and "w < 262144"
  defines "run \<equiv> cu_run E (of_nat w) (replicate 3 False) s"
  shows "fst run = [body_push F (shifted F j v R) (of_nat (min (loop_step ind w) (n - v)))
           (icache E (of_nat (a + 1 + k)))]"
    and "at_body a m ind j n F R (k + 1) v (snd run)"
proof -
  let ?raw = "icache E (of_nat (a + 1 + k))"
  have raw: "instruction_type ?raw \<noteq> INSTR_TYPE_LOOP"
    using code assms(3) by (simp add: loop_code_def list_all_length)
  note chunk = at_body_chunk [OF s assms(4-6)]
  note clocks = cu_clk_def cu_step_def
  let ?s1 = "cu_clk E (of_nat w) False s"
  have s1: "?s1 = s\<lparr>S := INSERT_TO_QUEUE, execution_queue_read_enable := False\<rparr>"
    using s raw by (cases "instruction_type ?raw") (simp_all add: at_body_def clocks decode_step_def Let_def)
  define c where "c = (of_nat (min (loop_step ind w) (n - v)) :: u18)"
  let ?s2 = "cu_clk E (of_nat w) False ?s1"
  have copies: "(if ind then if n - v \<le> w then of_nat (n - v) else of_nat w else 1) = c"
    unfolding c_def using assms(4) by (intro chunk_copies) simp
  have s2: "?s2 = insert_to_queue E (of_nat w) (s\<lparr>S := INSERT_TO_QUEUE, execution_queue_read_enable := False\<rparr>)"
    unfolding s1 by (simp add: clocks)
  have push: "pushed ?s2 = [body_push F (shifted F j v R) c ?raw]"
    using s raw unfolding s2 insert_to_queue_def Let_def
    by (cases "instruction_type ?raw")
      (simp_all add: at_body_def chunk pushed_def copies body_push_def Let_def split del: if_split cong: if_cong)
  let ?s3 = "cu_clk E (of_nat w) False ?s2"
  have s3: "?s3 = update_pc (?s2\<lparr>execution_queue_read_enable := False\<rparr>)"
    unfolding s2 by (simp add: clocks)
  have pushes: "pushed ?s1 = []" "pushed ?s3 = []"
    using s unfolding s3 by (simp_all add: s1 pushed_def at_body_def update_pc_def Let_def)
  show "fst run = [body_push F (shifted F j v R) (of_nat (min (loop_step ind w) (n - v))) ?raw]"
    by (simp only: c_def [symmetric] run_def three cu_run.simps Let_def fst_conv pushes push append_Nil append_Nil2)
  have "?s3 = ?s2\<lparr>execution_queue_read_enable := False, queue_we := False, pc := of_nat (a + 1 + k + 1 - 0),
      jump_amount := 0, S := if a + m + 2 \<le> a + 1 + k + 1 - 0 then FINISH_PROGRAM_1 else DECODE\<rparr>"
    unfolding s3 using s code assms(3)
    by (subst update_pc_eq [of _ "a + 1 + k" "a + m + 2" 0]) (simp_all add: s2 at_body_def loop_code_def)
  then have "at_body a m ind j n F R (k + 1) v ?s3"
    using s assms(3) unfolding s2 by (simp add: at_body_def add.assoc)
  then show "at_body a m ind j n F R (k + 1) v (snd run)"
    by (simp only: run_def three cu_run.simps Let_def snd_conv)
qed

lemma runs_add:
  "fst (cu_run E W (replicate (p + q) False) s)
     = fst (cu_run E W (replicate p False) s) @ fst (cu_run E W (replicate q False) (snd (cu_run E W (replicate p False) s)))"
  "snd (cu_run E W (replicate (p + q) False) s)
     = snd (cu_run E W (replicate q False) (snd (cu_run E W (replicate p False) s)))"
  by (simp_all only: replicate_add cu_run_append)

text \<open>What one pass over the body pushes.\<close>

definition round_pushes ::
    "env \<Rightarrow> nat \<Rightarrow> nat \<Rightarrow> bool \<Rightarrow> nat \<Rightarrow> nat \<Rightarrow> nat \<Rightarrow> bits list \<Rightarrow> u18 list \<Rightarrow> nat \<Rightarrow> push list" where
  "round_pushes E a m ind j n w F R v =
     map (\<lambda>k. body_push F (shifted F j v R) (of_nat (min (loop_step ind w) (n - v))) (icache E (of_nat (a + 1 + k))))
       [0..<m]"

lemma body_round:
  assumes code: "loop_code E a m ind j" and "v < n" and "n < 262144" and "w < 262144"
  shows "at_body a m ind j n F R k v s \<Longrightarrow> k + d = m \<Longrightarrow>
      fst (cu_run E (of_nat w) (replicate (3 * d) False) s)
        = map (\<lambda>k. body_push F (shifted F j v R) (of_nat (min (loop_step ind w) (n - v))) (icache E (of_nat (a + 1 + k))))
            [k..<m]
    \<and> at_body a m ind j n F R m v (snd (cu_run E (of_nat w) (replicate (3 * d) False) s))"
proof (induction d arbitrary: k s)
  case (Suc d)
  have k: "k < m" "(k + 1) + d = m" using Suc.prems(2) by simp_all
  note one = body_instruction [OF Suc.prems(1) code k(1) assms(2-4)]
  have split: "3 * Suc d = 3 + 3 * d" by simp
  show ?case
    using Suc.IH [OF one(2) k(2)] one(1) k(1)
    by (simp only: split runs_add) (simp add: upt_conv_Cons)
qed simp

section \<open>The loop instructions\<close>

lemma map2_map2_left: "map2 f (map2 g xs ys) ys = map2 (\<lambda>x y. f (g x y) y) xs ys"
  by (induction xs arbitrary: ys) (auto split: list.splits simp: zip_Cons1)

lemma update_shifted: "update_apu F j (of_nat d) (shifted F j v R) = shifted F j (v + d) R"
  by (simp add: update_apu_def shifted_def map2_map2_left distrib_right add.assoc)

lemma unat_of_nat3: "j < 8 \<Longrightarrow> unat (of_nat j :: 3 word) = j"
  by (simp only: unat_of_nat) simp

text \<open>The loop end takes four clocks and pushes nothing: it goes back to the first instruction of the
  body, or ends the program.\<close>

lemma loop_end:
  assumes s: "at_body a m ind j n F R m v s" and code: "loop_code E a m ind j"
    and "v < n" and "n < 262144" and "w < 262144" and "0 < w"
  defines "run \<equiv> cu_run E (of_nat w) (replicate 4 False) s"
  shows "fst run = []"
    and "n - v \<le> loop_step ind w \<Longrightarrow> S (snd run) = FINISH_PROGRAM_1 \<and> \<not> queue_we (snd run)"
    and "\<not> n - v \<le> loop_step ind w \<Longrightarrow>
      at_body a m ind j n F R 0 (v + loop_step ind w) (snd run)"
proof -
  let ?raw = "icache E (of_nat (a + 1 + m))"
  have raw: "instruction_type ?raw = INSTR_TYPE_LOOP" "\<not> ?raw ! 3"
    using code by (simp_all add: loop_code_def Let_def)
  note chunk = at_body_chunk [OF s assms(3-5)]
  note clocks = cu_clk_def cu_step_def
  let ?q = "s\<lparr>S := INCREMENT_LOOP, execution_queue_read_enable := False\<rparr>"
  let ?s1 = "cu_clk E (of_nat w) False s"
  have s1: "?s1 = ?q"
    using s raw by (simp add: at_body_def clocks decode_step_def Let_def)
  let ?s2 = "cu_clk E (of_nat w) False ?s1" and ?inc = "increment_loop (of_nat w) ?q"
  have s2: "?s2 = ?inc"
    unfolding s1 by (simp add: clocks)
  let ?s3 = "cu_clk E (of_nat w) False ?s2" and ?apu = "update_apu_step (?inc\<lparr>execution_queue_read_enable := False\<rparr>)"
  have inc: "S ?inc = UPDATE_APU" "\<not> queue_we ?inc" "pc ?inc = pc s" "program_end_pc ?inc = program_end_pc s"
    using s by (simp_all add: increment_loop_def Let_def at_body_def)
  have s3: "?s3 = ?apu"
    unfolding s2 using inc(1) by (simp add: clocks)
  let ?s4 = "cu_clk E (of_nat w) False ?s3"
  have s4: "?s4 = update_pc (?apu\<lparr>execution_queue_read_enable := False\<rparr>)"
    unfolding s3 by (simp add: clocks update_apu_step_def)
  have "pushed ?s1 = []" using s by (simp add: s1 pushed_def at_body_def)
  moreover have "pushed ?s2 = []" unfolding s2 using inc by (simp add: pushed_def)
  moreover have "pushed ?s3 = []" unfolding s3 using inc by (simp add: pushed_def update_apu_step_def)
  moreover have "pushed ?s4 = []" unfolding s4 by (simp add: pushed_def update_pc_def Let_def)
  ultimately show "fst run = []"
    by (simp only: run_def three cu_run.simps Let_def fst_conv append_Nil)
  have run: "snd run = ?s4"
    by (simp only: run_def three cu_run.simps Let_def snd_conv)
  have pcs: "pc s = of_nat (a + 1 + m)" "program_end_pc s = of_nat (a + m + 2)"
    using s by (simp_all add: at_body_def)
  have small: "a + m + 2 < 65536" "m + 1 < 64" "j < 8" using code by (simp_all add: loop_code_def)
  have one: "of_nat (n - v) = (1 :: u18) \<longleftrightarrow> n - v = 1" by (rule remaining_one [OF assms(4)])
  {
    assume exit: "n - v \<le> loop_step ind w"
    have "\<not> ind \<Longrightarrow> n - v = 1" "ind \<Longrightarrow> n - v \<le> w"
      using exit assms(3) by (simp_all add: loop_step_def)
    then have "jump_amount ?inc = of_nat 0"
      using s chunk one
      by (cases ind) (simp_all add: increment_loop_def Let_def loop_step_def at_body_def)
    then have "?s4 = ?apu\<lparr>execution_queue_read_enable := False, queue_we := False, pc := of_nat (a + 1 + m + 1 - 0),
        jump_amount := 0, S := if a + m + 2 \<le> a + 1 + m + 1 - 0 then FINISH_PROGRAM_1 else DECODE\<rparr>"
      unfolding s4 using small inc pcs
      by (subst update_pc_eq [of _ "a + 1 + m" "a + m + 2" 0]) (simp_all add: update_apu_step_def)
    then show "S (snd run) = FINISH_PROGRAM_1 \<and> \<not> queue_we (snd run)"
      unfolding run by simp
  }
  assume next_round: "\<not> n - v \<le> loop_step ind w"
  then have "n - v \<noteq> 1" "ind \<Longrightarrow> \<not> n - v \<le> w"
    using assms(3,6) by (auto simp: loop_step_def split: if_splits)
  then have more: "?inc = ?q\<lparr>loop_stack_value := (loop_stack_value s)[0 := of_nat (v + loop_step ind w)],
      apu_in_loop_var := of_nat j, S := UPDATE_APU, apu_in_di := of_nat (loop_step ind w), jump_amount := of_nat (m + 1)\<rparr>"
    using s chunk one
    by (cases ind) (simp_all add: increment_loop_def Let_def loop_step_def at_body_def add.commute)
  have apu: "?apu = ?inc\<lparr>execution_queue_read_enable := False, S := UPDATE_PC,
      apu_address_registers := shifted F j (v + loop_step ind w) R\<rparr>"
    using s small by (simp add: update_apu_step_def more at_body_def unat_of_nat3 update_shifted)
  have "?s4 = ?apu\<lparr>execution_queue_read_enable := False, queue_we := False, pc := of_nat (a + 1 + m + 1 - (m + 1)),
        jump_amount := 0, S := if a + m + 2 \<le> a + 1 + m + 1 - (m + 1) then FINISH_PROGRAM_1 else DECODE\<rparr>"
    unfolding s4 using small pcs
    by (subst update_pc_eq [of _ "a + 1 + m" "a + m + 2" "m + 1"]) (simp_all add: more update_apu_step_def)
  from this [unfolded apu, unfolded more] show "at_body a m ind j n F R 0 (v + loop_step ind w) (snd run)"
    unfolding run using s by (simp add: at_body_def)
qed

section \<open>The whole program\<close>

definition rounds :: "nat \<Rightarrow> nat \<Rightarrow> nat" where
  "rounds n step = (n + step - 1) div step"

lemma less_rounds: "0 < step \<Longrightarrow> r < rounds n step \<longleftrightarrow> r * step < n"
proof -
  assume step: "0 < step"
  have "r < rounds n step \<longleftrightarrow> Suc r * step \<le> n + step - 1"
    using step by (simp only: rounds_def Suc_le_eq [symmetric] less_eq_div_iff_mult_less_eq)
  also have "\<dots> \<longleftrightarrow> r * step < n" using step by (cases step) auto
  finally show ?thesis .
qed

lemma one_round:
  assumes s: "at_body a m ind j n F R 0 v s" and code: "loop_code E a m ind j"
    and "v < n" and "n < 262144" and "w < 262144" and "0 < w"
  defines "run \<equiv> cu_run E (of_nat w) (replicate (3 * m + 4) False) s"
  shows "fst run = round_pushes E a m ind j n w F R v"
    and "n - v \<le> loop_step ind w \<Longrightarrow> S (snd run) = FINISH_PROGRAM_1 \<and> \<not> queue_we (snd run)"
    and "\<not> n - v \<le> loop_step ind w \<Longrightarrow> at_body a m ind j n F R 0 (v + loop_step ind w) (snd run)"
proof -
  have b: "fst (cu_run E (of_nat w) (replicate (3 * m) False) s) = round_pushes E a m ind j n w F R v"
    "at_body a m ind j n F R m v (snd (cu_run E (of_nat w) (replicate (3 * m) False) s))"
    using body_round [OF code assms(3-5) s, of m] by (simp_all add: round_pushes_def)
  note e = loop_end [OF b(2) code assms(3-6)]
  show "fst run = round_pushes E a m ind j n w F R v"
    by (simp only: run_def runs_add b(1) e(1) append_Nil2)
  show "n - v \<le> loop_step ind w \<Longrightarrow> S (snd run) = FINISH_PROGRAM_1 \<and> \<not> queue_we (snd run)"
    and "\<not> n - v \<le> loop_step ind w \<Longrightarrow> at_body a m ind j n F R 0 (v + loop_step ind w) (snd run)"
    unfolding run_def runs_add by (rule e(2,3), assumption)+
qed

lemma loop_rounds:
  assumes code: "loop_code E a m ind j" and "n < 262144" and "w < 262144" and "0 < w"
  defines "step \<equiv> loop_step ind w"
  shows "at_body a m ind j n F R 0 (r * step) s \<Longrightarrow> r + Suc d = rounds n step \<Longrightarrow>
      fst (cu_run E (of_nat w) (replicate (Suc d * (3 * m + 4)) False) s)
        = concat (map (\<lambda>r. round_pushes E a m ind j n w F R (r * step)) [r..<rounds n step])
    \<and> S (snd (cu_run E (of_nat w) (replicate (Suc d * (3 * m + 4)) False) s)) = FINISH_PROGRAM_1
    \<and> \<not> queue_we (snd (cu_run E (of_nat w) (replicate (Suc d * (3 * m + 4)) False) s))"
proof (induction d arbitrary: r s)
  case 0
  have step: "0 < step" using assms(4) by (simp add: step_def loop_step_def)
  have v: "r * step < n" using 0(2) less_rounds [OF step, of r n] by simp
  have "\<not> Suc r * step < n" using 0(2) less_rounds [OF step, of "Suc r" n] by simp
  then have last: "n - r * step \<le> loop_step ind w" by (simp add: step_def)
  note one = one_round [OF 0(1) code v assms(2-4)]
  show ?case using one(1) one(2) [OF last] 0(2) by (simp add: upt_conv_Cons)
next
  case (Suc d)
  have step: "0 < step" using assms(4) by (simp add: step_def loop_step_def)
  have v: "r * step < n" using Suc.prems(2) less_rounds [OF step, of r n] by simp
  have "Suc r * step < n" using Suc.prems(2) less_rounds [OF step, of "Suc r" n] by simp
  then have more: "\<not> n - r * step \<le> loop_step ind w" by (simp add: step_def)
  note one = one_round [OF Suc.prems(1) code v assms(2-4)]
  have "at_body a m ind j n F R 0 (Suc r * step) (snd (cu_run E (of_nat w) (replicate (3 * m + 4) False) s))"
    using one(3) [OF more] by (simp add: step_def add.commute)
  note rest = Suc.IH [OF this]
  have split: "Suc (Suc d) * (3 * m + 4) = (3 * m + 4) + Suc d * (3 * m + 4)" by simp
  have "r < rounds n step" "Suc r + Suc d = rounds n step" using Suc.prems(2) by simp_all
  then show ?case
    using rest one(1) by (simp only: split runs_add) (simp add: upt_conv_Cons)
qed

text \<open>A control unit that waits for a program, as \<^verbatim>\<open>reset\<close> leaves it.\<close>

definition waiting :: "cu \<Rightarrow> bool" where
  "waiting s \<longleftrightarrow>
     S s = IDLE \<and> \<not> queue_we s \<and> jump_amount s = 0 \<and> apu_in_di s = 0 \<and> loop_cur_depth s = - 1
     \<and> length (loop_stack_value s) = 8 \<and> length (loop_stack_total_iterations s) = 8
     \<and> length (loop_stack_is_independent s) = 8 \<and> length (loop_stack_jump_amount s) = 8
     \<and> length (loop_stack_name s) = 8"

lemma waiting_reset: "length (loop_stack_is_independent s) = 8 \<Longrightarrow> waiting (cu_reset s)"
  by (simp add: waiting_def cu_reset_def)

text \<open>The address units of the header that the queue entry points to.\<close>

definition header_formulas :: "env \<Rightarrow> bits list" where
  "header_formulas E = (let r = execution_queue_start_ro_data_addr E in
     map (\<lambda>i. load_linear i (prog_apu_formula E r)) [0..<4]
     @ map (\<lambda>i. load_linear i (prog_apu_formula E (r + 1))) [0..<4])"

definition header_registers :: "env \<Rightarrow> u18 list" where
  "header_registers E = (let r = execution_queue_start_ro_data_addr E in
     map (\<lambda>i. load_address i (prog_apu_formula E r)) [0..<4]
     @ map (\<lambda>i. load_address i (prog_apu_formula E (r + 1))) [0..<4])"

definition one_loop_program :: "env \<Rightarrow> nat \<Rightarrow> nat \<Rightarrow> bool \<Rightarrow> nat \<Rightarrow> nat \<Rightarrow> bool" where
  "one_loop_program E a m ind j n \<longleftrightarrow>
     execution_queue_not_empty E \<and> execution_queue_start_pc E = of_nat a
     \<and> execution_queue_end_pc E = of_nat (a + m + 2) \<and> loop_code E a m ind j
     \<and> (let l = loopmux (int j) (prog_loop_ro_data E (execution_queue_start_ro_data_addr E)) ind True in
          iteration_count l = int n \<and> Decoder.jump_amount l = int (m + 1))"

lemma shifted_zero: "length R = length F \<Longrightarrow> shifted F j 0 R = R"
  by (simp add: shifted_def list_eq_iff_nth_eq)

lemma update_nothing: "length R = length F \<Longrightarrow> update_apu F x 0 R = R"
  by (simp add: update_apu_def list_eq_iff_nth_eq)

lemma load_program:
  assumes "waiting s" and "execution_queue_not_empty E"
  shows "cu_run E W (replicate 4 False) s =
    ([], s\<lparr>execution_queue_read_enable := False, S := DECODE,
        ro_data_addr := execution_queue_start_ro_data_addr E + 1, pc := execution_queue_start_pc E,
        program_end_pc := execution_queue_end_pc E, loop_ro_data := prog_loop_ro_data E (execution_queue_start_ro_data_addr E),
        apu_address_registers := header_registers E, apu_linear_formulas := header_formulas E\<rparr>)"
  using assms
  by (simp add: three waiting_def cu_clk_def cu_step_def prepare_program_0_def prepare_program_1_def
      prepare_program_2_def Let_def pushed_def header_registers_def header_formulas_def
      del: upt.simps upt_rec_numeral)

lemma start_loop:
  assumes s: "S s = DECODE" "\<not> queue_we s" "jump_amount s = 0" "apu_in_di s = 0" "loop_cur_depth s = - 1"
      "length (loop_stack_value s) = 8" "length (loop_stack_total_iterations s) = 8"
      "length (loop_stack_is_independent s) = 8" "length (loop_stack_jump_amount s) = 8"
      "length (loop_stack_name s) = 8"
      "length (apu_address_registers s) = length (apu_linear_formulas s)"
      "pc s = of_nat a" "program_end_pc s = of_nat (a + m + 2)"
    and code: "loop_code E a m ind j"
    and l: "iteration_count (loopmux (int j) (loop_ro_data s) ind True) = int n"
      "Decoder.jump_amount (loopmux (int j) (loop_ro_data s) ind True) = int (m + 1)"
  shows "fst (cu_run E W (replicate 4 False) s) = []"
    and "at_body a m ind j n (apu_linear_formulas s) (apu_address_registers s) 0 0
           (snd (cu_run E W (replicate 4 False) s))"
proof -
  let ?raw = "icache E (of_nat a)"
  have raw: "instruction_type ?raw = INSTR_TYPE_LOOP" "?raw ! 3" "?raw ! 2 = ind" "bits_uint (slice 4 6 ?raw) = int j"
    using code by (simp_all add: loop_code_def Let_def)
  note clocks = cu_clk_def cu_step_def
  let ?q = "s\<lparr>S := START_NEW_LOOP, execution_queue_read_enable := False\<rparr>"
  let ?s1 = "cu_clk E W False s"
  have s1: "?s1 = ?q"
    using s(1,12) raw by (simp add: clocks decode_step_def Let_def)
  let ?s2 = "cu_clk E W False ?s1" and ?new = "start_new_loop E ?q"
  have s2: "?s2 = ?new"
    unfolding s1 by (simp add: clocks)
  have stack: "loop_stack_value s \<noteq> []" using s(6) by auto
  have plus: "loop_cur_depth_plus_one ?q = 0"
    by (simp add: loop_cur_depth_plus_one_def s)
  have instr: "loop_instr E ?q = loopmux (int j) (loop_ro_data s) ind True"
    using raw by (simp add: loop_instr_def Let_def s)
  have name: "loop_name (loopmux (int j) (loop_ro_data s) ind True) = int j"
    "is_independent (loopmux (int j) (loop_ro_data s) ind True) = ind"
    by (simp_all add: loopmux_def Let_def)
  obtain err where new: "?new = s\<lparr>execution_queue_read_enable := False, program_error := err,
      loop_stack_value := (loop_stack_value s)[0 := 0], loop_cur_depth := 0,
      loop_stack_is_independent := (loop_stack_is_independent s)[0 := ind],
      loop_stack_jump_amount := (loop_stack_jump_amount s)[0 := of_nat (m + 1)],
      loop_stack_total_iterations := (loop_stack_total_iterations s)[0 := of_nat n],
      loop_stack_name := (loop_stack_name s)[0 := of_nat j], S := UPDATE_APU\<rparr>"
    by (rule that [of "program_error ?new"])
      (simp add: start_new_loop_def Let_def plus instr l name del: of_nat_add)
  have new_di: "apu_in_di ?new = 0" "S ?new = UPDATE_APU" "\<not> queue_we ?new"
    "apu_address_registers ?new = apu_address_registers s" "apu_linear_formulas ?new = apu_linear_formulas s"
    "pc ?new = pc s" "program_end_pc ?new = program_end_pc s" "jump_amount ?new = of_nat 0"
    by (subst new, simp add: s)+
  let ?s3 = "cu_clk E W False ?s2" and ?apu = "?new\<lparr>S := UPDATE_PC, execution_queue_read_enable := False\<rparr>"
  have s3: "?s3 = ?apu"
    unfolding s2 using new_di s(11) by (simp add: clocks update_apu_step_def update_nothing)
  let ?s4 = "cu_clk E W False ?s3"
  have s4: "?s4 = update_pc ?apu"
    unfolding s3 by (simp add: clocks)
  have "pushed ?s1 = []" using s by (simp add: s1 pushed_def)
  moreover have "pushed ?s2 = []" unfolding s2 using new_di by (simp add: pushed_def)
  moreover have "pushed ?s3 = []" unfolding s3 using new_di by (simp add: pushed_def)
  moreover have "pushed ?s4 = []" unfolding s4 by (simp add: pushed_def update_pc_def Let_def)
  ultimately show "fst (cu_run E W (replicate 4 False) s) = []"
    by (simp only: three cu_run.simps Let_def fst_conv append_Nil)
  have run: "snd (cu_run E W (replicate 4 False) s) = ?s4"
    by (simp only: three cu_run.simps Let_def snd_conv)
  have "a + m + 2 < 65536" using code by (simp add: loop_code_def)
  then have "?s4 = ?apu\<lparr>queue_we := False, pc := of_nat (a + 1 - 0), jump_amount := 0,
      S := if a + m + 2 \<le> a + 1 - 0 then FINISH_PROGRAM_1 else DECODE\<rparr>"
    unfolding s4 by (subst update_pc_eq [of _ a "a + m + 2" 0]) (simp_all add: new_di s)
  from this [unfolded new] show "at_body a m ind j n (apu_linear_formulas s) (apu_address_registers s) 0 0
      (snd (cu_run E W (replicate 4 False) s))"
    unfolding run using s stack by (simp add: at_body_def shifted_zero)
qed

lemma waiting_strobe: "waiting s \<Longrightarrow> strobe_ok s"
  by (simp add: waiting_def strobe_ok_def)

text \<open>All clocks of the program, without stalls.\<close>

definition program_clocks :: "nat \<Rightarrow> nat \<Rightarrow> nat" where
  "program_clocks m k = 9 + k * (3 * m + 4)"

lemma reaches_body:
  assumes s: "waiting s" and E: "one_loop_program E a m ind j n"
  shows "fst (cu_run E W (replicate 8 False) s) = []"
    and "at_body a m ind j n (header_formulas E) (header_registers E) 0 0 (snd (cu_run E W (replicate 8 False) s))"
proof -
  note p = E [unfolded one_loop_program_def Let_def]
  have code: "loop_code E a m ind j" using p by simp
  define s4 where "s4 = snd (cu_run E W (replicate 4 False) s)"
  have l: "cu_run E W (replicate 4 False) s = ([], s4)"
    unfolding s4_def using load_program [OF s] p by simp
  have s4: "s4 = s\<lparr>execution_queue_read_enable := False, S := DECODE,
        ro_data_addr := execution_queue_start_ro_data_addr E + 1, pc := execution_queue_start_pc E,
        program_end_pc := execution_queue_end_pc E, loop_ro_data := prog_loop_ro_data E (execution_queue_start_ro_data_addr E),
        apu_address_registers := header_registers E, apu_linear_formulas := header_formulas E\<rparr>"
    unfolding s4_def using load_program [OF s] p by simp
  have lens: "length (header_registers E) = length (header_formulas E)"
    by (simp add: header_registers_def header_formulas_def Let_def)
  note body = start_loop [of s4 a m E ind j n W]
  have "fst (cu_run E W (replicate 4 False) s4) = []"
    and "at_body a m ind j n (header_formulas E) (header_registers E) 0 0 (snd (cu_run E W (replicate 4 False) s4))"
    using body s p lens by (simp_all add: s4 waiting_def)
  moreover have "replicate 8 False = replicate (4 + 4) False" by simp
  ultimately show "fst (cu_run E W (replicate 8 False) s) = []"
    and "at_body a m ind j n (header_formulas E) (header_registers E) 0 0 (snd (cu_run E W (replicate 8 False) s))"
    by (simp_all only: runs_add l fst_conv snd_conv append_Nil)
qed

lemma one_loop_run:
  assumes s: "waiting s" and E: "one_loop_program E a m ind j n"
    and "0 < n" and "n < 262144" and "w < 262144" and "0 < w"
  defines "k \<equiv> rounds n (loop_step ind w)"
  defines "run \<equiv> cu_run E (of_nat w) (replicate (program_clocks m k) False) s"
  shows "fst run = concat (map (\<lambda>r. round_pushes E a m ind j n w (header_formulas E) (header_registers E)
                (r * loop_step ind w)) [0..<k]) @ [PushProgEnd]"
    and "S (snd run) = FINISH_PROGRAM_2"
proof -
  have code: "loop_code E a m ind j" using E by (simp add: one_loop_program_def Let_def)
  define s8 where "s8 = snd (cu_run E (of_nat w) (replicate 8 False) s)"
  have l8: "cu_run E (of_nat w) (replicate 8 False) s = ([], s8)"
    using reaches_body(1) [OF s E, of "of_nat w"] by (simp add: s8_def prod_eq_iff)
  have body: "at_body a m ind j n (header_formulas E) (header_registers E) 0 0 s8"
    unfolding s8_def by (rule reaches_body(2) [OF s E])
  have step: "0 < loop_step ind w" using assms(6) by (simp add: loop_step_def)
  then have "0 < k" using less_rounds [of _ 0 n] assms(3) by (simp add: k_def)
  then obtain d where d: "k = Suc d" by (cases k) auto
  define s9 where "s9 = snd (cu_run E (of_nat w) (replicate (Suc d * (3 * m + 4)) False) s8)"
  have loops: "fst (cu_run E (of_nat w) (replicate (Suc d * (3 * m + 4)) False) s8)
        = concat (map (\<lambda>r. round_pushes E a m ind j n w (header_formulas E) (header_registers E)
            (r * loop_step ind w)) [0..<k])" "S s9 = FINISH_PROGRAM_1" "\<not> queue_we s9"
    using loop_rounds [OF code assms(4-6), of "header_formulas E" "header_registers E" 0 s8 d] body d
    unfolding s9_def k_def by simp_all
  have l9: "cu_run E (of_nat w) (replicate (Suc d * (3 * m + 4)) False) s8
      = (concat (map (\<lambda>r. round_pushes E a m ind j n w (header_formulas E) (header_registers E)
            (r * loop_step ind w)) [0..<k]), s9)"
    using loops(1) by (simp add: s9_def prod_eq_iff)
  have last: "fst (cu_run E (of_nat w) (replicate 1 False) s9) = [PushProgEnd]"
    "S (snd (cu_run E (of_nat w) (replicate 1 False) s9)) = FINISH_PROGRAM_2"
    using loops(2) by (simp_all add: cu_clk_def cu_step_def pushed_def Let_def)
  have clocks: "program_clocks m k = 8 + (Suc d * (3 * m + 4) + 1)"
    by (simp add: program_clocks_def d)
  show "fst run = concat (map (\<lambda>r. round_pushes E a m ind j n w (header_formulas E) (header_registers E)
                (r * loop_step ind w)) [0..<k]) @ [PushProgEnd]"
    and "S (snd run) = FINISH_PROGRAM_2"
    by (simp_all only: run_def clocks runs_add l8 l9 fst_conv snd_conv append_Nil last)
qed

lemma one_loop_stalled:
  assumes "waiting s" and "one_loop_program E a m ind j n"
    and "0 < n" and "n < 262144" and "w < 262144" and "0 < w"
    and "program_clocks m (rounds n (loop_step ind w)) \<le> length (filter Not stalls)"
  shows "fst (cu_run E (of_nat w) stalls s)
       = concat (map (\<lambda>r. round_pushes E a m ind j n w (header_formulas E) (header_registers E)
                (r * loop_step ind w)) [0..<rounds n (loop_step ind w)]) @ [PushProgEnd]
     \<and> S (snd (cu_run E (of_nat w) stalls s)) = FINISH_PROGRAM_2"
proof -
  let ?T = "program_clocks m (rounds n (loop_step ind w))"
  obtain k where k: "length (filter Not stalls) \<le> k"
    "fst (cu_run E (of_nat w) stalls s) = fst (cu_run E (of_nat w) (replicate k False) s)"
    "S (snd (cu_run E (of_nat w) stalls s)) = S (snd (cu_run E (of_nat w) (replicate k False) s))"
    using run_with_stalls [OF waiting_strobe [OF assms(1)]] by blast
  obtain d where d: "k = ?T + d" using assms(7) k(1) by (metis le_trans le_iff_add)
  note run = one_loop_run [OF assms(1-6)]
  show ?thesis
    using run(1) finished_stays [OF run(2)] by (simp add: k(2,3) d runs_add)
qed

lemma one_loop_prefix:
  assumes "waiting s" and "one_loop_program E a m ind j n"
    and "0 < n" and "n < 262144" and "w < 262144" and "0 < w"
  shows "\<exists>rest. concat (map (\<lambda>r. round_pushes E a m ind j n w (header_formulas E) (header_registers E)
                (r * loop_step ind w)) [0..<rounds n (loop_step ind w)]) @ [PushProgEnd]
     = fst (cu_run E (of_nat w) stalls s) @ rest"
proof -
  let ?T = "program_clocks m (rounds n (loop_step ind w))"
  obtain k where k: "fst (cu_run E (of_nat w) stalls s) = fst (cu_run E (of_nat w) (replicate k False) s)"
    using run_with_stalls [OF waiting_strobe [OF assms(1)]] by blast
  note run = one_loop_run [OF assms]
  have "fst (cu_run E (of_nat w) (replicate (k + ?T) False) s) = fst (cu_run E (of_nat w) (replicate (?T + k) False) s)"
    by (simp only: add.commute)
  also have "\<dots> = fst (cu_run E (of_nat w) (replicate ?T False) s)"
    using finished_stays [OF run(2)] by (simp add: runs_add)
  finally show ?thesis using run(1) by (simp add: k runs_add) metis
qed

text \<open>C11. A program that is one loop: from the reset state, for every iteration count from 1 on, every
  body, every width of the hardware and every pattern of stalls, once enough clocks were not
  stalled, the control unit has pushed for each chunk of iterations every instruction of the body,
  in program order, with the chunk's size as copy count (one iteration at a time when the loop is not
  independent) and the addresses at the chunk's first iteration, then the end of the program, and
  nothing else.\<close>

theorem one_loop_pushes:
  assumes "waiting s" and "one_loop_program E a m ind j n"
    and "0 < n" and "n < 262144" and "w < 262144" and "0 < w"
    and "program_clocks m (rounds n (loop_step ind w)) \<le> length (filter Not stalls)"
  shows "fst (cu_run E (of_nat w) stalls s)
       = concat (map (\<lambda>r. round_pushes E a m ind j n w (header_formulas E) (header_registers E)
                (r * loop_step ind w)) [0..<rounds n (loop_step ind w)]) @ [PushProgEnd]
     \<and> S (snd (cu_run E (of_nat w) stalls s)) = FINISH_PROGRAM_2"
  by (rule one_loop_stalled [OF assms])

text \<open>A control unit before its first \<^verbatim>\<open>reset\<close>, and a program of one instruction that
  is run three times on a machine of width two.\<close>

definition cu_blank :: cu where
  "cu_blank =
     \<lparr>S = IDLE, execution_queue_read_enable = False, pc = 0, ro_data_addr = 0, program_end_pc = 0,
      loop_ro_data = replicate 192 False, loop_cur_depth = - 1, loop_stack_value = replicate 8 0,
      loop_stack_total_iterations = replicate 8 0, loop_stack_jump_amount = replicate 8 0,
      loop_stack_is_independent = replicate 8 False, loop_stack_name = replicate 8 0, jump_amount = 0,
      apu_in_loop_var = 0, apu_in_di = 0, apu_linear_formulas = replicate 8 (replicate 144 False),
      apu_address_registers = replicate 8 0, program_error = False, queue_we = False,
      queue_instr_type = INSTR_TYPE_LOAD_STORE, queue_copy_count = 0, queue_arith_instr = replicate 9 False,
      queue_ram_instr = replicate 3 False, queue_ld_st_instr = replicate 7 False, cache_addr = 0,
      main_mem_addr = 0, d_cache_addr = 0, d_main_mem_addr = 0\<rparr>"

definition small_env :: env where
  "small_env =
     \<lparr>execution_queue_not_empty = True, execution_queue_start_pc = 0, execution_queue_end_pc = 3,
      execution_queue_start_ro_data_addr = 0,
      icache = (\<lambda>p. uint_bits 16 (if p = 0 then 0xf000 else if p = 1 then 0x4080 else 0xc000)),
      prog_apu_formula = (\<lambda>r. replicate 162 False @ uint_bits 18 5 @ replicate 468 False),
      prog_loop_ro_data = (\<lambda>r. uint_bits 24 194 @ replicate 168 False)\<rparr>"

lemma small_env_loop: "loop_code small_env 0 1 True 0"
proof -
  have w: "instruction_type (uint_bits 16 0xf000) = INSTR_TYPE_LOOP" "uint_bits 16 0xf000 ! 3" "uint_bits 16 0xf000 ! 2"
    "bits_uint (slice 4 6 (uint_bits 16 0xf000)) = 0" "instruction_type (uint_bits 16 0x4080) = INSTR_TYPE_RAM"
    "instruction_type (uint_bits 16 0xc000) = INSTR_TYPE_LOOP" "\<not> uint_bits 16 0xc000 ! 3"
    by code_simp+
  show ?thesis by (simp add: loop_code_def small_env_def w Let_def)
qed

lemma small_env_program: "one_loop_program small_env 0 1 True 0 3"
proof -
  have l: "iteration_count (loopmux 0 (uint_bits 24 194 @ replicate 168 False) True True) = 3"
    "Decoder.jump_amount (loopmux 0 (uint_bits 24 194 @ replicate 168 False) True True) = 2"
    by code_simp+
  show ?thesis
    using small_env_loop l by (simp add: one_loop_program_def small_env_def Let_def)
qed

lemma small_env_units:
  "header_formulas small_env = (let z = replicate 144 False; q = [z, uint_bits 18 5 @ replicate 126 False, z, z] in q @ q)"
  "header_registers small_env = replicate 8 0"
proof -
  let ?f = "replicate 162 False @ uint_bits 18 5 @ replicate 468 False" and ?z = "replicate 144 False"
  have "map (\<lambda>i. load_linear i ?f) [0..<4] = [?z, uint_bits 18 5 @ replicate 126 False, ?z, ?z]"
    by code_simp
  then show "header_formulas small_env = (let z = replicate 144 False; q = [z, uint_bits 18 5 @ replicate 126 False, z, z] in q @ q)"
    by (simp only: header_formulas_def small_env_def env.simps Let_def)
  have "map (\<lambda>i. load_address i ?f) [0..<4] @ map (\<lambda>i. load_address i ?f) [0..<4] = replicate 8 0"
    by code_simp
  then show "header_registers small_env = replicate 8 0"
    by (simp only: header_registers_def small_env_def env.simps Let_def)
qed

lemma small_env_push:
  "body_push (header_formulas small_env) (shifted (header_formulas small_env) 0 v (header_registers small_env)) c
     (uint_bits 16 0x4080) = PushRam c [False, False, False] 0 0 (of_nat v * 5) 5"
proof -
  let ?raw = "uint_bits 16 0x4080" and ?F = "header_formulas small_env"
  have raw: "instruction_type ?raw = INSTR_TYPE_RAM"
    "slice 2 10 ?raw = [False, False, False, False, False, False, True, False, False]"
    "slice 7 8 (slice 2 10 ?raw) = [False, False]" "nat (bits_uint (slice 1 3 (slice 2 10 ?raw))) = 0"
    "nat (bits_uint (slice 4 6 (slice 2 10 ?raw))) = 1"
    by code_simp+
  have d: "daddr_di (uint_bits 18 5 @ replicate 126 False) 0 = 5" "daddr_di (replicate 144 False) 0 = 0"
    by code_simp+
  have "shifted ?F 0 v (header_registers small_env) ! 0 = 0"
    "shifted ?F 0 v (header_registers small_env) ! 1 = of_nat v * 5"
    by (simp_all add: shifted_def small_env_units Let_def d three)
  then show ?thesis
    by (simp add: body_push_def Let_def raw(1,2) raw(3-5) [unfolded raw(2) One_nat_def]
        small_env_units d three)
qed

theorem one_loop_pushes_witness:
  "fst (cu_run small_env 2 (True # replicate 8 False @ replicate 10 True @ replicate 15 False) (cu_reset cu_blank))
     = [PushRam 2 [False, False, False] 0 0 0 5, PushRam 1 [False, False, False] 0 0 10 5, PushProgEnd]"
proof -
  let ?stalls = "True # replicate 8 False @ replicate 10 True @ replicate 15 False"
  have "waiting (cu_reset cu_blank)" by (rule waiting_reset) (simp add: cu_blank_def)
  moreover have "(0::nat) < 3" "(3::nat) < 262144" "(2::nat) < 262144" "(0::nat) < 2" by simp_all
  moreover have "program_clocks 1 (rounds 3 (loop_step True 2)) \<le> length (filter Not ?stalls)" by code_simp
  ultimately have "fst (cu_run small_env (of_nat 2) ?stalls (cu_reset cu_blank))
       = concat (map (\<lambda>r. round_pushes small_env 0 1 True 0 3 2 (header_formulas small_env) (header_registers small_env)
                (r * loop_step True 2)) [0..<rounds 3 (loop_step True 2)]) @ [PushProgEnd]"
    using one_loop_pushes small_env_program by blast
  moreover have "rounds 3 (loop_step True 2) = 2" by code_simp
  moreover have "icache small_env 1 = uint_bits 16 0x4080" by (simp add: small_env_def)
  moreover have "[0..<2] = [0, 1 :: nat]" by code_simp
  ultimately show ?thesis by (simp add: round_pushes_def loop_step_def small_env_push)
qed

end
