(* ===== verification/NestedLoop.thy ===== *)
theory NestedLoop
  imports ControlLoop
begin

text \<open>
  A loop inside a loop.  The control unit keeps the last change of a loop variable in
  \<^verbatim>\<open>apu_in_di\<close>; starting a loop goes through \<^verbatim>\<open>UPDATE_APU\<close> as
  well and adds it once more.
\<close>

text \<open>Four clocks of a loop end that goes back, from any state.\<close>

definition goes_back :: "env \<Rightarrow> u18 \<Rightarrow> nat \<Rightarrow> nat \<Rightarrow> nat \<Rightarrow> cu \<Rightarrow> bool" where
  "goes_back E W p e d s \<longleftrightarrow>
     S s = DECODE \<and> pc s = of_nat p \<and> program_end_pc s = of_nat e \<and> e < 65536
     \<and> instruction_type (icache E (of_nat p)) = INSTR_TYPE_LOOP \<and> \<not> icache E (of_nat p) ! 3
     \<and> \<not> (cu_independent s \<and> last_chunk W s) \<and> loop_cur_remaining_iterations s \<noteq> 1
     \<and> loop_stack_jump_amount s ! LOOP_CUR_DEPTH s = of_nat d \<and> d < 64 \<and> d \<le> p + 1 \<and> p + 1 - d < e \<and> p < e"

definition current_step :: "u18 \<Rightarrow> cu \<Rightarrow> u18" where
  "current_step W s = (if cu_independent s then W else 1)"

definition current_variable :: "cu \<Rightarrow> nat" where
  "current_variable s = unat (loop_stack_name s ! LOOP_CUR_DEPTH s)"

lemma loop_end_back:
  assumes "goes_back E W p e d s"
  defines "t \<equiv> snd (cu_run E W (replicate 4 False) s)"
  shows "S t = DECODE \<and> pc t = of_nat (p + 1 - d) \<and> program_end_pc t = of_nat e \<and> jump_amount t = 0
    \<and> apu_in_di t = current_step W s \<and> unat (apu_in_loop_var t) = current_variable s
    \<and> apu_linear_formulas t = apu_linear_formulas s
    \<and> apu_address_registers t
        = update_apu (apu_linear_formulas s) (current_variable s) (current_step W s) (apu_address_registers s)"
proof -
  note g = assms(1) [unfolded goes_back_def]
  note clocks = cu_clk_def cu_step_def
  let ?q = "s\<lparr>S := INCREMENT_LOOP, execution_queue_read_enable := False\<rparr>"
  have s1: "cu_clk E W False s = ?q"
    using g by (simp add: clocks decode_step_def Let_def)
  let ?inc = "increment_loop W ?q"
  have s2: "cu_clk E W False ?q = ?inc" by (simp add: clocks)
  have inc: "S ?inc = UPDATE_APU" "pc ?inc = of_nat p" "program_end_pc ?inc = of_nat e" "jump_amount ?inc = of_nat d"
    "apu_in_di ?inc = current_step W s" "unat (apu_in_loop_var ?inc) = current_variable s"
    "apu_linear_formulas ?inc = apu_linear_formulas s" "apu_address_registers ?inc = apu_address_registers s"
    using g by (auto simp: increment_loop_def Let_def current_step_def current_variable_def)
  let ?apu = "update_apu_step (?inc\<lparr>execution_queue_read_enable := False\<rparr>)"
  have s3: "cu_clk E W False ?inc = ?apu" using inc(1) by (simp add: clocks)
  have s4: "cu_clk E W False ?apu = update_pc (?apu\<lparr>execution_queue_read_enable := False\<rparr>)"
    by (simp add: clocks update_apu_step_def)
  have t: "t = update_pc (?apu\<lparr>execution_queue_read_enable := False\<rparr>)"
    by (simp only: t_def three cu_run.simps Let_def snd_conv s1 s2 s3 s4)
  have "t = ?apu\<lparr>execution_queue_read_enable := False, queue_we := False, pc := of_nat (p + 1 - d), jump_amount := 0,
      S := if e \<le> p + 1 - d then FINISH_PROGRAM_1 else DECODE\<rparr>"
    unfolding t using g inc by (subst update_pc_eq [of _ p e d]) (simp_all add: update_apu_step_def)
  then show ?thesis
    using g inc by (simp add: update_apu_step_def)
qed

text \<open>Four clocks of a loop start, from any state.\<close>

lemma loop_start_registers:
  assumes "S s = DECODE" and "instruction_type (icache E (pc s)) = INSTR_TYPE_LOOP" and "icache E (pc s) ! 3"
  shows "apu_address_registers (snd (cu_run E W (replicate 4 False) s))
     = update_apu (apu_linear_formulas s) (unat (apu_in_loop_var s)) (apu_in_di s) (apu_address_registers s)"
proof -
  note clocks = cu_clk_def cu_step_def
  let ?q = "s\<lparr>S := START_NEW_LOOP, execution_queue_read_enable := False\<rparr>"
  have s1: "cu_clk E W False s = ?q"
    using assms by (simp add: clocks decode_step_def Let_def)
  let ?new = "start_new_loop E ?q"
  have s2: "cu_clk E W False ?q = ?new" by (simp add: clocks)
  let ?apu = "update_apu_step (?new\<lparr>execution_queue_read_enable := False\<rparr>)"
  have s3: "cu_clk E W False ?new = ?apu" by (simp add: clocks start_new_loop_def Let_def)
  have s4: "cu_clk E W False ?apu = update_pc (?apu\<lparr>execution_queue_read_enable := False\<rparr>)"
    by (simp add: clocks update_apu_step_def)
  show ?thesis
    unfolding three cu_run.simps Let_def snd_conv s1 s2 s3 s4
    by (simp add: update_pc_def Let_def update_apu_step_def start_new_loop_def)
qed

lemma update_apu_twice:
  "update_apu F v d (update_apu F v d R) = update_apu F v (2 * d) R"
  by (simp add: update_apu_def map2_map2_left algebra_simps)

text \<open>C33. A loop whose body starts with another loop moves the address units twice: each time such a loop
  goes back to its first instruction, the address registers that the inner loop starts from have moved
  by two steps of the loop's variable, not by one (one of these updates is the inner loop's start).\<close>

theorem nested_loop_moves_twice:
  assumes "goes_back E W p e d s"
    and "instruction_type (icache E (of_nat (p + 1 - d))) = INSTR_TYPE_LOOP" and "icache E (of_nat (p + 1 - d)) ! 3"
  shows "apu_address_registers (snd (cu_run E W (replicate 8 False) s))
     = update_apu (apu_linear_formulas s) (current_variable s) (2 * current_step W s) (apu_address_registers s)"
proof -
  let ?t = "snd (cu_run E W (replicate 4 False) s)"
  note t = loop_end_back [OF assms(1)]
  have "replicate 8 False = replicate (4 + 4) False" by simp
  then have "snd (cu_run E W (replicate 8 False) s) = snd (cu_run E W (replicate 4 False) ?t)"
    by (simp only: runs_add)
  then show ?thesis
    using t assms(2,3) loop_start_registers [of ?t E W] by (simp add: update_apu_twice)
qed

text \<open>At the end of the outer of two loops of two iterations, whose variable moves unit 0 by 2.\<close>

definition nested_env :: env where
  "nested_env = small_env\<lparr>icache := (\<lambda>p. uint_bits 16 (if p = 0 \<or> p = 1 then 0xd000 else if p = 2 then 0x2000 else 0xc000))\<rparr>"

definition outer_end :: cu where
  "outer_end =
     cu_blank\<lparr>S := DECODE, pc := 4, program_end_pc := 5, loop_cur_depth := 0,
       loop_stack_total_iterations := 2 # replicate 7 0, loop_stack_jump_amount := 4 # replicate 7 0,
       apu_linear_formulas := replicate 8 (uint_bits 18 2 @ replicate 126 False)\<rparr>"

theorem nested_loop_moves_twice_witness:
  "apu_address_registers outer_end ! 0 = 0
   \<and> apu_address_registers (snd (cu_run nested_env 16 (replicate 8 False) outer_end)) ! 0 = 4"
proof -
  have w: "instruction_type (uint_bits 16 0xc000) = INSTR_TYPE_LOOP" "\<not> uint_bits 16 0xc000 ! 3"
    "instruction_type (uint_bits 16 0xd000) = INSTR_TYPE_LOOP" "uint_bits 16 0xd000 ! 3"
    "daddr_di (uint_bits 18 2 @ replicate 126 False) 0 = 2"
    by code_simp+
  have depth: "LOOP_CUR_DEPTH outer_end = 0" by (simp add: LOOP_CUR_DEPTH_def outer_end_def)
  have "goes_back nested_env 16 4 5 4 outer_end"
    using depth w by (simp add: goes_back_def nested_env_def cu_independent_def loop_cur_remaining_iterations_def)
      (simp add: outer_end_def cu_blank_def)
  moreover have "current_variable outer_end = 0" "current_step 16 outer_end = 1"
    using depth by (simp_all add: current_variable_def current_step_def cu_independent_def)
      (simp_all add: outer_end_def cu_blank_def)
  ultimately show ?thesis
    using nested_loop_moves_twice [of nested_env 16 4 5 4 outer_end] w
    by (simp add: nested_env_def outer_end_def cu_blank_def update_apu_def)
qed

end
