(* ===== verification/Bitstring.thy ===== *)
theory Bitstring
  imports Prelude
begin

text \<open>
  The interface of the third-party package \<^verbatim>\<open>bitstring\<close>, which assembler.py and
  cherrysim.py call and whose code is not in the repository.  The package is a parameter of
  every definition that uses it; \<open>bitstring_lib\<close> states what its documentation promises
  of the three operations the code calls:
  \<^item> \<^verbatim>\<open>pack(fmt, *values)\<close> lays integer fields out one after the other, most
    significant bit first, and raises CreationError when a value does not fit its field;
  \<^item> \<^verbatim>\<open>ConstBitStream(data).unpack('n*uint:w')\<close> reads \<open>n\<close> consecutive unsigned
    fields of \<open>w\<close> bits from the front and raises ReadError when the data is too short;
  \<^item> \<^verbatim>\<open>.bytes\<close> raises InterpretError unless the length is a multiple of 8.

  A format string is the list of its tokens (\<^verbatim>\<open>'2*uint:1'\<close> is two tokens).  A
  BitArray is a list of booleans: \<^verbatim>\<open>append\<close> and \<^verbatim>\<open>+\<close> concatenate,
  \<^verbatim>\<open>len\<close> counts bits.  \<open>std_pack\<close>, \<open>std_unpack\<close> and \<open>std_bytes\<close> are one
  executable implementation of the interface, on which the witnesses evaluate.
\<close>

datatype token = UInt nat | SInt nat

fun token_width :: "token \<Rightarrow> nat" where
  "token_width (UInt w) = w"
| "token_width (SInt w) = w"

fun token_fits :: "token \<Rightarrow> int \<Rightarrow> bool" where
  "token_fits (UInt w) v \<longleftrightarrow> 0 \<le> v \<and> v < 2 ^ w"
| "token_fits (SInt w) v \<longleftrightarrow> - (2 ^ (w - 1)) \<le> v \<and> v < 2 ^ (w - 1)"

text \<open>The bits of a list of fields.\<close>

fun layout :: "token list \<Rightarrow> int list \<Rightarrow> bits" where
  "layout (t # ts) (v # vs) = uint_bits (token_width t) v @ layout ts vs"
| "layout _ _ = []"

type_synonym packer = "token list \<Rightarrow> int list \<Rightarrow> bits res"
type_synonym unpacker = "nat \<Rightarrow> nat \<Rightarrow> byte list \<Rightarrow> int list res"
type_synonym byte_view = "bits \<Rightarrow> byte list res"

locale bitstring_lib =
  fixes pack :: packer
    and unpack_uints :: unpacker
    and bytes_of :: byte_view
  assumes pack_fits: "list_all2 token_fits ts vs \<Longrightarrow> pack ts vs = Inr (layout ts vs)"
    and pack_misfit: "length ts = length vs \<Longrightarrow> \<not> list_all2 token_fits ts vs \<Longrightarrow>
           pack ts vs = Inl CreationError"
    and unpack_enough: "n * w \<le> 8 * length bs \<Longrightarrow>
           unpack_uints n w bs = Inr (map bits_uint (chunks w n (bytes_bits bs)))"
    and unpack_short: "8 * length bs < n * w \<Longrightarrow> unpack_uints n w bs = Inl ReadError"
    and bytes_whole: "8 dvd length xs \<Longrightarrow> bytes_of xs = Inr (bits_bytes xs)"
    and bytes_ragged: "\<not> 8 dvd length xs \<Longrightarrow> bytes_of xs = Inl InterpretError"
begin

lemma pack_eq:
  "length ts = length vs \<Longrightarrow>
     pack ts vs = (if list_all2 token_fits ts vs then Inr (layout ts vs) else Inl CreationError)"
  by (simp add: pack_fits pack_misfit)

lemma pack_Inr_iff:
  "length ts = length vs \<Longrightarrow>
     pack ts vs = Inr bs \<longleftrightarrow> list_all2 token_fits ts vs \<and> bs = layout ts vs"
  by (auto simp: pack_eq)

end

lemma length_layout:
  "length ts = length vs \<Longrightarrow> length (layout ts vs) = sum_list (map token_width ts)"
  by (induction ts vs rule: list_induct2) simp_all

lemma layout_append:
  "length ts = length vs \<Longrightarrow> layout (ts @ ts') (vs @ vs') = layout ts vs @ layout ts' vs'"
  by (induction ts vs rule: list_induct2) simp_all

lemma layout_replicate:
  "layout (replicate (length vs) (UInt w)) vs = concat (map (uint_bits w) vs)"
  "layout (replicate (length vs) (SInt w)) vs = concat (map (uint_bits w) vs)"
  by (induction vs) simp_all

lemma fits_replicate:
  "list_all2 token_fits (replicate (length vs) t) vs \<longleftrightarrow> list_all (token_fits t) vs"
  by (induction vs) simp_all

section \<open>An executable implementation of the interface\<close>

definition std_pack :: packer where
  "std_pack ts vs =
     (if list_all2 token_fits ts vs then Inr (layout ts vs) else Inl CreationError)"

definition std_unpack :: unpacker where
  "std_unpack n w bs =
     (if n * w \<le> 8 * length bs
      then Inr (map bits_uint (chunks w n (bytes_bits bs))) else Inl ReadError)"

definition std_bytes :: byte_view where
  "std_bytes xs = (if 8 dvd length xs then Inr (bits_bytes xs) else Inl InterpretError)"

interpretation std: bitstring_lib std_pack std_unpack std_bytes
  by unfold_locales (simp_all add: std_pack_def std_unpack_def std_bytes_def)

end
