(* ===== verification/TileCodec.thy ===== *)
theory TileCodec
  imports Bitstring
begin

text \<open>
  The tile codec of cherrysim.py: a tile is sixteen cherry floats, the upper 18 bits of an
  IEEE single, packed into 36 bytes.  A numpy array of float32 is the list of the bit patterns
  of its elements (32-bit words); numpy is a third-party package, so the two operations the
  codec uses on such an array are parameters described by \<open>numpy_lib\<close>:
  \<^verbatim>\<open>a.byteswap().tobytes()\<close> (big-endian bytes, on the little-endian hosts the script
  runs on) and \<^verbatim>\<open>np.frombuffer(b, dtype='>f4')\<close>.  The lemmas describe both directions by
  the list of the sixteen 18-bit lanes, and give the two round trips.
\<close>

type_synonym f32 = "32 word"

type_synonym f32_bytes = "f32 list \<Rightarrow> byte list"
type_synonym f32_frombuffer = "byte list \<Rightarrow> f32 list res"

definition f32_bits :: "f32 \<Rightarrow> bits" where
  "f32_bits x = uint_bits 32 (uint x)"

definition bits_f32 :: "bits \<Rightarrow> f32" where
  "bits_f32 bs = word_of_int (bits_uint bs)"

locale numpy_lib =
  fixes swapped_bytes :: f32_bytes
    and frombuffer :: f32_frombuffer
  assumes swapped_bytes: "bytes_bits (swapped_bytes xs) = concat (map f32_bits xs)"
    and frombuffer_whole: "bs \<noteq> [] \<Longrightarrow> 4 dvd length bs \<Longrightarrow>
           frombuffer bs = Inr (map bits_f32 (chunks 32 (length bs div 4) (bytes_bits bs)))"
    and frombuffer_ragged: "\<not> 4 dvd length bs \<Longrightarrow> frombuffer bs = Inl ValueError"

definition BYTES_PER_HEADER :: nat where
  "BYTES_PER_HEADER = 3"

definition BYTES_PER_BODY :: nat where
  "BYTES_PER_BODY = 36"

definition cherry_float_tile_to_numpy ::
    "unpacker \<Rightarrow> f32_frombuffer \<Rightarrow> byte list \<Rightarrow> f32 list res" where
  "cherry_float_tile_to_numpy unpack frombuf bytes_dat =
     assert_res (length bytes_dat = BYTES_PER_BODY)
      (bind_res (unpack 16 18 bytes_dat) (\<lambda>cherry_float_arr.
       let shift_amt = 32 - 18 in
       bind_res (map_res (\<lambda>f. int_to_bytes 4 (push_bit shift_amt f)) cherry_float_arr) (\<lambda>fp32_arr.
       assert_res (length fp32_arr = 16)
        (let fp32_bytes = concat fp32_arr in
         bind_res (frombuf fp32_bytes) (\<lambda>output_numpy.
         \<comment> \<open>\<^verbatim>\<open>assert(len(output_numpy == 16))\<close>: the length of a comparison\<close>
         assert_res (length (map (\<lambda>x. x = 16) output_numpy) \<noteq> 0) (Inr output_numpy))))))"

text \<open>\<^verbatim>\<open>[bs[i:i+4] for i in range(0, len(bs), 4)]\<close>; the last slice may be shorter.\<close>

definition slices4 :: "byte list \<Rightarrow> byte list list" where
  "slices4 bs = map (\<lambda>k. take 4 (drop (k * 4) bs)) [0..<(length bs + 3) div 4]"

definition numpy_to_cherry_float_tile ::
    "packer \<Rightarrow> byte_view \<Rightarrow> f32_bytes \<Rightarrow> f32 list \<Rightarrow> byte list res" where
  "numpy_to_cherry_float_tile pk bytes_of swapped np_array =
     assert_res (length np_array = 16)
      (let bytes_dat = swapped np_array;
           cherry_floats = map (\<lambda>s. drop_bit (32 - 18) (int_from_bytes s)) (slices4 bytes_dat) in
       assert_res (length cherry_floats = 16)
        (bind_res (pk (replicate 16 (UInt 18)) cherry_floats) (\<lambda>stream.
         bind_res (bytes_of stream) (\<lambda>ret.
         assert_res (length ret = BYTES_PER_BODY) (Inr ret)))))"

section \<open>Lanes\<close>

text \<open>The sixteen 18-bit lanes of a 36-byte tile, and back.\<close>

definition lanes :: "byte list \<Rightarrow> int list" where
  "lanes bs = map bits_uint (chunks 18 16 (bytes_bits bs))"

text \<open>Relu of an 18-bit lane, whose top bit is its sign.\<close>

definition relu_lane :: "int \<Rightarrow> int" where
  "relu_lane l = (if 2 ^ 17 \<le> l then 0 else l)"

definition lane_bytes :: "int list \<Rightarrow> byte list" where
  "lane_bytes ls = bits_bytes (concat (map (uint_bits 18) ls))"

definition lane_ok :: "int \<Rightarrow> bool" where
  "lane_ok l \<longleftrightarrow> 0 \<le> l \<and> l < 2 ^ 18"

lemma length_lane_bits: "length (concat (map (uint_bits 18) ls)) = 18 * length ls"
  by (induction ls) simp_all

lemma length_lane_bytes [simp, codec_simps]: "length ls = 16 \<Longrightarrow> length (lane_bytes ls) = 36"
  by (simp add: lane_bytes_def length_lane_bits)

lemma length_lanes [simp, codec_simps]: "length (lanes bs) = 16"
  by (simp add: lanes_def)

lemma lanes_ok: "length bs = 36 \<Longrightarrow> list_all lane_ok (lanes bs)"
proof -
  assume "length bs = 36"
  then have "lane_ok (bits_uint c)" if "c \<in> set (chunks 18 16 (bytes_bits bs))" for c
    using chunks_length [of "bytes_bits bs" 16 18 c] bits_uint_range [of c] that
    by (simp add: lane_ok_def)
  then show ?thesis
    by (auto simp: lanes_def list_all_iff)
qed

lemma lane_bytes_lanes: "length bs = 36 \<Longrightarrow> lane_bytes (lanes bs) = bs"
proof -
  assume len: "length bs = 36"
  let ?cs = "chunks 18 16 (bytes_bits bs)"
  have "(uint_bits 18 \<circ> bits_uint) c = c" if "c \<in> set ?cs" for c
    using chunks_length [of "bytes_bits bs" 16 18 c] len that by (simp add: uint_bits_bits_uint_len)
  then have "map (uint_bits 18 \<circ> bits_uint) ?cs = ?cs"
    by (rule map_idI)
  then show ?thesis
    using len concat_chunks [of "bytes_bits bs" 16 18] by (simp add: lane_bytes_def lanes_def)
qed

lemma lanes_lane_bytes:
  assumes "list_all lane_ok ls" and "length ls = 16"
  shows "lanes (lane_bytes ls) = ls"
proof -
  have "bytes_bits (lane_bytes ls) = concat (map (uint_bits 18) ls)"
    using assms by (simp add: lane_bytes_def bytes_bits_bits_bytes length_lane_bits)
  then have "lanes (lane_bytes ls) = map bits_uint (map (uint_bits 18) ls)"
    using assms chunks_concat_map [of ls "uint_bits 18" 18 16] by (simp add: lanes_def)
  also have "\<dots> = ls"
    using assms(1) by (auto simp: list_all_iff lane_ok_def bits_uint_small intro!: map_idI)
  finally show ?thesis .
qed

section \<open>Both directions by lanes\<close>

lemma bits_f32_f32_bits [simp, codec_simps]: "bits_f32 (f32_bits x) = x"
proof -
  have "take_bit 32 (uint x) = uint x"
    using uint_bounded [of x] by (simp add: take_bit_int_eq_self)
  then show ?thesis
    by (simp add: bits_f32_def f32_bits_def bits_uint_uint_bits)
qed

lemma length_f32_bits [simp, codec_simps]: "length (f32_bits x) = 32"
  by (simp add: f32_bits_def)

lemma length_f32s_bits: "length (concat (map f32_bits xs)) = 32 * length xs"
  by (induction xs) simp_all

lemma bytes_bits_take_drop:
  "bytes_bits (take n bs) = take (8 * n) (bytes_bits bs)"
  "bytes_bits (drop n bs) = drop (8 * n) (bytes_bits bs)"
proof -
  show "bytes_bits (take n bs) = take (8 * n) (bytes_bits bs)"
    by (induction bs arbitrary: n) (auto simp: take_Cons' diff_mult_distrib2)
  show "bytes_bits (drop n bs) = drop (8 * n) (bytes_bits bs)"
    by (induction bs arbitrary: n) (auto simp: drop_Cons' diff_mult_distrib2)
qed

definition lane_f32 :: "int \<Rightarrow> f32" where
  "lane_f32 l = word_of_int (push_bit 14 l)"

definition f32_lane :: "f32 \<Rightarrow> int" where
  "f32_lane x = drop_bit 14 (uint x)"

lemma f32_lane_ok [simp]: "lane_ok (f32_lane x)"
proof -
  have "uint x < 4294967296" using uint_bounded [of x] by simp
  then have "uint x div 16384 < 262144" by presburger
  then show ?thesis
    by (simp add: lane_ok_def f32_lane_def drop_bit_eq_div pos_imp_zdiv_nonneg_iff)
qed

lemma f32_lane_lane_f32: "lane_ok l \<Longrightarrow> f32_lane (lane_f32 l) = l"
proof -
  assume l: "lane_ok l"
  then have "take_bit 32 (push_bit 14 l) = push_bit 14 l"
    by (intro take_bit_int_eq_self) (simp_all add: lane_ok_def push_bit_eq_mult)
  moreover have "drop_bit 14 (push_bit 14 l) = l"
    by (simp add: push_bit_eq_mult drop_bit_eq_div)
  ultimately show ?thesis
    unfolding f32_lane_def lane_f32_def uint_word_of_int_eq by simp
qed

lemma lane_f32_f32_lane: "lane_f32 (f32_lane x) = push_bit 14 (drop_bit 14 x)"
  by (rule bit_word_eqI) (auto simp: f32_lane_def lane_f32_def bit_simps)


text \<open>\<^verbatim>\<open>(f << 14).to_bytes(4,'big')\<close> of a lane: the bytes of the single it stands for.\<close>

lemma lane_to_bytes:
  assumes "lane_ok l"
  shows "\<exists>bs. int_to_bytes 4 (push_bit 14 l) = Inr bs \<and> length bs = 4 \<and> bytes_bits bs = f32_bits (lane_f32 l)"
proof -
  have r: "0 \<le> push_bit 14 l" "push_bit 14 l < 256 ^ 4"
    using assms by (simp_all add: lane_ok_def push_bit_eq_mult)
  then obtain bs where bs: "int_to_bytes 4 (push_bit 14 l) = Inr bs"
    by (simp add: int_to_bytes_def)
  have "take_bit 32 (push_bit 14 l) = push_bit 14 l"
    using r by (intro take_bit_int_eq_self) simp_all
  then have "f32_bits (lane_f32 l) = uint_bits 32 (push_bit 14 l)"
    unfolding f32_bits_def lane_f32_def uint_word_of_int_eq by simp
  with int_to_bytes_bits [OF r bs] bs show ?thesis by simp
qed

lemma lanes_to_bytes:
  "list_all lane_ok ls \<Longrightarrow>
     \<exists>bss. map_res (\<lambda>f. int_to_bytes 4 (push_bit 14 f)) ls = Inr bss \<and> length bss = length ls
       \<and> length (concat bss) = 4 * length ls
       \<and> bytes_bits (concat bss) = concat (map (\<lambda>l. f32_bits (lane_f32 l)) ls)"
proof (induction ls)
  case Nil
  then show ?case by simp
next
  case (Cons l ls)
  from Cons.prems lane_to_bytes [of l] obtain bs where
    "int_to_bytes 4 (push_bit 14 l) = Inr bs" "length bs = 4" "bytes_bits bs = f32_bits (lane_f32 l)"
    by auto
  with Cons show ?case by auto
qed

lemma tile_to_numpy_eq:
  assumes "bitstring_lib pk un bv" and "numpy_lib sw fb"
  shows "cherry_float_tile_to_numpy un fb bs =
           (if length bs = 36 then Inr (map lane_f32 (lanes bs)) else Inl AssertionError)"
proof (cases "length bs = 36")
  case True
  let ?ls = "lanes bs"
  have un: "un 16 18 bs = Inr ?ls"
    using True bitstring_lib.unpack_enough [OF assms(1), of 16 18 bs] by (simp add: lanes_def)
  obtain bss where bss: "map_res (\<lambda>f. int_to_bytes 4 (push_bit 14 f)) ?ls = Inr bss"
      "length bss = 16" "length (concat bss) = 64"
      "bytes_bits (concat bss) = concat (map (f32_bits \<circ> lane_f32) ?ls)"
    using lanes_to_bytes [OF lanes_ok [OF True]] by (auto simp: o_def)
  have "chunks 32 16 (bytes_bits (concat bss)) = map (f32_bits \<circ> lane_f32) ?ls"
    using bss by (auto intro: chunks_concat_map)
  moreover have "concat bss \<noteq> []"
    using bss(3) by force
  ultimately have "fb (concat bss) = Inr (map lane_f32 ?ls)"
    using bss(3) numpy_lib.frombuffer_whole [OF assms(2), of "concat bss"] by (simp add: o_def)
  moreover have "?ls \<noteq> []"
    using length_lanes [of bs] by force
  ultimately show ?thesis
    using True un bss by (simp add: cherry_float_tile_to_numpy_def BYTES_PER_BODY_def Let_def)
next
  case False
  then show ?thesis
    by (simp add: cherry_float_tile_to_numpy_def BYTES_PER_BODY_def)
qed

lemma slices4_of_f32s:
  assumes "bytes_bits bs = concat (map f32_bits xs)"
  shows "map (\<lambda>s. drop_bit 14 (int_from_bytes s)) (slices4 bs) = map f32_lane xs"
proof (rule nth_equalityI)
  have len: "length bs = 4 * length xs"
    using assms length_bytes_bits [of bs] length_f32s_bits [of xs] by simp
  then show "length (map (\<lambda>s. drop_bit 14 (int_from_bytes s)) (slices4 bs)) = length (map f32_lane xs)"
    by (simp add: slices4_def)
  fix k assume "k < length (map (\<lambda>s. drop_bit 14 (int_from_bytes s)) (slices4 bs))"
  then have k: "k < length xs" using len by (simp add: slices4_def)
  have "bytes_bits (take 4 (drop (k * 4) bs)) = take 32 (drop (k * 32) (concat (map f32_bits xs)))"
    using assms by (simp add: bytes_bits_take_drop mult.left_commute)
  also have "\<dots> = f32_bits (xs ! k)"
    using k by (intro piece_concat_map) auto
  finally have "int_from_bytes (take 4 (drop (k * 4) bs)) = bits_uint (f32_bits (xs ! k))"
    by (metis bits_uint_bytes_bits)
  also have "\<dots> = uint (xs ! k)"
    using uint_bounded [of "xs ! k"] by (simp add: f32_bits_def bits_uint_small)
  finally show "map (\<lambda>s. drop_bit 14 (int_from_bytes s)) (slices4 bs) ! k = map f32_lane xs ! k"
    using k len by (simp add: slices4_def f32_lane_def)
qed

lemma numpy_to_tile_eq:
  assumes "bitstring_lib pk un bv" and "numpy_lib sw fb"
  shows "numpy_to_cherry_float_tile pk bv sw xs =
           (if length xs = 16 then Inr (lane_bytes (map f32_lane xs)) else Inl AssertionError)"
proof (cases "length xs = 16")
  case True
  let ?ls = "map f32_lane xs"
  have ls: "map (\<lambda>s. drop_bit 14 (int_from_bytes s)) (slices4 (sw xs)) = ?ls"
    using numpy_lib.swapped_bytes [OF assms(2)] by (rule slices4_of_f32s)
  have "list_all2 token_fits (replicate 16 (UInt 18)) ?ls"
    using fits_replicate [of ?ls "UInt 18"] True f32_lane_ok
    by (simp add: list_all_iff lane_ok_def)
  then have pk: "pk (replicate 16 (UInt 18)) ?ls = Inr (concat (map (uint_bits 18) ?ls))"
    using bitstring_lib.pack_fits [OF assms(1)] layout_replicate(1) [of ?ls 18] True by simp
  have bv: "bv (concat (map (uint_bits 18) ?ls)) = Inr (lane_bytes ?ls)"
    using bitstring_lib.bytes_whole [OF assms(1)] True length_lane_bits [of ?ls]
    by (simp add: lane_bytes_def)
  have len: "length (slices4 (sw xs)) = 16"
    using ls True by (metis length_map)
  show ?thesis
    using True pk bv ls len
    by (simp add: numpy_to_cherry_float_tile_def BYTES_PER_BODY_def Let_def)
next
  case False
  then show ?thesis
    by (simp add: numpy_to_cherry_float_tile_def)
qed

section \<open>An executable implementation of the numpy interface\<close>

definition std_swapped :: f32_bytes where
  "std_swapped xs = bits_bytes (concat (map f32_bits xs))"

definition std_frombuffer :: f32_frombuffer where
  "std_frombuffer bs =
     (if 4 dvd length bs
      then Inr (map bits_f32 (chunks 32 (length bs div 4) (bytes_bits bs))) else Inl ValueError)"

interpretation std_numpy: numpy_lib std_swapped std_frombuffer
  by unfold_locales
    (simp_all add: std_swapped_def std_frombuffer_def bytes_bits_bits_bytes length_f32s_bits)

section \<open>Properties\<close>

text \<open>C22. Packing a tile of sixteen singles and unpacking it again gives the sixteen values with
  their low 14 mantissa bits cleared: the tile keeps the sign, the exponent and the top nine
  mantissa bits.  An array of any other length fails the assertion.\<close>

theorem tile_pack_unpack:
  assumes "bitstring_lib pk un bv" and "numpy_lib sw fb"
  shows "bind_res (numpy_to_cherry_float_tile pk bv sw xs) (cherry_float_tile_to_numpy un fb) =
           (if length xs = 16 then Inr (map (\<lambda>x. push_bit 14 (drop_bit 14 x)) xs)
            else Inl AssertionError)"
  using lanes_lane_bytes [of "map f32_lane xs"]
  by (simp add: numpy_to_tile_eq [OF assms] tile_to_numpy_eq [OF assms] list_all_iff
      lane_f32_f32_lane)

theorem tile_pack_unpack_witness:
  "bind_res (numpy_to_cherry_float_tile std_pack std_bytes std_swapped (replicate 16 0x3F812345))
     (cherry_float_tile_to_numpy std_unpack std_frombuffer) = Inr (replicate 16 0x3F810000)"
  using tile_pack_unpack [OF std.bitstring_lib_axioms std_numpy.numpy_lib_axioms,
      of "replicate 16 0x3F812345"]
  by simp

text \<open>Unpacking 36 bytes from the device and packing them again gives the same 36 bytes, so
  nothing of a tile is lost in host memory; any other number of bytes fails the assertion.\<close>

theorem tile_unpack_pack:
  assumes "bitstring_lib pk un bv" and "numpy_lib sw fb"
  shows "bind_res (cherry_float_tile_to_numpy un fb bs) (numpy_to_cherry_float_tile pk bv sw) =
           (if length bs = 36 then Inr bs else Inl AssertionError)"
proof -
  have "map f32_lane (map lane_f32 (lanes bs)) = lanes bs" if "length bs = 36"
    using lanes_ok [OF that] by (auto simp: list_all_iff f32_lane_lane_f32 intro!: map_idI)
  then show ?thesis
    by (simp add: numpy_to_tile_eq [OF assms] tile_to_numpy_eq [OF assms] lane_bytes_lanes)
qed

theorem tile_unpack_pack_witness:
  "bind_res (cherry_float_tile_to_numpy std_unpack std_frombuffer (replicate 36 0xA5))
     (numpy_to_cherry_float_tile std_pack std_bytes std_swapped) = Inr (replicate 36 0xA5)"
  using tile_unpack_pack [OF std.bitstring_lib_axioms std_numpy.numpy_lib_axioms,
      of "replicate 36 0xA5"]
  by simp

end
