(* ===== verification/ByteSource.thy ===== *)
theory ByteSource
  imports Prelude
begin

text \<open>
  Reading an exact number of bytes from a stream that may return fewer.  \<open>byte_source\<close> is the
  interface of such a stream, as the documentation of \<^verbatim>\<open>socket.recv\<close> states it: a
  call returns at most as many bytes as asked for, they are the next ones of the stream, and it
  returns none only at the end of the stream.  \<open>recv_more\<close> is the reading loop of
  cherrysim.py, \<^verbatim>\<open>while len(b) < n: b += recv(n - len(b))\<close>; at the end of the stream it
  never returns, which is the value None of its \<open>option\<close> type.  The connected socket is the list
  of the pieces in which the peer's bytes will arrive.
\<close>

type_synonym 's reader = "nat \<Rightarrow> 's \<Rightarrow> byte list \<times> 's"

partial_function (option) recv_more ::
    "'s reader \<Rightarrow> nat \<Rightarrow> byte list \<Rightarrow> 's \<Rightarrow> (byte list \<times> 's) option" where
  "recv_more rcv n acc s =
     (if length acc < n
      then (case rcv (n - length acc) s of (b, s') \<Rightarrow> recv_more rcv n (acc @ b) s')
      else Some (acc, s))"

locale byte_source =
  fixes rcv :: "'s reader"
    and remaining :: "'s \<Rightarrow> byte list"
    and valid :: "'s \<Rightarrow> bool"
  assumes rcv_next: "valid s \<Longrightarrow> fst (rcv n s) @ remaining (snd (rcv n s)) = remaining s"
    and rcv_at_most: "valid s \<Longrightarrow> length (fst (rcv n s)) \<le> n"
    and rcv_some: "valid s \<Longrightarrow> 0 < n \<Longrightarrow> remaining s \<noteq> [] \<Longrightarrow> fst (rcv n s) \<noteq> []"
    and rcv_inv: "valid s \<Longrightarrow> valid (snd (rcv n s))"
begin

lemma rcv_end: "valid s \<Longrightarrow> remaining s = [] \<Longrightarrow> fst (rcv n s) = [] \<and> remaining (snd (rcv n s)) = []"
  using rcv_next [of s n] by simp

lemma recv_more_enough:
  assumes "valid s" and "length acc \<le> n" and "n \<le> length acc + length (remaining s)"
  shows "\<exists>s'. recv_more rcv n acc s = Some (acc @ take (n - length acc) (remaining s), s')
           \<and> remaining s' = drop (n - length acc) (remaining s) \<and> valid s'"
  using assms
proof (induction "n - length acc" arbitrary: acc s rule: less_induct)
  case less
  show ?case
  proof (cases "length acc < n")
    case False
    with less.prems show ?thesis by (simp add: recv_more.simps)
  next
    case True
    define m where "m = n - length acc"
    obtain b s' where r: "rcv m s = (b, s')" by force
    have b: "b @ remaining s' = remaining s" "length b \<le> m" "valid s'"
      using rcv_next [of s m] rcv_at_most [of s m] rcv_inv [of s m] less.prems(1) r by simp_all
    have "remaining s \<noteq> []"
      using less.prems(3) True by force
    then have "b \<noteq> []"
      using rcv_some [of s m] less.prems(1) True r by (simp add: m_def)
    with True b(2) have "n - length (acc @ b) < n - length acc" "length (acc @ b) \<le> n"
        "n \<le> length (acc @ b) + length (remaining s')"
      using less.prems(3) arg_cong [OF b(1), of length] by (auto simp: m_def) (use length_greater_0_conv [of b] in linarith)+
    from less.hyps [OF this(1) b(3) this(2,3)] obtain s'' where
      "recv_more rcv n (acc @ b) s' = Some ((acc @ b) @ take (n - length (acc @ b)) (remaining s'), s'')"
      "remaining s'' = drop (n - length (acc @ b)) (remaining s')" "valid s''" by blast
    moreover have "take m (remaining s) = b @ take (n - length (acc @ b)) (remaining s')"
      "drop m (remaining s) = drop (n - length (acc @ b)) (remaining s')"
      using b(1,2) by (simp_all add: m_def flip: b(1))
    ultimately show ?thesis
      using True r by (simp add: recv_more.simps [of rcv n acc] m_def)
  qed
qed

lemma recv_more_starved:
  assumes "recv_more rcv n acc s = Some r" and "valid s"
  shows "n \<le> length acc + length (remaining s)"
proof -
  have "rcv' = rcv \<longrightarrow> valid s \<longrightarrow> n \<le> length acc + length (remaining s)"
    if "recv_more rcv' n acc s = Some r" for rcv'
  proof (rule recv_more.raw_induct [where P = "\<lambda>rcv' n acc s r.
        rcv' = rcv \<longrightarrow> valid s \<longrightarrow> n \<le> length acc + length (remaining s)", OF _ that], intro impI)
    fix f rcv' n acc s r
    assume IH: "\<And>rcv' n acc s r. f rcv' n acc s = Some r \<Longrightarrow>
        rcv' = rcv \<longrightarrow> valid s \<longrightarrow> n \<le> length acc + length (remaining s)"
      and eq: "(if length acc < n then (case rcv' (n - length acc) s of (b, s') \<Rightarrow> f rcv' n (acc @ b) s')
        else Some (acc, s)) = Some r"
      and h: "rcv' = rcv" "valid s"
    show "n \<le> length acc + length (remaining s)"
    proof (cases "length acc < n")
      case True
      obtain b s' where r: "rcv (n - length acc) s = (b, s')" by force
      have "b @ remaining s' = remaining s" "valid s'"
        using rcv_next [OF h(2), of "n - length acc"] rcv_inv [OF h(2), of "n - length acc"] r
        by simp_all
      then show ?thesis
        using IH [of rcv n "acc @ b" s' _] eq True r h by (auto simp flip: \<open>b @ remaining s' = remaining s\<close>)
    qed simp
  qed
  with assms show ?thesis by blast
qed

text \<open>Together: the loop returns exactly when the stream still holds enough bytes, and what it
  returns and leaves depends on the stream's contents only, not on how \<open>rcv\<close> cuts it.\<close>

lemma recv_more_eq:
  assumes "valid s" and "length acc \<le> n"
  shows "map_option (\<lambda>(b, s'). (b, remaining s')) (recv_more rcv n acc s) =
           (if n \<le> length acc + length (remaining s)
            then Some (acc @ take (n - length acc) (remaining s), drop (n - length acc) (remaining s))
            else None)"
proof (cases "n \<le> length acc + length (remaining s)")
  case True
  then show ?thesis using recv_more_enough [OF assms True] by auto
next
  case False
  then have "recv_more rcv n acc s = None"
    using recv_more_starved [OF _ assms(1)] by (cases "recv_more rcv n acc s") auto
  with False show ?thesis by simp
qed

text \<open>A first \<open>rcv\<close> followed by the loop: the next \<open>n\<close> bytes of the stream, or no return.\<close>

lemma recv_exact:
  assumes "valid s" and "rcv n s = (b, s1)"
  shows "n \<le> length (remaining s) \<Longrightarrow>
           \<exists>s'. recv_more rcv n b s1 = Some (take n (remaining s), s')
             \<and> remaining s' = drop n (remaining s) \<and> valid s'"
    and "length (remaining s) < n \<Longrightarrow> recv_more rcv n b s1 = None"
proof -
  have r: "remaining s = b @ remaining s1" "length b \<le> n" "valid s1"
    using rcv_next [OF assms(1), of n] rcv_at_most [OF assms(1), of n] rcv_inv [OF assms(1), of n]
      assms(2) by simp_all
  show "n \<le> length (remaining s) \<Longrightarrow>
           \<exists>s'. recv_more rcv n b s1 = Some (take n (remaining s), s')
             \<and> remaining s' = drop n (remaining s) \<and> valid s'"
    using recv_more_enough [OF r(3,2)] r(1,2) by simp
  show "length (remaining s) < n \<Longrightarrow> recv_more rcv n b s1 = None"
    using recv_more_starved [OF _ r(3), of n b] r(1) by (cases "recv_more rcv n b s1") fastforce+
qed

lemma rcv_empty:
  assumes "valid s" and "0 < n" and "rcv n s = ([], s1)"
  shows "remaining s = [] \<and> remaining s1 = [] \<and> valid s1"
  using rcv_some [OF assms(1,2)] rcv_next [OF assms(1), of n] rcv_inv [OF assms(1), of n] assms(3)
  by auto

end

section \<open>The connected socket\<close>

text \<open>The pieces still to arrive, none of them empty; the peer has closed after the last.
  \<^verbatim>\<open>sock.recv(n)\<close> takes from the first piece only.\<close>

type_synonym sock = "byte list list"

fun sock_recv :: "sock reader" where
  "sock_recv n [] = ([], [])"
| "sock_recv n (c # cs) = (if length c \<le> n then (c, cs) else (take n c, drop n c # cs))"

definition sock_ok :: "sock \<Rightarrow> bool" where
  "sock_ok s \<longleftrightarrow> [] \<notin> set s"

interpretation tcp: byte_source sock_recv concat sock_ok
proof
  fix s :: sock and n
  show "sock_ok s \<Longrightarrow> fst (sock_recv n s) @ concat (snd (sock_recv n s)) = concat s"
    by (cases s) (auto simp: append.assoc [symmetric] simp del: append.assoc)
  show "sock_ok s \<Longrightarrow> length (fst (sock_recv n s)) \<le> n"
    by (cases s) auto
  show "sock_ok s \<Longrightarrow> 0 < n \<Longrightarrow> concat s \<noteq> [] \<Longrightarrow> fst (sock_recv n s) \<noteq> []"
    by (cases s) (auto simp: sock_ok_def)
  show "sock_ok s \<Longrightarrow> sock_ok (snd (sock_recv n s))"
    by (cases s) (auto simp: sock_ok_def)
qed

end
