(* ===== verification/Host.thy ===== *)
theory Host
  imports TileCodec ByteSource
begin

text \<open>
  The host side of cherrysim.py, \<^verbatim>\<open>class PinnedDeviceMemorySpace\<close>: the memory the host
  keeps for the device, the packets that upload and start a program, and the loop that answers
  the device's read and write requests.  The state is the memory, 128 rows of sixteen singles,
  and the bytes written to the socket.  \<open>serve\<close> is the loop \<^verbatim>\<open>while True\<close> of
  \<^verbatim>\<open>start\<close>: None when it never returns, else how it ended.  \<open>serve_flat\<close> is the abstract
  specification, a parser of the device's bytes in one piece, and \<open>serve_refines\<close> shows that the
  loop implements it however the network cuts the bytes.  Printing is left out;
  \<^verbatim>\<open>sendall\<close> is taken to succeed.
\<close>

section \<open>Third-party operations\<close>

record libs =
  lib_pack :: packer
  lib_unpack :: unpacker
  lib_bytes :: byte_view
  lib_swapped :: f32_bytes
  lib_frombuffer :: f32_frombuffer

definition libs_ok :: "libs \<Rightarrow> bool" where
  "libs_ok L \<longleftrightarrow> bitstring_lib (lib_pack L) (lib_unpack L) (lib_bytes L)
      \<and> numpy_lib (lib_swapped L) (lib_frombuffer L)"

definition std_libs :: libs where
  "std_libs = \<lparr>lib_pack = std_pack, lib_unpack = std_unpack, lib_bytes = std_bytes,
               lib_swapped = std_swapped, lib_frombuffer = std_frombuffer\<rparr>"

lemma libs_ok_std: "libs_ok std_libs"
  using std.bitstring_lib_axioms std_numpy.numpy_lib_axioms by (simp add: libs_ok_def std_libs_def)

abbreviation unpack_tile :: "libs \<Rightarrow> byte list \<Rightarrow> f32 list res" where
  "unpack_tile L \<equiv> cherry_float_tile_to_numpy (lib_unpack L) (lib_frombuffer L)"

abbreviation pack_tile :: "libs \<Rightarrow> f32 list \<Rightarrow> byte list res" where
  "pack_tile L \<equiv> numpy_to_cherry_float_tile (lib_pack L) (lib_bytes L) (lib_swapped L)"

lemma unpack_tile_eq:
  "libs_ok L \<Longrightarrow> unpack_tile L bs =
     (if length bs = 36 then Inr (map lane_f32 (lanes bs)) else Inl AssertionError)"
  unfolding libs_ok_def by (blast intro: tile_to_numpy_eq)

lemma pack_tile_eq:
  "libs_ok L \<Longrightarrow> pack_tile L xs =
     (if length xs = 16 then Inr (lane_bytes (map f32_lane xs)) else Inl AssertionError)"
  unfolding libs_ok_def by (blast intro: numpy_to_tile_eq)

section \<open>State and initial memory\<close>

record host =
  pinned_mem :: "f32 list list"
  sent :: "byte list"

text \<open>\<^verbatim>\<open>range(a, b, c)\<close> for a positive step.\<close>

definition py_range :: "nat \<Rightarrow> nat \<Rightarrow> nat \<Rightarrow> nat list" where
  "py_range a b c = map (\<lambda>k. a + k * c) [0..<(b - a + c - 1) div c]"

text \<open>The loop of \<^verbatim>\<open>__init__\<close>.  The float \<open>a\<close> takes whole values only, so it is an integer
  here; \<open>as_f32\<close> is numpy's conversion of such a value to float32.\<close>

fun fill_rows :: "(int \<Rightarrow> f32) \<Rightarrow> nat list \<Rightarrow> int \<Rightarrow> f32 list list \<Rightarrow> f32 list list" where
  "fill_rows as_f32 [] a mem = mem"
| "fill_rows as_f32 (i # is) a mem =
     (let a' = a + 1 in
      fill_rows as_f32 is a'
        (mem[i := replicate (4 * 4) (as_f32 (if \<not> i mod 16 = 0 then a' else - a'))]))"

definition initial_mem :: "(int \<Rightarrow> f32) \<Rightarrow> f32 list list" where
  "initial_mem as_f32 =
     fill_rows as_f32 (py_range 16 128 4) 120 (replicate 128 (replicate (4 * 4) 0))"

section \<open>Uploading and starting a program\<close>

definition relu_fast_prog_instructions :: "byte list" where
  "relu_fast_prog_instructions =
     [0xf0, 0x00, 0x40, 0x80, 0x20, 0x00, 0x80, 0x00, 0x01, 0x80, 0x61, 0x20, 0xc0, 0x00]"

text \<open>The packet of \<^verbatim>\<open>upload_prog\<close> for any instruction bytes; the method sends it for the
  relu program.  The parameter \<^verbatim>\<open>ro_data_addr\<close> is not used.\<close>

definition upload_packet :: "byte list \<Rightarrow> int \<Rightarrow> byte list res" where
  "upload_packet instructions instr_start_addr =
     (let packet_type = 1;
          packet_length = int (length instructions) div 2 in
      bind_res (int_to_bytes 1 (packet_type + push_bit 2 packet_length)) (\<lambda>header.
      bind_res (int_to_bytes 2 instr_start_addr) (\<lambda>addr.
        Inr (header @ addr @ instructions))))"

definition start_packet :: "int \<Rightarrow> int \<Rightarrow> int \<Rightarrow> byte list res" where
  "start_packet ro_data_addr instr_start_addr instr_end_addr =
     (let packet_type = 2 in
      bind_res (int_to_bytes 1 packet_type) (\<lambda>header.
      bind_res (int_to_bytes 1 ro_data_addr) (\<lambda>ro.
      bind_res (int_to_bytes 2 instr_start_addr) (\<lambda>s.
      bind_res (int_to_bytes 2 instr_end_addr) (\<lambda>e.
        Inr (header @ ro @ s @ e))))))"

definition sendall :: "byte list \<Rightarrow> host \<Rightarrow> host" where
  "sendall bs h = h\<lparr>sent := sent h @ bs\<rparr>"

definition upload_prog :: "int \<Rightarrow> int \<Rightarrow> host \<Rightarrow> host res" where
  "upload_prog ro_data_addr instr_start_addr h =
     bind_res (upload_packet relu_fast_prog_instructions instr_start_addr)
       (\<lambda>packet. Inr (sendall packet h))"

definition start_prog :: "int \<Rightarrow> int \<Rightarrow> int \<Rightarrow> host \<Rightarrow> host res" where
  "start_prog ro_data_addr instr_start_addr instr_end_addr h =
     bind_res (start_packet ro_data_addr instr_start_addr instr_end_addr)
       (\<lambda>packet. Inr (sendall packet h))"

section \<open>Serving the device\<close>

text \<open>How the loop ends: \<^verbatim>\<open>exit(0)\<close> or an exception.\<close>

datatype ending = Exited | Raised py_error

datatype 's iteration = Continue host 's | Stop ending host 's

text \<open>A numpy row read or written; an index beyond the last row raises IndexError.\<close>

definition get_row :: "f32 list list \<Rightarrow> int \<Rightarrow> f32 list res" where
  "get_row mem i = (if 0 \<le> i \<and> i < int (length mem) then Inr (mem ! nat i) else Inl IndexError)"

definition set_row :: "f32 list list \<Rightarrow> int \<Rightarrow> f32 list \<Rightarrow> f32 list list res" where
  "set_row mem i row =
     (if 0 \<le> i \<and> i < int (length mem) then Inr (mem[nat i := row]) else Inl IndexError)"

definition finish :: "host \<Rightarrow> 's \<Rightarrow> host res \<Rightarrow> 's iteration" where
  "finish h s r = (case r of Inl e \<Rightarrow> Stop (Raised e) h s | Inr h' \<Rightarrow> Continue h' s)"

definition handle_write :: "libs \<Rightarrow> int \<Rightarrow> byte list \<Rightarrow> host \<Rightarrow> host res" where
  "handle_write L host_addr body_bytes h =
     assert_res (length body_bytes = BYTES_PER_BODY)
      (bind_res (unpack_tile L body_bytes) (\<lambda>output_numpy.
       bind_res (set_row (pinned_mem h) host_addr output_numpy) (\<lambda>mem.
         Inr (h\<lparr>pinned_mem := mem\<rparr>))))"

definition handle_read :: "libs \<Rightarrow> int \<Rightarrow> host \<Rightarrow> host res" where
  "handle_read L host_addr h =
     bind_res (get_row (pinned_mem h) host_addr) (\<lambda>np_dat.
     bind_res (pack_tile L np_dat) (\<lambda>bytes_dat.
     bind_res (int_to_bytes 1 3) (\<lambda>response_type.
       Inr (sendall (response_type @ bytes_dat) h))))"

text \<open>One pass through the loop body; None when one of the reading loops never returns.\<close>

definition serve_iteration :: "libs \<Rightarrow> 's reader \<Rightarrow> host \<Rightarrow> 's \<Rightarrow> 's iteration option" where
  "serve_iteration L rcv h s =
     (case rcv BYTES_PER_HEADER s of (header_bytes, s) \<Rightarrow>
      if length header_bytes = 0 then Some (Continue h s)
      else case recv_more rcv BYTES_PER_HEADER header_bytes s of
        None \<Rightarrow> None
      | Some (header_bytes, s) \<Rightarrow>
          if length header_bytes \<noteq> BYTES_PER_HEADER then Some (Stop (Raised AssertionError) h s)
          else let host_addr = int_from_bytes (drop 1 header_bytes);
                   packet_type = uint (header_bytes ! 0) in
            if packet_type = 0 then Some (Stop (Raised AssertionError) h s)
            else if packet_type = 3 then
              (case rcv BYTES_PER_BODY s of (body_bytes, s) \<Rightarrow>
               case recv_more rcv BYTES_PER_BODY body_bytes s of
                 None \<Rightarrow> None
               | Some (body_bytes, s) \<Rightarrow> Some (finish h s (handle_write L host_addr body_bytes h)))
            else if packet_type = 2 then Some (finish h s (handle_read L host_addr h))
            else if packet_type = 4 then Some (Stop Exited h s)
            else Some (Continue h s))"

partial_function (option) serve ::
    "libs \<Rightarrow> 's reader \<Rightarrow> host \<Rightarrow> 's \<Rightarrow> (ending \<times> host \<times> 's) option" where
  "serve L rcv h s =
     (case serve_iteration L rcv h s of
        None \<Rightarrow> None
      | Some (Continue h' s') \<Rightarrow> serve L rcv h' s'
      | Some (Stop e h' s') \<Rightarrow> Some (e, h', s'))"

text \<open>The whole method \<^verbatim>\<open>start\<close>.\<close>

definition start :: "libs \<Rightarrow> 's reader \<Rightarrow> host \<Rightarrow> 's \<Rightarrow> (ending \<times> host \<times> 's) option" where
  "start L rcv h s =
     (case upload_prog 0 6 h of
        Inl e \<Rightarrow> Some (Raised e, h, s)
      | Inr h \<Rightarrow> (case start_prog 0 6 13 h of
          Inl e \<Rightarrow> Some (Raised e, h, s)
        | Inr h \<Rightarrow> serve L rcv h s))"

section \<open>The abstract specification\<close>

text \<open>The device's bytes in one piece: requests are three bytes, a write carries 36 more.\<close>

definition write_row :: "int \<Rightarrow> byte list \<Rightarrow> host \<Rightarrow> host res" where
  "write_row addr body h =
     (if addr < int (length (pinned_mem h))
      then Inr (h\<lparr>pinned_mem := (pinned_mem h)[nat addr := map lane_f32 (lanes body)]\<rparr>)
      else Inl IndexError)"

definition read_row :: "int \<Rightarrow> host \<Rightarrow> host res" where
  "read_row addr h =
     (if addr < int (length (pinned_mem h))
      then Inr (h\<lparr>sent := sent h @ 3 # lane_bytes (map f32_lane (pinned_mem h ! nat addr))\<rparr>)
      else Inl IndexError)"

function serve_flat :: "host \<Rightarrow> byte list \<Rightarrow> (ending \<times> host \<times> byte list) option" where
  "serve_flat h bs =
     (if length bs < 3 then None
      else let addr = int_from_bytes (take 2 (drop 1 bs)); rest = drop 3 bs; kind = uint (bs ! 0) in
        if kind = 0 then Some (Raised AssertionError, h, rest)
        else if kind = 3 then
          (if length rest < 36 then None
           else case write_row addr (take 36 rest) h of
                  Inl e \<Rightarrow> Some (Raised e, h, drop 36 rest)
                | Inr h' \<Rightarrow> serve_flat h' (drop 36 rest))
        else if kind = 2 then
          (case read_row addr h of
             Inl e \<Rightarrow> Some (Raised e, h, rest)
           | Inr h' \<Rightarrow> serve_flat h' rest)
        else if kind = 4 then Some (Exited, h, rest)
        else serve_flat h rest)"
  by pat_completeness auto
termination
  by (relation "measure (length \<circ> snd)") auto

declare serve_flat.simps [simp del]


section \<open>The loop implements the specification\<close>

definition rows_ok :: "host \<Rightarrow> bool" where
  "rows_ok h \<longleftrightarrow> (\<forall>row\<in>set (pinned_mem h). length row = 16)"

lemma int_from_bytes_nonneg [simp]: "0 \<le> int_from_bytes bs"
  using int_from_bytes_range [of bs] by simp

lemma one_byte_3: "int_to_bytes (Suc 0) 3 = Inr [3]"
  by (simp add: int_to_bytes_def)

lemma write_row_rows_ok: "rows_ok h \<Longrightarrow> write_row a b h = Inr h' \<Longrightarrow> rows_ok h'"
  by (auto simp: write_row_def rows_ok_def dest!: set_update_subset_insert [THEN subsetD] split: if_splits)

lemma read_row_rows_ok: "rows_ok h \<Longrightarrow> read_row a h = Inr h' \<Longrightarrow> rows_ok h'"
  by (auto simp: read_row_def rows_ok_def split: if_splits)

lemma handle_write_eq:
  "libs_ok L \<Longrightarrow> length body = 36 \<Longrightarrow> 0 \<le> a \<Longrightarrow> handle_write L a body h = write_row a body h"
  by (simp add: handle_write_def write_row_def unpack_tile_eq set_row_def BYTES_PER_BODY_def)

lemma handle_read_eq:
  "libs_ok L \<Longrightarrow> rows_ok h \<Longrightarrow> 0 \<le> a \<Longrightarrow> handle_read L a h = read_row a h"
  by (auto simp: handle_read_def read_row_def get_row_def pack_tile_eq rows_ok_def sendall_def
      one_byte_3)

text \<open>One pass through the loop body against the specification: it either makes the same progress
  on the flat bytes, or stops as the specification does, or never returns.\<close>

definition iteration_matches ::
    "('s \<Rightarrow> byte list) \<Rightarrow> ('s \<Rightarrow> bool) \<Rightarrow> host \<Rightarrow> 's \<Rightarrow> 's iteration option \<Rightarrow> bool" where
  "iteration_matches remaining valid h s it =
     (case it of
        None \<Rightarrow> serve_flat h (remaining s) = None
      | Some (Stop e h' s') \<Rightarrow> serve_flat h (remaining s) = Some (e, h', remaining s')
      | Some (Continue h' s') \<Rightarrow>
          serve_flat h (remaining s) = serve_flat h' (remaining s') \<and> rows_ok h' \<and> valid s'
          \<and> (remaining s = [] \<or> length (remaining s') < length (remaining s)))"

context byte_source
begin

lemma serve_iteration_matches:
  assumes L: "libs_ok L" and h: "rows_ok h" and s: "valid s"
  shows "iteration_matches remaining valid h s (serve_iteration L rcv h s)"
proof -
  obtain b s1 where r: "rcv 3 s = (b, s1)" by force
  note exact = recv_exact [OF s r]
  consider (stuck) "b = []" | (short) "b \<noteq> []" "length (remaining s) < 3"
    | (header) "b \<noteq> []" "3 \<le> length (remaining s)" by linarith
  then show ?thesis
  proof cases
    case stuck
    with rcv_empty [OF s _ r [unfolded stuck]] h r show ?thesis
      by (simp add: iteration_matches_def serve_iteration_def BYTES_PER_HEADER_def)
  next
    case short
    with exact(2) r show ?thesis
      by (simp add: iteration_matches_def serve_iteration_def BYTES_PER_HEADER_def serve_flat.simps)
  next
    case header
    then obtain s2 where s2: "recv_more rcv 3 b s1 = Some (take 3 (remaining s), s2)"
        "remaining s2 = drop 3 (remaining s)" "valid s2" using exact(1) by blast
    obtain c s3 where r2: "rcv 36 s2 = (c, s3)" by force
    note body = recv_exact [OF s2(3) r2]
    define addr where "addr = int_from_bytes (take 2 (drop 1 (remaining s)))"
    define kind where "kind = uint (remaining s ! 0)"
    let ?rest = "remaining s2"
    have flat: "serve_flat h (remaining s) = (
        if kind = 0 then Some (Raised AssertionError, h, ?rest)
        else if kind = 3 then
          (if length ?rest < 36 then None
           else case write_row addr (take 36 ?rest) h of
                  Inl e \<Rightarrow> Some (Raised e, h, drop 36 ?rest)
                | Inr h' \<Rightarrow> serve_flat h' (drop 36 ?rest))
        else if kind = 2 then
          (case read_row addr h of
             Inl e \<Rightarrow> Some (Raised e, h, ?rest)
           | Inr h' \<Rightarrow> serve_flat h' ?rest)
        else if kind = 4 then Some (Exited, h, ?rest)
        else serve_flat h ?rest)"
      using header(2) unfolding addr_def kind_def s2(2) by (subst serve_flat.simps) (simp add: Let_def)
    have it: "serve_iteration L rcv h s = (
        if kind = 0 then Some (Stop (Raised AssertionError) h s2)
        else if kind = 3 then
          (case recv_more rcv 36 c s3 of
             None \<Rightarrow> None
           | Some (body, s4) \<Rightarrow> Some (finish h s4 (handle_write L addr body h)))
        else if kind = 2 then Some (finish h s2 (handle_read L addr h))
        else if kind = 4 then Some (Stop Exited h s2)
        else Some (Continue h s2))"
      using header r s2(1) r2 unfolding addr_def kind_def One_nat_def
      by (simp add: serve_iteration_def BYTES_PER_HEADER_def BYTES_PER_BODY_def Let_def drop_take)
    have less: "length ?rest < length (remaining s)"
      using header(2) s2(2) by simp
    have addr: "0 \<le> addr" by (simp add: addr_def)
    consider (bad) "kind = 0" | (wr) "kind = 3" "36 \<le> length ?rest" | (cut) "kind = 3" "length ?rest < 36"
      | (rd) "kind = 2" | (quit) "kind = 4" | (other) "kind \<notin> {0, 2, 3, 4}" by fastforce
    then show ?thesis
    proof cases
      case wr
      then obtain s4 where s4: "recv_more rcv 36 c s3 = Some (take 36 ?rest, s4)"
          "remaining s4 = drop 36 ?rest" "valid s4" using body(1) by blast
      have "length (remaining s4) < length (remaining s)" using less s4(2) by simp
      then show ?thesis
        using wr s4 L h addr write_row_rows_ok [OF h, of addr "take 36 ?rest"]
        by (cases "write_row addr (take 36 ?rest) h")
          (simp_all add: iteration_matches_def flat it finish_def handle_write_eq)
    next
      case rd
      then show ?thesis
        using less s2(3) L h addr read_row_rows_ok [OF h, of addr]
        by (cases "read_row addr h") (simp_all add: iteration_matches_def flat it finish_def handle_read_eq)
    qed (use body(2) less s2(3) h in \<open>simp_all add: iteration_matches_def flat it\<close>)
  qed
qed

text \<open>If the specification gives an outcome, so does the loop.\<close>

lemma serve_complete:
  assumes L: "libs_ok L"
  shows "serve_flat h (remaining s) = Some (e, h', rest) \<Longrightarrow> rows_ok h \<Longrightarrow> valid s \<Longrightarrow>
     \<exists>s'. serve L rcv h s = Some (e, h', s') \<and> remaining s' = rest"
proof (induction "length (remaining s)" arbitrary: h s rule: less_induct)
  case less
  have ne: "remaining s \<noteq> []"
    using less.prems(1) by (auto simp: serve_flat.simps)
  have m: "iteration_matches remaining valid h s (serve_iteration L rcv h s)"
    using serve_iteration_matches [OF L less.prems(2,3)] .
  show ?case
  proof (cases "serve_iteration L rcv h s")
    case None
    with m less.prems(1) show ?thesis by (simp add: iteration_matches_def)
  next
    case (Some it)
    show ?thesis
    proof (cases it)
      case (Continue h1 s1)
      with m Some ne less.prems(1) have "serve_flat h1 (remaining s1) = Some (e, h', rest)"
        "rows_ok h1" "valid s1" "length (remaining s1) < length (remaining s)"
        by (simp_all add: iteration_matches_def)
      with less.hyps [of s1 h1] Some Continue show ?thesis
        by (simp add: serve.simps [of L rcv h])
    next
      case (Stop e1 h1 s1)
      with m Some less.prems(1) show ?thesis
        by (simp add: iteration_matches_def serve.simps [of L rcv h])
    qed
  qed
qed

text \<open>If the loop ends, the specification gives that outcome.\<close>

lemma serve_sound:
  assumes ret: "serve L rcv h s = Some r" and "libs_ok L" and "rows_ok h" and "valid s"
  shows "serve_flat h (remaining s) = Some (fst r, fst (snd r), remaining (snd (snd r)))"
proof -
  let ?P = "\<lambda>L' rcv' h s r. L' = L \<longrightarrow> rcv' = rcv \<longrightarrow> rows_ok h \<longrightarrow> valid s \<longrightarrow>
      serve_flat h (remaining s) = Some (fst r, fst (snd r), remaining (snd (snd r)))"
  have "?P L rcv h s r"
  proof (rule serve.raw_induct [where P = ?P, OF _ ret], intro impI)
    fix f L' rcv' h s r
    assume IH: "\<And>L' rcv' h s r. f L' rcv' h s = Some r \<Longrightarrow> ?P L' rcv' h s r"
      and eq: "(case serve_iteration L' rcv' h s of None \<Rightarrow> None
          | Some (Continue h' s') \<Rightarrow> f L' rcv' h' s' | Some (Stop e h' s') \<Rightarrow> Some (e, h', s')) = Some r"
      and h: "L' = L" "rcv' = rcv" "rows_ok h" "valid s"
    have m: "iteration_matches remaining valid h s (serve_iteration L rcv h s)"
      using serve_iteration_matches [OF assms(2) h(3,4)] .
    show "serve_flat h (remaining s) = Some (fst r, fst (snd r), remaining (snd (snd r)))"
      using eq m IH h
      by (auto simp: iteration_matches_def split: option.splits iteration.splits)
  qed
  with assms show ?thesis by blast
qed

lemma serve_eq:
  assumes "libs_ok L" and "rows_ok h" and "valid s"
  shows "map_option (\<lambda>(e, h', s'). (e, h', remaining s')) (serve L rcv h s) = serve_flat h (remaining s)"
proof (cases "serve L rcv h s")
  case None
  then show ?thesis
    using serve_complete [OF assms(1) _ assms(2,3)]
    by (cases "serve_flat h (remaining s)") fastforce+
next
  case (Some r)
  then show ?thesis
    using serve_sound [OF Some assms] by (cases r) simp
qed

end


section \<open>Sessions\<close>

text \<open>The requests of a device session and their bytes on the wire: a kind byte and the address,
  most significant byte first; a write is followed by the tile; kinds 1 and 5 to 255 are ignored.\<close>

datatype request = ReadReq "16 word" | WriteReq "16 word" "byte list" | OtherReq byte "16 word"

definition addr_bytes :: "16 word \<Rightarrow> byte list" where
  "addr_bytes a = [ucast (drop_bit 8 a), ucast a]"

fun request_bytes :: "request \<Rightarrow> byte list" where
  "request_bytes (ReadReq a) = 2 # addr_bytes a"
| "request_bytes (WriteReq a body) = 3 # addr_bytes a @ body"
| "request_bytes (OtherReq k a) = k # addr_bytes a"

definition end_bytes :: "byte list" where
  "end_bytes = [4, 0, 0]"

fun request_ok :: "host \<Rightarrow> request \<Rightarrow> bool" where
  "request_ok h (ReadReq a) \<longleftrightarrow> unat a < length (pinned_mem h)"
| "request_ok h (WriteReq a body) \<longleftrightarrow> unat a < length (pinned_mem h) \<and> length body = 36"
| "request_ok h (OtherReq k a) \<longleftrightarrow> k \<notin> {0, 2, 3, 4}"

text \<open>What each request does to the host.\<close>

fun apply_request :: "request \<Rightarrow> host \<Rightarrow> host" where
  "apply_request (ReadReq a) h =
     h\<lparr>sent := sent h @ 3 # lane_bytes (map f32_lane (pinned_mem h ! unat a))\<rparr>"
| "apply_request (WriteReq a body) h =
     h\<lparr>pinned_mem := (pinned_mem h)[unat a := map lane_f32 (lanes body)]\<rparr>"
| "apply_request (OtherReq k a) h = h"

lemma length_addr_bytes [simp]: "length (addr_bytes a) = 2"
  by (simp add: addr_bytes_def)

lemma int_from_addr_bytes: "int_from_bytes (addr_bytes a) = uint a"
proof -
  have "uint a < 65536" using uint_bounded [of a] by simp
  then have "uint a div 256 mod 256 = uint a div 256"
    by (intro mod_pos_pos_trivial) (simp_all add: div_int_pos_iff div_less_iff_less_mult)
  then have "uint (ucast (drop_bit 8 a) :: byte) = uint a div 256"
    using uint_bounded [of a] unfolding unsigned_ucast_eq unsigned_drop_bit_eq
    by (simp add: take_bit_eq_mod drop_bit_eq_div)
  moreover have "uint (ucast a :: byte) = uint a mod 256"
    by (simp add: unsigned_ucast_eq take_bit_eq_mod)
  ultimately show ?thesis
    by (simp add: int_from_bytes_def addr_bytes_def)
qed

lemma apply_request_length [simp]:
  "length (pinned_mem (apply_request r h)) = length (pinned_mem h)"
  by (cases r) simp_all

lemma request_ok_apply: "request_ok (apply_request q h) r = request_ok h r"
  by (cases r) simp_all

lemma uint_less_int: "uint a < int n \<longleftrightarrow> unat a < n"
  by (metis of_nat_less_iff uint_nat)

lemma byte_kind:
  "uint (k :: byte) = 0 \<longleftrightarrow> k = 0" "uint k = 2 \<longleftrightarrow> k = 2"
  "uint k = 3 \<longleftrightarrow> k = 3" "uint k = 4 \<longleftrightarrow> k = 4"
  by (simp_all add: word_uint_eq_iff)

lemma serve_flat_packet:
  "serve_flat h (k # addr_bytes a @ bs) =
     (if k = 0 then Some (Raised AssertionError, h, bs)
      else if k = 3 then
        (if length bs < 36 then None
         else case write_row (uint a) (take 36 bs) h of
                Inl e \<Rightarrow> Some (Raised e, h, drop 36 bs)
              | Inr h' \<Rightarrow> serve_flat h' (drop 36 bs))
      else if k = 2 then
        (case read_row (uint a) h of
           Inl e \<Rightarrow> Some (Raised e, h, bs)
         | Inr h' \<Rightarrow> serve_flat h' bs)
      else if k = 4 then Some (Exited, h, bs)
      else serve_flat h bs)"
  by (subst serve_flat.simps)
    (simp add: Let_def int_from_addr_bytes byte_kind cong: if_cong sum.case_cong)

lemma serve_flat_request:
  "request_ok h r \<Longrightarrow> serve_flat h (request_bytes r @ bs) = serve_flat (apply_request r h) bs"
  by (cases r)
    (simp_all add: serve_flat_packet read_row_def write_row_def uint_less_int)

lemma serve_flat_requests:
  "list_all (request_ok h) rs \<Longrightarrow>
     serve_flat h (concat (map request_bytes rs) @ bs) = serve_flat (fold apply_request rs h) bs"
proof (induction rs arbitrary: h)
  case (Cons r rs)
  have "request_ok (apply_request r h) = request_ok h"
    by (simp add: fun_eq_iff request_ok_apply)
  with Cons show ?case by (simp add: serve_flat_request)
qed simp

lemma serve_flat_end: "serve_flat h (end_bytes @ bs) = Some (Exited, h, bs)"
  by (subst serve_flat.simps) (simp add: end_bytes_def Let_def)

lemma serve_flat_starved: "length bs < 3 \<Longrightarrow> serve_flat h bs = None"
  by (simp add: serve_flat.simps)


section \<open>The initial memory\<close>

lemma length_fill_rows [simp]: "length (fill_rows f is a mem) = length mem"
  by (induction "is" arbitrary: a mem) (simp_all add: Let_def)

text \<open>Row \<open>x\<close>, \<open>x + 4\<close>, \<dots> get consecutive values; every other row is untouched.\<close>

lemma fill_rows_nth:
  "i < length mem \<Longrightarrow>
     fill_rows f (map (\<lambda>k. x + k * 4) [j..<n]) a mem ! i =
       (if \<exists>k. j \<le> k \<and> k < n \<and> i = x + k * 4
        then replicate 16 (let v = a + 1 + (int i - int x - 4 * int j) div 4
                           in f (if \<not> i mod 16 = 0 then v else - v))
        else mem ! i)"
proof (induction "n - j" arbitrary: j a mem)
  case 0
  then show ?case by auto
next
  case (Suc d)
  then have jn: "j < n" by simp
  then have split: "[j..<n] = j # [Suc j..<n]" by (rule upt_conv_Cons)
  let ?v = "a + 1"
  let ?mem = "mem[x + j * 4 := replicate 16 (f (if \<not> (x + j * 4) mod 16 = 0 then ?v else - ?v))]"
  have IH: "fill_rows f (map (\<lambda>k. x + k * 4) [Suc j..<n]) ?v ?mem ! i =
       (if \<exists>k. Suc j \<le> k \<and> k < n \<and> i = x + k * 4
        then replicate 16 (let v = ?v + 1 + (int i - int x - 4 * int (Suc j)) div 4
                           in f (if \<not> i mod 16 = 0 then v else - v))
        else ?mem ! i)"
    using Suc by (intro Suc.hyps(1)) auto
  have step: "fill_rows f (map (\<lambda>k. x + k * 4) [j..<n]) a mem =
      fill_rows f (map (\<lambda>k. x + k * 4) [Suc j..<n]) ?v ?mem"
    by (simp add: split Let_def del: upt_Suc)
  have shift: "?v + 1 + (int i - int x - 4 * int (Suc j)) div 4 = a + 1 + (int i - int x - 4 * int j) div 4"
    by simp
  consider (here) "i = x + j * 4" | (later) "\<exists>k. Suc j \<le> k \<and> k < n \<and> i = x + k * 4"
    | (no) "i \<noteq> x + j * 4" "\<nexists>k. Suc j \<le> k \<and> k < n \<and> i = x + k * 4" by blast
  then show ?case
  proof cases
    case here
    then have "\<nexists>k. Suc j \<le> k \<and> k < n \<and> i = x + k * 4" by auto
    with here jn IH Suc.prems show ?thesis unfolding step by (auto simp: Let_def)
  next
    case later
    then have "\<exists>k. j \<le> k \<and> k < n \<and> i = x + k * 4" using Suc_leD by blast
    with later IH show ?thesis unfolding step shift by simp
  next
    case no
    then have none: "\<nexists>k. j \<le> k \<and> k < n \<and> i = x + k * 4"
      by (metis Suc_leI le_neq_implies_less)
    from IH show ?thesis
      unfolding step if_not_P [OF no(2)] if_not_P [OF none] using no(1) by simp
  qed
qed

lemma init_range: "py_range 16 128 4 = map (\<lambda>k. 16 + k * 4) [0..<28]"
  by (simp add: py_range_def del: upt.simps upt_rec_numeral)


section \<open>Properties\<close>

text \<open>C19. However the network cuts the device's bytes into pieces, the serving loop does exactly
  what the specification does on the bytes in one piece: it ends the same way, with the same
  memory, the same answers sent and the same bytes left unread, and it never returns exactly
  when the specification gives no outcome.\<close>

theorem serve_refines:
  assumes "libs_ok L" and "rows_ok h" and "sock_ok s"
  shows "map_option (\<lambda>(e, h', s'). (e, h', concat s')) (serve L sock_recv h s)
           = serve_flat h (concat s)"
  using assms by (rule tcp.serve_eq)

lemma rows_ok_initial: "rows_ok \<lparr>pinned_mem = replicate 128 (replicate 16 0), sent = []\<rparr>"
  by (simp add: rows_ok_def)

theorem serve_refines_witness:
  "map_option (\<lambda>(e, h', s'). (e, h', concat s'))
     (serve std_libs sock_recv \<lparr>pinned_mem = replicate 128 (replicate 16 0), sent = []\<rparr>
       [[4], [0, 0]])
   = Some (Exited, \<lparr>pinned_mem = replicate 128 (replicate 16 0), sent = []\<rparr>, [])"
  using serve_refines [OF libs_ok_std rows_ok_initial, of "[[4], [0, 0]]"] serve_flat_end [of _ "[]"]
  by (simp add: sock_ok_def end_bytes_def)

lemma serve_session:
  assumes "libs_ok L" and "rows_ok h" and "sock_ok s" and "list_all (request_ok h) rs"
    and "concat s = concat (map request_bytes rs) @ end_bytes @ rest"
  shows "\<exists>s'. serve L sock_recv h s = Some (Exited, fold apply_request rs h, s') \<and> concat s' = rest"
  using tcp.serve_complete [OF assms(1), of h s] assms(2-5)
    serve_flat_requests [OF assms(4), of "end_bytes @ rest"]
  by (simp add: serve_flat_end)

text \<open>C20. A device session of valid requests that ends with the program-end packet is served to
  its end: the loop exits, the memory and the answers are those of the requests one after the
  other, and the bytes after the end packet are left unread.\<close>

theorem session_completes:
  assumes "libs_ok L" and "rows_ok h" and "sock_ok s" and "list_all (request_ok h) rs"
    and "concat s = concat (map request_bytes rs) @ end_bytes @ rest"
  shows "\<exists>s'. serve L sock_recv h s = Some (Exited, fold apply_request rs h, s') \<and> concat s' = rest"
  by (rule serve_session [OF assms])

text \<open>A witness session: a write to row 20 and a read of it, cut inside the packets.\<close>

theorem session_completes_witness:
  "\<exists>s'. serve std_libs sock_recv \<lparr>pinned_mem = replicate 128 (replicate 16 0), sent = []\<rparr>
      [[3, 0], 20 # replicate 36 7 @ [2, 0], [20, 4, 0], [0]]
    = Some (Exited, fold apply_request [WriteReq 20 (replicate 36 7), ReadReq 20]
        \<lparr>pinned_mem = replicate 128 (replicate 16 0), sent = []\<rparr>, s') \<and> concat s' = []"
  by (rule session_completes [OF libs_ok_std rows_ok_initial])
    (simp_all add: sock_ok_def addr_bytes_def end_bytes_def)

text \<open>What the device writes to a row it reads back unchanged: a write of 36 bytes followed by
  a read of the same row sends the type byte 3 and those 36 bytes.\<close>

theorem write_then_read:
  assumes "request_ok h (WriteReq a body)"
  shows "sent (apply_request (ReadReq a) (apply_request (WriteReq a body) h)) = sent h @ 3 # body"
proof -
  have "map f32_lane (map lane_f32 (lanes body)) = lanes body"
    using assms lanes_ok [of body] by (auto simp: list_all_iff f32_lane_lane_f32 intro!: map_idI)
  then show ?thesis
    using assms by (simp add: lane_bytes_lanes)
qed

theorem write_then_read_witness:
  "sent (apply_request (ReadReq 5) (apply_request (WriteReq 5 (replicate 36 0xC3))
      \<lparr>pinned_mem = replicate 128 (replicate 16 0), sent = []\<rparr>)) = 3 # replicate 36 0xC3"
  using write_then_read [of "\<lparr>pinned_mem = replicate 128 (replicate 16 0), sent = []\<rparr>" 5
      "replicate 36 0xC3"]
  by (simp del: apply_request.simps)

text \<open>The requests for a row that the memory does not have; a write comes with its whole tile.\<close>

fun beyond :: "host \<Rightarrow> request \<Rightarrow> bool" where
  "beyond h (ReadReq a) \<longleftrightarrow> length (pinned_mem h) \<le> unat a"
| "beyond h (WriteReq a body) \<longleftrightarrow> length (pinned_mem h) \<le> unat a \<and> length body = 36"
| "beyond h (OtherReq k a) \<longleftrightarrow> False"

lemma fold_request_length [simp]:
  "length (pinned_mem (fold apply_request rs h)) = length (pinned_mem h)"
  by (induction rs arbitrary: h) simp_all

lemma serve_flat_beyond: "beyond h q \<Longrightarrow> serve_flat h (request_bytes q @ bs) = Some (Raised IndexError, h, bs)"
  by (cases q) (simp_all add: serve_flat_packet read_row_def write_row_def uint_less_int)

text \<open>C36. A read or a write of a row the memory does not have, after any valid requests, ends the server
  with IndexError: the memory and the answers are those of the valid requests before it, and what comes
  after it is left unread.\<close>

theorem bad_row_raises:
  assumes "libs_ok L" and "rows_ok h" and "sock_ok s" and "list_all (request_ok h) rs" and "beyond h q"
    and "concat s = concat (map request_bytes rs) @ request_bytes q @ rest"
  shows "\<exists>s'. serve L sock_recv h s = Some (Raised IndexError, fold apply_request rs h, s') \<and> concat s' = rest"
proof -
  have "beyond (fold apply_request rs h) q" using assms(5) by (cases q) simp_all
  then have "serve_flat h (concat s) = Some (Raised IndexError, fold apply_request rs h, rest)"
    using assms(6) serve_flat_requests [OF assms(4)] by (simp add: serve_flat_beyond del: request_bytes.simps)
  from tcp.serve_complete [OF assms(1) this assms(2,3)] show ?thesis .
qed

text \<open>Witnesses: a read, and a write after a valid write.\<close>

theorem bad_row_raises_witness:
  "(\<exists>s'. serve std_libs sock_recv \<lparr>pinned_mem = replicate 128 (replicate 16 0), sent = []\<rparr> [[2, 0], [128, 7]]
      = Some (Raised IndexError, \<lparr>pinned_mem = replicate 128 (replicate 16 0), sent = []\<rparr>, s') \<and> concat s' = [7])
   \<and> (\<exists>s'. serve std_libs sock_recv \<lparr>pinned_mem = replicate 128 (replicate 16 0), sent = []\<rparr>
        [3 # 0 # 20 # replicate 36 7, 3 # 0 # 200 # replicate 36 7]
      = Some (Raised IndexError, apply_request (WriteReq 20 (replicate 36 7))
          \<lparr>pinned_mem = replicate 128 (replicate 16 0), sent = []\<rparr>, s') \<and> concat s' = [])"
  using bad_row_raises [OF libs_ok_std rows_ok_initial, of "[[2, 0], [128, 7]]" "[]" "ReadReq 128" "[7]"]
    bad_row_raises [OF libs_ok_std rows_ok_initial, of "[3 # 0 # 20 # replicate 36 7, 3 # 0 # 200 # replicate 36 7]"
      "[WriteReq 20 (replicate 36 7)]" "WriteReq 200 (replicate 36 7)" "[]"]
  by (simp add: sock_ok_def addr_bytes_def)

text \<open>C37. When the device closes the connection after complete requests, without the program-end
  packet, the loop never returns: the empty result of \<^verbatim>\<open>recv\<close> is skipped for ever.\<close>

theorem closed_connection_spins:
  assumes "libs_ok L" and "rows_ok h" and "sock_ok s" and "list_all (request_ok h) rs"
    and "concat s = concat (map request_bytes rs)"
  shows "serve L sock_recv h s = None"
  using tcp.serve_eq [OF assms(1-3)] assms(5) serve_flat_requests [OF assms(4), of "[]"]
  by (simp add: serve_flat_starved)

theorem closed_connection_spins_witness:
  "serve std_libs sock_recv \<lparr>pinned_mem = replicate 128 (replicate 16 0), sent = []\<rparr> [[2], [0, 5]] = None"
  by (rule closed_connection_spins [OF libs_ok_std rows_ok_initial, where rs = "[ReadReq 5]"])
    (simp_all add: sock_ok_def addr_bytes_def)

lemma initial_row:
  assumes "i < 128"
  shows "length (initial_mem f) = 128 \<and>
     initial_mem f ! i =
       (if 16 \<le> i \<and> i mod 4 = 0
        then replicate 16 (f (if i mod 16 = 0 then - (117 + int i div 4) else 117 + int i div 4))
        else replicate 16 0)"
proof -
  have ex: "(\<exists>k. 0 \<le> k \<and> k < 28 \<and> i = 16 + k * 4) \<longleftrightarrow> 16 \<le> i \<and> i mod 4 = 0"
  proof
    assume "16 \<le> i \<and> i mod 4 = 0"
    then have "i = 16 + (i - 16) div 4 * 4 \<and> (i - 16) div 4 < 28" using assms by presburger
    then show "\<exists>k. 0 \<le> k \<and> k < 28 \<and> i = 16 + k * 4" by blast
  qed presburger
  have div: "16 \<le> i \<and> i mod 4 = 0 \<Longrightarrow> 120 + 1 + (int i - int 16 - 4 * int 0) div 4 = 117 + int i div 4"
    by simp
  have "initial_mem f ! i =
      (if \<exists>k. 0 \<le> k \<and> k < 28 \<and> i = 16 + k * 4
       then replicate 16 (let v = 120 + 1 + (int i - int 16 - 4 * int 0) div 4
                          in f (if \<not> i mod 16 = 0 then v else - v))
       else replicate 128 (replicate 16 0) ! i)"
    unfolding initial_mem_def init_range
    using fill_rows_nth [of i "replicate 128 (replicate 16 0)" f 16 0 28 120] assms by simp
  then show ?thesis
    unfolding ex using assms div by (auto simp: initial_mem_def)
qed

end
