(* ===== verification/ReluSession.thy ===== *)
theory ReluSession
  imports Host
begin

text \<open>
  The whole of cherrysim.py: the memory is set up, the expected result is computed with torch, the
  device is served, and at exit \<^verbatim>\<open>goodbye\<close> compares the memory with the
  expected result.  torch's \<^verbatim>\<open>relu\<close> and numpy's conversion of a whole number to
  float32 are parameters with their documented behaviour.
\<close>

section \<open>Singles\<close>

definition is_nan :: "f32 \<Rightarrow> bool" where
  "is_nan x \<longleftrightarrow> take_bit 8 (drop_bit 23 x) = 255 \<and> take_bit 23 x \<noteq> 0"

text \<open>The comparison of two singles: both zeros are equal, a NaN equals nothing.\<close>

definition f32_eq :: "f32 \<Rightarrow> f32 \<Rightarrow> bool" where
  "f32_eq x y \<longleftrightarrow> \<not> is_nan x \<and> \<not> is_nan y \<and> (x = y \<or> (take_bit 31 x = 0 \<and> take_bit 31 y = 0))"

text \<open>The whole numbers the program stores, 121 to 148 and their negatives, need eight significant bits,
  so that the last fourteen bits of their singles are zero.\<close>

definition as_f32_ok :: "(int \<Rightarrow> f32) \<Rightarrow> bool" where
  "as_f32_ok as_f32 \<longleftrightarrow>
     (\<forall>v. 120 < \<bar>v\<bar> \<and> \<bar>v\<bar> < 149 \<longrightarrow>
        take_bit 14 (as_f32 v) = 0 \<and> (bit (as_f32 v) 31 \<longleftrightarrow> v < 0)
        \<and> \<not> is_nan (as_f32 v) \<and> take_bit 31 (as_f32 v) \<noteq> 0)"

definition relu_ok :: "(f32 \<Rightarrow> f32) \<Rightarrow> bool" where
  "relu_ok relu \<longleftrightarrow> (\<forall>x. \<not> is_nan x \<longrightarrow> relu x = (if bit x 31 then 0 else x))"

section \<open>The program\<close>

definition shouldbe :: "(f32 \<Rightarrow> f32) \<Rightarrow> f32 list list \<Rightarrow> f32 list list" where
  "shouldbe relu mem = map (map relu) mem"

text \<open>What \<^verbatim>\<open>goodbye\<close> prints after \<^verbatim>\<open>Success?\<close>.\<close>

definition goodbye :: "f32 list list \<Rightarrow> f32 list list \<Rightarrow> bool" where
  "goodbye expected mem = list_all2 (list_all2 f32_eq) expected mem"

definition main_run ::
    "libs \<Rightarrow> (int \<Rightarrow> f32) \<Rightarrow> (f32 \<Rightarrow> f32) \<Rightarrow> 's reader \<Rightarrow> 's \<Rightarrow> (ending \<times> bool) option" where
  "main_run L as_f32 relu rcv s =
     (let mem = initial_mem as_f32; expected = shouldbe relu mem in
      map_option (\<lambda>(e, h, s'). (e, goodbye expected (pinned_mem h)))
        (start L rcv \<lparr>pinned_mem = mem, sent = []\<rparr> s))"

section \<open>A device that computes relu\<close>

text \<open>Every tile it writes is relu of a tile it has read from the same address; \<open>seen\<close> are the
  tiles read so far.  The order is otherwise free: reads may run ahead of the writes.\<close>

fun relu_device :: "(16 word \<times> int list) list \<Rightarrow> host \<Rightarrow> request list \<Rightarrow> bool" where
  "relu_device seen h [] \<longleftrightarrow> True"
| "relu_device seen h (r # rs) \<longleftrightarrow>
     (case r of
        ReadReq a \<Rightarrow> relu_device ((a, map f32_lane (pinned_mem h ! unat a)) # seen) (apply_request r h) rs
      | WriteReq a body \<Rightarrow>
          (\<exists>t \<in> set seen. fst t = a \<and> lanes body = map relu_lane (snd t)) \<and> relu_device seen (apply_request r h) rs
      | OtherReq k a \<Rightarrow> relu_device seen (apply_request r h) rs)"

fun written :: "request list \<Rightarrow> nat list" where
  "written [] = []"
| "written (r # rs) = (case r of WriteReq a body \<Rightarrow> [unat a] | _ \<Rightarrow> []) @ written rs"

section \<open>Relu in place\<close>

lemma sign_of_lane: "bit x 31 \<longleftrightarrow> 2 ^ 17 \<le> f32_lane x"
proof -
  have b: "0 \<le> uint x" "uint x < 2 ^ 32" using uint_bounded [of x] by simp_all
  have "bit x 31 \<longleftrightarrow> bit (uint x) 31" by (simp add: bit_uint_iff)
  also have "\<dots> \<longleftrightarrow> odd (uint x div 2 ^ 31)" by (rule bit_iff_odd)
  also have "\<dots> \<longleftrightarrow> 2 ^ 31 \<le> uint x"
  proof (cases "uint x < 2 ^ 31")
    case True
    then have "uint x div 2 ^ 31 = 0" using b by (intro div_pos_pos_trivial) simp_all
    then show ?thesis using True by simp
  next
    case False
    then have "(uint x - 2 ^ 31) div 2 ^ 31 = 0" using b by (intro div_pos_pos_trivial) simp_all
    moreover have "(2 ^ 31 + (uint x - 2 ^ 31)) div 2 ^ 31 = (uint x - 2 ^ 31) div (2 ^ 31 :: int) + 1"
      by (rule div_add_self1) simp
    ultimately have "uint x div 2 ^ 31 = 1" by simp
    then show ?thesis using False by simp
  qed
  also have "\<dots> \<longleftrightarrow> 2 ^ 17 \<le> f32_lane x"
  proof -
    have "uint x = 16384 * (uint x div 16384) + uint x mod 16384" "0 \<le> uint x mod 16384" "uint x mod 16384 < 16384"
      by simp_all
    then show ?thesis by (auto simp: f32_lane_def drop_bit_eq_div)
  qed
  finally show ?thesis .
qed

lemma lane_relu: "\<not> is_nan x \<Longrightarrow> relu_ok relu \<Longrightarrow> f32_lane (relu x) = relu_lane (f32_lane x)"
  using sign_of_lane [of x] by (simp add: relu_ok_def relu_lane_def) (simp add: f32_lane_def)

lemma relu_lane_twice: "relu_lane (relu_lane l) = relu_lane l"
  by (simp add: relu_lane_def)

lemma lane_exact: "take_bit 14 x = 0 \<Longrightarrow> lane_f32 (f32_lane x) = x"
  using bits_ident [of 14 x] by (simp add: lane_f32_f32_lane)

lemma single_relu:
  assumes "\<not> is_nan x" and "take_bit 14 x = 0" and "relu_ok relu"
  shows "lane_f32 (relu_lane (f32_lane x)) = relu x"
proof -
  have "take_bit 14 (relu x) = 0" using assms by (simp add: relu_ok_def)
  then show ?thesis using lane_exact [of "relu x"] lane_relu [OF assms(1,3)] by simp
qed

text \<open>The memory in a session, from the rows \<open>M\<close> it starts with: relu in the written rows.\<close>

definition plain_rows :: "f32 list list \<Rightarrow> bool" where
  "plain_rows M \<longleftrightarrow> (\<forall>row \<in> set M. \<forall>x \<in> set row. \<not> is_nan x \<and> take_bit 14 x = 0)"

definition relu_rows :: "(f32 \<Rightarrow> f32) \<Rightarrow> f32 list list \<Rightarrow> nat set \<Rightarrow> f32 list list" where
  "relu_rows relu M W = map (\<lambda>i. if i \<in> W then map relu (M ! i) else M ! i) [0..<length M]"

definition seen_ok :: "(f32 \<Rightarrow> f32) \<Rightarrow> f32 list list \<Rightarrow> (16 word \<times> int list) list \<Rightarrow> bool" where
  "seen_ok relu M seen \<longleftrightarrow>
     (\<forall>t \<in> set seen. unat (fst t) < length M
        \<and> (snd t = map f32_lane (M ! unat (fst t)) \<or> snd t = map f32_lane (map relu (M ! unat (fst t)))))"

lemma relu_of_seen:
  assumes "plain_rows M" and "relu_ok relu" and "seen_ok relu M seen" and "t \<in> set seen"
  shows "map lane_f32 (map relu_lane (snd t)) = map relu (M ! unat (fst t))"
proof -
  have t: "unat (fst t) < length M"
    "snd t = map f32_lane (M ! unat (fst t)) \<or> snd t = map f32_lane (map relu (M ! unat (fst t)))"
    using assms(3,4) by (auto simp: seen_ok_def)
  have x: "\<not> is_nan x \<and> take_bit 14 x = 0" if "x \<in> set (M ! unat (fst t))" for x
    using assms(1) t(1) that unfolding plain_rows_def by (meson nth_mem)
  have "relu_lane (f32_lane (relu x)) = relu_lane (f32_lane x)" if "x \<in> set (M ! unat (fst t))" for x
    using lane_relu [of x relu] x [OF that] assms(2) relu_lane_twice by simp
  then show ?thesis
    using t(2) x single_relu [OF _ _ assms(2)] by auto
qed

lemma relu_session:
  assumes "plain_rows M" and "relu_ok relu"
  shows "relu_device seen h rs \<Longrightarrow> list_all (request_ok h) rs \<Longrightarrow> seen_ok relu M seen \<Longrightarrow>
     pinned_mem h = relu_rows relu M W \<Longrightarrow>
     pinned_mem (fold apply_request rs h) = relu_rows relu M (W \<union> set (written rs))"
proof (induction rs arbitrary: seen h W)
  case (Cons r rs)
  have ok: "request_ok h r" "list_all (request_ok (apply_request r h)) rs"
    using Cons.prems(2) by (simp_all add: list_all_iff request_ok_apply)
  have len: "length (pinned_mem h) = length M" by (simp add: Cons.prems(4) relu_rows_def)
  show ?case
  proof (cases r)
    case (ReadReq a)
    then have a: "unat a < length M" using ok(1) len by simp
    have "seen_ok relu M ((a, map f32_lane (pinned_mem h ! unat a)) # seen)"
      using Cons.prems(3) a by (simp add: seen_ok_def Cons.prems(4) relu_rows_def)
    then show ?thesis
      using Cons.IH [of _ "apply_request r h" W] Cons.prems(1,4) ok(2) by (simp add: ReadReq)
  next
    case (WriteReq a body)
    then have a: "unat a < length M" using ok(1) len by simp
    obtain t where t: "t \<in> set seen" "fst t = a" "lanes body = map relu_lane (snd t)"
      using Cons.prems(1) by (auto simp: WriteReq)
    have "map lane_f32 (lanes body) = map relu (M ! unat a)"
      using relu_of_seen [OF assms Cons.prems(3) t(1)] t(2,3) by simp
    then have "pinned_mem (apply_request r h) = relu_rows relu M (insert (unat a) W)"
      using a by (intro nth_equalityI) (auto simp: WriteReq Cons.prems(4) relu_rows_def nth_list_update)
    then show ?thesis
      using Cons.IH [of seen "apply_request r h" "insert (unat a) W"] Cons.prems(1,3) ok(2) by (simp add: WriteReq)
  next
    case (OtherReq k a)
    then show ?thesis using Cons.IH [of seen h W] Cons.prems ok(2) by simp
  qed
qed simp

section \<open>The check at exit\<close>

lemma f32_eq_refl: "\<not> is_nan x \<Longrightarrow> f32_eq x x"
  by (simp add: f32_eq_def)

lemma relu_not_nan: "\<not> is_nan x \<Longrightarrow> relu_ok relu \<Longrightarrow> \<not> is_nan (relu x)"
  by (simp add: relu_ok_def) (simp add: is_nan_def)

text \<open>A value that is left alone compares equal exactly when its sign is clear.\<close>

lemma left_alone:
  assumes "\<not> is_nan x" and "take_bit 31 x = 0 \<longrightarrow> x = 0" and "relu_ok relu"
  shows "f32_eq (relu x) x \<longleftrightarrow> \<not> bit x 31"
proof (cases "bit x 31")
  case True
  then have "x \<noteq> 0" by auto
  then show ?thesis using assms True by (auto simp: relu_ok_def f32_eq_def)
next
  case False
  then show ?thesis using assms by (simp add: relu_ok_def f32_eq_def)
qed

lemma all2_replicate: "list_all2 P (replicate 16 a) (replicate 16 b) \<longleftrightarrow> P a b"
  by (simp add: eval_nat_numeral)

definition negative_rows :: "nat list" where
  "negative_rows = [16, 32, 48, 64, 80, 96, 112]"

lemma initial_values:
  assumes "as_f32_ok f" and "i < 128"
  obtains v where "initial_mem f ! i = replicate 16 v" and "\<not> is_nan v" and "take_bit 14 v = 0"
    and "take_bit 31 v = 0 \<longrightarrow> v = 0" and "bit v 31 \<longleftrightarrow> i \<in> set negative_rows"
proof -
  have neg: "i \<in> set negative_rows \<longleftrightarrow> 16 \<le> i \<and> i mod 16 = 0"
    using assms(2) by (simp add: negative_rows_def) presburger
  define n where "n = (if i mod 16 = 0 then - (117 + int i div 4) else 117 + int i div 4)"
  define v where "v = (if 16 \<le> i \<and> i mod 4 = 0 then f n else 0)"
  have row: "initial_mem f ! i = replicate 16 v"
    using initial_row [OF assms(2), of f] by (simp add: v_def n_def)
  have "take_bit 14 (f n) = 0 \<and> (bit (f n) 31 \<longleftrightarrow> i mod 16 = 0) \<and> \<not> is_nan (f n) \<and> take_bit 31 (f n) \<noteq> 0"
    if big: "16 \<le> i"
  proof -
    have "4 \<le> int i div 4" "int i div 4 < 32" using big assms(2) by simp_all
    then have "120 < \<bar>n\<bar>" "\<bar>n\<bar> < 149" "n < 0 \<longleftrightarrow> i mod 16 = 0" by (auto simp: n_def)
    then show ?thesis using assms(1) by (simp add: as_f32_ok_def)
  qed
  then have v: "\<not> is_nan v" "take_bit 14 v = 0" "take_bit 31 v = 0 \<longrightarrow> v = 0"
    "bit v 31 \<longleftrightarrow> 16 \<le> i \<and> i mod 4 = 0 \<and> i mod 16 = 0"
    by (auto simp: v_def is_nan_def)
  have "i mod 16 = 0 \<Longrightarrow> i mod 4 = 0" by presburger
  then have "bit v 31 \<longleftrightarrow> i \<in> set negative_rows" using v(4) neg by auto
  with that [OF row v(1-3)] show ?thesis .
qed

lemma goodbye_iff:
  assumes "as_f32_ok f" and "relu_ok relu"
  defines "M \<equiv> initial_mem f"
  shows "goodbye (shouldbe relu M) (relu_rows relu M W) \<longleftrightarrow> set negative_rows \<subseteq> W"
proof -
  have len: "length M = 128" using initial_row [of 0 f] by (simp add: M_def)
  have row: "list_all2 f32_eq (map relu (M ! i)) (if i \<in> W then map relu (M ! i) else M ! i)
      \<longleftrightarrow> (i \<in> set negative_rows \<longrightarrow> i \<in> W)" if i: "i < 128" for i
  proof -
    obtain v where v: "M ! i = replicate 16 v" "\<not> is_nan v" "take_bit 31 v = 0 \<longrightarrow> v = 0"
      "bit v 31 \<longleftrightarrow> i \<in> set negative_rows"
      unfolding M_def using initial_values [OF assms(1) i] by blast
    then show ?thesis
      using left_alone [OF v(2,3) assms(2)] f32_eq_refl [OF relu_not_nan [OF v(2) assms(2)]]
      by (simp add: all2_replicate)
  qed
  have "goodbye (shouldbe relu M) (relu_rows relu M W)
      \<longleftrightarrow> (\<forall>i<128. i \<in> set negative_rows \<longrightarrow> i \<in> W)"
    using row unfolding goodbye_def list_all2_conv_all_nth [of "list_all2 f32_eq"]
    by (simp add: shouldbe_def relu_rows_def len cong: if_cong split del: if_split)
  moreover have "\<forall>i \<in> set negative_rows. i < 128" by (simp add: negative_rows_def)
  then have "(\<forall>i<128. i \<in> set negative_rows \<longrightarrow> i \<in> W) \<longleftrightarrow> set negative_rows \<subseteq> W" by blast
  ultimately show ?thesis by (simp only:)
qed

lemma start_serves:
  "start L rcv h s = serve L rcv (h\<lparr>sent := sent h @ 29 # 0 # 6 # relu_fast_prog_instructions @ [2, 0, 0, 6, 0, 13]\<rparr>) s"
proof -
  have up: "upload_packet relu_fast_prog_instructions 6 = Inr (29 # 0 # 6 # relu_fast_prog_instructions)"
    and st: "start_packet 0 6 13 = Inr [2, 0, 0, 6, 0, 13]"
    by code_simp+
  show ?thesis by (simp add: start_def upload_prog_def start_prog_def up st sendall_def)
qed

lemma apply_sent:
  "pinned_mem (fold apply_request rs (h\<lparr>sent := x\<rparr>)) = pinned_mem (fold apply_request rs h)"
proof (induction rs arbitrary: h x)
  case (Cons r rs)
  have "apply_request r (h\<lparr>sent := x\<rparr>) = (apply_request r h)\<lparr>sent := sent (apply_request r (h\<lparr>sent := x\<rparr>))\<rparr>"
    by (cases r) simp_all
  then show ?case using Cons by (metis fold_simps(2))
qed simp

lemma request_ok_sent: "request_ok (h\<lparr>sent := x\<rparr>) = request_ok h"
proof
  show "request_ok (h\<lparr>sent := x\<rparr>) r = request_ok h r" for r by (cases r) simp_all
qed

text \<open>C21. The check at exit: when the device writes back relu of tiles it has read from the same
  addresses, in any order and with the bytes cut in any way, the program exits normally, and what it
  prints after \<open>Success?\<close> is True exactly when the device wrote each of the seven rows that hold
  negative numbers.\<close>

theorem relu_session_success:
  assumes "libs_ok L" and "as_f32_ok f" and "relu_ok relu" and "sock_ok sk"
    and "list_all (request_ok \<lparr>pinned_mem = initial_mem f, sent = []\<rparr>) rs"
    and "relu_device [] \<lparr>pinned_mem = initial_mem f, sent = []\<rparr> rs"
    and "concat sk = concat (map request_bytes rs) @ end_bytes @ rest"
  shows "main_run L f relu sock_recv sk = Some (Exited, set negative_rows \<subseteq> set (written rs))"
proof -
  let ?M = "initial_mem f" and ?h = "\<lparr>pinned_mem = initial_mem f, sent = []\<rparr>"
  let ?h' = "?h\<lparr>sent := 29 # 0 # 6 # relu_fast_prog_instructions @ [2, 0, 0, 6, 0, 13]\<rparr>"
  have len: "length ?M = 128" using initial_row [of 0 f] by simp
  have rows: "row = replicate 16 (hd row) \<and> \<not> is_nan (hd row) \<and> take_bit 14 (hd row) = 0" if mem: "row \<in> set ?M" for row
  proof -
    obtain i where i: "i < 128" "row = ?M ! i" using mem len by (metis in_set_conv_nth)
    obtain v where "?M ! i = replicate 16 v" "\<not> is_nan v" "take_bit 14 v = 0"
      using initial_values [OF assms(2) i(1)] by blast
    then show ?thesis using i(2) by simp
  qed
  have "length row = 16" if "row \<in> set ?M" for row using rows [OF that] by (metis length_replicate)
  then have rows': "rows_ok ?h'" by (simp add: rows_ok_def)
  have "list_all (request_ok ?h') rs" using assms(5) by (simp only: request_ok_sent)
  then obtain s' where run: "serve L sock_recv ?h' sk = Some (Exited, fold apply_request rs ?h', s')"
    using serve_session [OF assms(1) rows' assms(4) _ assms(7)] by blast
  have "plain_rows ?M" unfolding plain_rows_def using rows by (metis in_set_replicate)
  moreover have "relu_rows relu ?M {} = ?M" by (simp add: relu_rows_def map_nth)
  ultimately have "pinned_mem (fold apply_request rs ?h) = relu_rows relu ?M (set (written rs))"
    using relu_session [OF _ assms(3,6,5), of ?M "{}"] by (simp add: seen_ok_def)
  then have "pinned_mem (fold apply_request rs ?h') = relu_rows relu ?M (set (written rs))"
    by (simp only: apply_sent)
  then show ?thesis
    using run goodbye_iff [OF assms(2,3)] by (simp add: main_run_def Let_def start_serves)
qed

text \<open>The single of a whole number: sign, exponent, and the digits after the first.\<close>

definition single_of_int :: "int \<Rightarrow> f32" where
  "single_of_int v =
     (let m = \<bar>v\<bar>; e = length (takeWhile (\<lambda>k. 2 ^ Suc k \<le> m) [0..<23]) in
      if v = 0 then 0
      else word_of_int ((if v < 0 then 2 ^ 31 else 0) + (127 + int e) * 2 ^ 23 + (m - 2 ^ e) * 2 ^ (23 - e)))"

lemma single_of_int_ok: "as_f32_ok single_of_int"
proof -
  let ?ok = "\<lambda>v. take_bit 14 (single_of_int v) = 0 \<and> (bit (single_of_int v) 31 \<longleftrightarrow> v < 0)
      \<and> \<not> is_nan (single_of_int v) \<and> take_bit 31 (single_of_int v) \<noteq> 0"
  have "list_all ?ok [121..148]" and "list_all ?ok [-148..-121]" by code_simp+
  moreover have "v \<in> set [121..148] \<or> v \<in> set [-148..-121]" if "120 < \<bar>v\<bar>" "\<bar>v\<bar> < 149" for v
    using that by (simp only: set_upto atLeastAtMost_iff) arith
  ultimately show ?thesis unfolding as_f32_ok_def list_all_iff by blast
qed

definition relu_requests :: "nat list \<Rightarrow> request list" where
  "relu_requests rows = concat (map (\<lambda>r. [ReadReq (of_nat r), WriteReq (of_nat r) (replicate 36 0)]) rows)"

lemma relu_requests_device:
  assumes "as_f32_ok f" and "distinct rows" and "set rows \<subseteq> set negative_rows"
    and "\<forall>r \<in> set rows. pinned_mem h ! r = initial_mem f ! r"
  shows "relu_device seen h (relu_requests rows)"
  using assms(2-4)
proof (induction rows arbitrary: seen h)
  case (Cons r rows)
  have r: "r \<in> set negative_rows" "r < 128" using Cons.prems(2) by (auto simp: negative_rows_def)
  obtain v where v: "initial_mem f ! r = replicate 16 v" "bit v 31 \<longleftrightarrow> r \<in> set negative_rows"
    using initial_values [OF assms(1) r(2)] by blast
  have "lanes (replicate 36 0) = replicate 16 0" by code_simp
  moreover have "relu_lane (f32_lane v) = 0" using v(2) r(1) sign_of_lane [of v] by (simp add: relu_lane_def)
  ultimately have l: "lanes (replicate 36 0) = map relu_lane (map f32_lane (pinned_mem h ! r))"
    using Cons.prems(3) v(1) by simp
  have u: "unat (of_nat r :: 16 word) = r" using r(2) by (simp add: unat_of_nat take_bit_nat_eq_self)
  have "relu_device s (apply_request (WriteReq (of_nat r) (replicate 36 0)) (h\<lparr>sent := x\<rparr>)) (relu_requests rows)" for s x
    using Cons.prems by (intro Cons.IH) (auto simp: u, metis nth_list_update_neq)
  then show ?case using l by (simp add: relu_requests_def u)
qed (simp add: relu_requests_def)

theorem relu_session_success_witness:
  "main_run std_libs single_of_int (\<lambda>x. if bit x 31 then 0 else x) sock_recv
     [concat (map request_bytes (relu_requests negative_rows)) @ end_bytes] = Some (Exited, True)
   \<and> main_run std_libs single_of_int (\<lambda>x. if bit x 31 then 0 else x) sock_recv
     [concat (map request_bytes (relu_requests [16])) @ end_bytes] = Some (Exited, False)"
proof -
  let ?h = "\<lparr>pinned_mem = initial_mem single_of_int, sent = []\<rparr>" and ?relu = "\<lambda>x :: f32. if bit x 31 then 0 else x"
  have len: "length (initial_mem single_of_int) = 128" using initial_row [of 0 single_of_int] by simp
  have run: "main_run std_libs single_of_int ?relu sock_recv
        [concat (map request_bytes (relu_requests rows)) @ end_bytes]
      = Some (Exited, set negative_rows \<subseteq> set (written (relu_requests rows)))"
    if rows: "distinct rows" "set rows \<subseteq> set negative_rows" for rows
  proof (rule relu_session_success [OF libs_ok_std single_of_int_ok])
    have "\<forall>r \<in> set rows. r < 128" using rows(2) by (auto simp: negative_rows_def)
    then show "list_all (request_ok ?h) (relu_requests rows)"
      by (induction rows) (simp_all add: relu_requests_def len unat_of_nat take_bit_nat_eq_self)
    show "relu_device [] ?h (relu_requests rows)"
      by (rule relu_requests_device [OF single_of_int_ok rows]) simp
  qed (simp_all add: relu_ok_def sock_ok_def end_bytes_def)
  have "written (relu_requests negative_rows) = negative_rows" "written (relu_requests [16]) = [16]" by code_simp+
  then show ?thesis using run [of negative_rows] run [of "[16]"] by (simp add: negative_rows_def)
qed

end
