(* ===== verification/Clocked.thy ===== *)
theory Clocked
  imports Main
begin

text \<open>
  Runs of a clocked machine, what it lets out or takes in on the way, and \<open>conserving\<close>, the
  interface of machines that lose nothing: what has come out, followed by what is inside, is what was
  inside followed by what went in.
\<close>

text \<open>A run of a step function, and what it lets out or takes in on the way.\<close>

fun run :: "('i \<Rightarrow> 's \<Rightarrow> 's) \<Rightarrow> 'i list \<Rightarrow> 's \<Rightarrow> 's" where
  "run step [] s = s"
| "run step (i # is) s = run step is (step i s)"

fun trace :: "('i \<Rightarrow> 's \<Rightarrow> 's) \<Rightarrow> ('i \<Rightarrow> 's \<Rightarrow> 'a list) \<Rightarrow> 'i list \<Rightarrow> 's \<Rightarrow> 'a list" where
  "trace step f [] s = []"
| "trace step f (i # is) s = f i s @ trace step f is (step i s)"

fun always :: "('i \<Rightarrow> 's \<Rightarrow> 's) \<Rightarrow> ('i \<Rightarrow> 's \<Rightarrow> bool) \<Rightarrow> 'i list \<Rightarrow> 's \<Rightarrow> bool" where
  "always step ok [] s \<longleftrightarrow> True"
| "always step ok (i # is) s \<longleftrightarrow> ok i s \<and> always step ok is (step i s)"

lemma trace_snoc: "trace step f (is @ [i]) s = trace step f is s @ f i (run step is s)"
  by (induction "is" arbitrary: s) simp_all

section \<open>Machines that lose nothing\<close>

locale conserving =
  fixes step :: "'i \<Rightarrow> 's \<Rightarrow> 's" and inva :: "'s \<Rightarrow> bool" and ok :: "'i \<Rightarrow> 's \<Rightarrow> bool"
    and outstanding :: "'s \<Rightarrow> 'a list" and ins :: "'i \<Rightarrow> 's \<Rightarrow> 'a list" and outs :: "'i \<Rightarrow> 's \<Rightarrow> 'a list"
  assumes step_inv: "inva s \<Longrightarrow> ok i s \<Longrightarrow> inva (step i s)"
    and step_conserves: "inva s \<Longrightarrow> ok i s \<Longrightarrow> outs i s @ outstanding (step i s) = outstanding s @ ins i s"
begin

lemma run_conserves:
  "inva s \<Longrightarrow> always step ok is s \<Longrightarrow>
     inva (run step is s)
     \<and> trace step outs is s @ outstanding (run step is s) = outstanding s @ trace step ins is s"
proof (induction "is" arbitrary: s)
  case (Cons i "is")
  have ok: "ok i s" "always step ok is (step i s)" using Cons.prems(2) by simp_all
  note rest = Cons.IH [OF step_inv [OF Cons.prems(1) ok(1)] ok(2)]
  have "outs i s @ trace step outs is (step i s) @ outstanding (run step is (step i s))
      = outs i s @ outstanding (step i s) @ trace step ins is (step i s)"
    using rest by simp
  also have "\<dots> = outstanding s @ ins i s @ trace step ins is (step i s)"
    using step_conserves [OF Cons.prems(1) ok(1)] by (metis append_assoc)
  finally show ?case using rest by simp
qed simp

end

end
