(* ===== verification/Prefetch.thy ===== *)
theory Prefetch
  imports ControlUnit Clocked
begin

text \<open>
  The queue of prefetch commands (core/FIFO/prefetch_initiate_superscalar_fifo.sv): one command
  stands for up to sixteen reads, which the queue hands out one by one.
\<close>

section \<open>The queue\<close>

text \<open>\<^verbatim>\<open>initiate_prefetch_command\<close> of types.sv, and the registers of the queue.\<close>

record command =
  copy_count :: "5 word"
  addr :: u18
  d_addr :: u18

record fifo =
  mem :: "command list"
  head :: "6 word"
  tail :: "6 word"
  read_counter :: "5 word"
  dat_r :: u18

definition fifo_size :: "fifo \<Rightarrow> 6 word" where
  "fifo_size s = (if tail s \<le> head s then head s - tail s else 63 - tail s + head s + 1)"

definition fifo_full :: "fifo \<Rightarrow> bool" where
  "fifo_full s \<longleftrightarrow> fifo_size s = 60"

definition emptyn :: "fifo \<Rightarrow> bool" where
  "emptyn s \<longleftrightarrow> fifo_size s > 0"

definition fifo_write :: "command option \<Rightarrow> fifo \<Rightarrow> fifo \<Rightarrow> fifo" where
  "fifo_write w s t =
     (case w of
        None \<Rightarrow> t
      | Some dat_w \<Rightarrow> if fifo_full s then t
          else t\<lparr>mem := (mem s)[unat (head s) := dat_w], head := head s + 1\<rparr>)"

definition fifo_read :: "bool \<Rightarrow> fifo \<Rightarrow> fifo \<Rightarrow> fifo" where
  "fifo_read re s t =
     (if re \<and> emptyn s then
        let c = mem s ! unat (tail s);
            last = (uint (read_counter s) + 1 = uint (copy_count c)) in
        t\<lparr>read_counter := (if last then 0 else read_counter s + 1),
          tail := (if last then tail s + 1 else tail s),
          dat_r := (if read_counter s = 0 then addr c else dat_r s + d_addr c)\<rparr>
      else t)"

text \<open>One clock without reset: both halves read the registers \<open>s\<close> before the edge.\<close>

definition fifo_clk :: "bool \<Rightarrow> command option \<Rightarrow> fifo \<Rightarrow> fifo" where
  "fifo_clk re w s = fifo_read re s (fifo_write w s s)"

definition fifo_reset :: "fifo \<Rightarrow> fifo" where
  "fifo_reset s = s\<lparr>head := 0, tail := 0, read_counter := 0, dat_r := 0\<rparr>"

section \<open>The queue as a list\<close>

text \<open>The commands in the queue, the addresses a command stands for, and the addresses still to be
  handed out.\<close>

definition pending :: "fifo \<Rightarrow> command list" where
  "pending s = map (\<lambda>i. mem s ! unat (tail s + of_nat i)) [0..<unat (fifo_size s)]"

definition expand :: "command \<Rightarrow> u18 list" where
  "expand c = map (\<lambda>i. addr c + of_nat i * d_addr c) [0..<unat (copy_count c)]"

definition outstanding :: "fifo \<Rightarrow> u18 list" where
  "outstanding s = drop (unat (read_counter s)) (concat (map expand (pending s)))"

definition fifo_ok :: "fifo \<Rightarrow> bool" where
  "fifo_ok s \<longleftrightarrow>
     length (mem s) = 64 \<and> unat (fifo_size s) \<le> 60 \<and> (\<forall>c \<in> set (pending s). copy_count c \<noteq> 0)
     \<and> (case pending s of
          [] \<Rightarrow> read_counter s = 0
        | c # cs \<Rightarrow> read_counter s < copy_count c
            \<and> (read_counter s \<noteq> 0 \<longrightarrow> dat_r s = addr c + of_nat (unat (read_counter s) - 1) * d_addr c))"

lemma fifo_size_eq: "fifo_size s = head s - tail s"
proof -
  have "(64 :: 6 word) = 0" by simp
  then have "63 - tail s + head s + 1 = head s - tail s" by (simp add: algebra_simps)
  then show ?thesis by (simp add: fifo_size_def)
qed

lemma unat_of_nat6: "i < 64 \<Longrightarrow> unat (of_nat i :: 6 word) = i"
  by (simp only: unat_of_nat) simp

lemma unat6: "unat (x :: 6 word) < 64"
  using unsigned_less [of x] by simp

lemma unat6_Suc: "unat (x :: 6 word) \<le> 60 \<Longrightarrow> unat (x + 1) = Suc (unat x)"
  by (simp add: unat_plus_if')

lemma pending_cong: "mem s = mem t \<Longrightarrow> head s = head t \<Longrightarrow> tail s = tail t \<Longrightarrow> pending s = pending t"
  by (simp add: pending_def fifo_size_def)

lemma length_pending: "length (pending s) = unat (fifo_size s)"
  by (simp add: pending_def)

lemma pending_Nil: "pending s = [] \<longleftrightarrow> \<not> emptyn s"
  by (simp add: pending_def emptyn_def unat_eq_0 word_gt_0)

lemma size_grows:
  "unat (fifo_size s) \<le> 60 \<Longrightarrow> unat (head s + 1 - tail s) = Suc (unat (fifo_size s))"
proof -
  assume "unat (fifo_size s) \<le> 60"
  moreover have "head s + 1 - tail s = fifo_size s + 1" by (simp add: fifo_size_eq)
  ultimately show ?thesis by (simp only: unat6_Suc)
qed

lemma pending_write:
  assumes "length (mem s) = 64" and "unat (fifo_size s) \<le> 60"
  shows "pending (s\<lparr>mem := (mem s)[unat (head s) := c], head := head s + 1\<rparr>) = pending s @ [c]"
proof -
  have "unat (head s) \<noteq> unat (tail s + of_nat i)" if "i < unat (fifo_size s)" for i
  proof
    assume "unat (head s) = unat (tail s + of_nat i)"
    then have "tail s + of_nat i = head s" by (metis word_unat_eq_iff)
    then have "of_nat i = fifo_size s" unfolding fifo_size_eq by (metis add_diff_cancel_left')
    then have "unat (of_nat i :: 6 word) = unat (fifo_size s)" by simp
    then show False using that unat6 [of "fifo_size s"] unat_of_nat6 [of i] by simp
  qed
  moreover have "tail s + of_nat (unat (fifo_size s)) = head s"
    by (simp add: fifo_size_eq)
  moreover have "unat (head s) < 64" by (rule unat6)
  ultimately show ?thesis
    using assms by (simp add: pending_def fifo_size_eq [of "s\<lparr>mem := x, head := y\<rparr>" for x y] size_grows)
qed

lemma pending_pop:
  assumes "emptyn s"
  shows "pending (s\<lparr>tail := tail s + 1\<rparr>) = tl (pending s)"
    and "hd (pending s) = mem s ! unat (tail s)"
proof -
  have pos: "0 < unat (fifo_size s)" using assms by (simp add: emptyn_def word_gt_0 unat_gt_0)
  have "fifo_size s \<noteq> 0" using assms by (simp add: emptyn_def word_gt_0)
  then have "unat (fifo_size s - 1) = unat (fifo_size s) - 1" by (rule unat_minus_one)
  moreover have "head s - (tail s + 1) = fifo_size s - 1" by (simp add: fifo_size_eq)
  ultimately have n: "unat (head s - (tail s + 1)) = unat (fifo_size s) - 1" by (simp only:)
  obtain m where m: "unat (fifo_size s) = Suc m" using pos by (cases "unat (fifo_size s)") auto
  show "pending (s\<lparr>tail := tail s + 1\<rparr>) = tl (pending s)"
    unfolding pending_def fifo_size_eq [of "s\<lparr>tail := x\<rparr>" for x]
    by (simp add: n m upt_conv_Cons map_Suc_upt [symmetric] add.assoc del: upt_Suc)
  show "hd (pending s) = mem s ! unat (tail s)"
    by (simp add: pending_def m upt_conv_Cons del: upt_Suc)
qed

text \<open>Writing adds what the command stands for.\<close>

definition fifo_ins :: "command option \<Rightarrow> u18 list" where
  "fifo_ins w = (case w of None \<Rightarrow> [] | Some c \<Rightarrow> expand c)"

definition fifo_accepts :: "command option \<Rightarrow> fifo \<Rightarrow> bool" where
  "fifo_accepts w s \<longleftrightarrow> (case w of None \<Rightarrow> True | Some c \<Rightarrow> \<not> fifo_full s \<and> copy_count c \<noteq> 0)"

lemma length_expand [simp]: "length (expand c) = unat (copy_count c)"
  by (simp add: expand_def)

lemma pending_write_Some:
  "fifo_ok s \<Longrightarrow> \<not> fifo_full s \<Longrightarrow> pending (fifo_write (Some c) s s) = pending s @ [c]"
  by (simp add: fifo_write_def pending_write fifo_ok_def)

lemma size_write_Some:
  assumes "fifo_ok s" and "\<not> fifo_full s"
  shows "unat (fifo_size (fifo_write (Some c) s s)) \<le> 60"
proof -
  have "unat (fifo_size s) \<noteq> unat (60 :: 6 word)"
    using assms(2) by (metis fifo_full_def word_unat_eq_iff)
  then have "unat (fifo_size s) < 60" using assms(1) by (simp add: fifo_ok_def)
  then show ?thesis
    using assms(2) by (simp add: fifo_write_def fifo_size_eq [of "s\<lparr>mem := x, head := y\<rparr>" for x y] size_grows)
qed

lemma fifo_write_ok:
  assumes "fifo_ok s" and "fifo_accepts w s"
  shows "fifo_ok (fifo_write w s s)" and "outstanding (fifo_write w s s) = outstanding s @ fifo_ins w"
proof -
  have "fifo_ok (fifo_write w s s) \<and> outstanding (fifo_write w s s) = outstanding s @ fifo_ins w"
  proof (cases w)
    case None
    then show ?thesis using assms by (simp add: fifo_write_def fifo_ins_def)
  next
    case (Some c)
    then have c: "\<not> fifo_full s" "copy_count c \<noteq> 0" using assms(2) by (simp_all add: fifo_accepts_def)
    note p = pending_write_Some [OF assms(1) c(1)]
    have t: "mem (fifo_write w s s) = (mem s)[unat (head s) := c]" "read_counter (fifo_write w s s) = read_counter s"
      "dat_r (fifo_write w s s) = dat_r s"
      using c by (simp_all add: Some fifo_write_def)
    have ok: "fifo_ok (fifo_write w s s)"
      using assms(1) c size_write_Some [OF assms(1) c(1)] unfolding fifo_ok_def t
      by (cases "pending s") (simp_all add: Some p word_gt_0)
    have "unat (read_counter s) \<le> length (concat (map expand (pending s)))"
    proof (cases "pending s")
      case (Cons d ds)
      then have "read_counter s < copy_count d" using assms(1) by (simp add: fifo_ok_def)
      then show ?thesis by (simp add: Cons word_less_nat_alt)
    qed (use assms(1) in \<open>simp add: fifo_ok_def\<close>)
    then have "outstanding (fifo_write w s s) = outstanding s @ fifo_ins w"
      unfolding outstanding_def t by (simp add: Some p fifo_ins_def)
    with ok show ?thesis by simp
  qed
  then show "fifo_ok (fifo_write w s s)" and "outstanding (fifo_write w s s) = outstanding s @ fifo_ins w"
    by simp_all
qed

text \<open>Reading hands out the first outstanding address.\<close>

lemma fifo_read_ok:
  assumes "fifo_ok s" and "emptyn s"
  shows "fifo_ok (fifo_read True s s)"
    and "dat_r (fifo_read True s s) # outstanding (fifo_read True s s) = outstanding s"
proof -
  obtain c cs where p: "pending s = c # cs"
    using assms(2) pending_Nil by (cases "pending s") auto
  have c: "mem s ! unat (tail s) = c" using pending_pop(2) [OF assms(2)] p by simp
  have r: "read_counter s < copy_count c"
    "read_counter s \<noteq> 0 \<Longrightarrow> dat_r s = addr c + of_nat (unat (read_counter s) - 1) * d_addr c"
    using assms(1) p by (simp_all add: fifo_ok_def)
  define k where "k = unat (read_counter s)"
  have k: "k < unat (copy_count c)" "unat (copy_count c) < 32" "uint (read_counter s) = int k"
    using r(1) unsigned_less [of "copy_count c"] by (simp_all add: k_def word_less_nat_alt)
  have out: "(if read_counter s = 0 then addr c else dat_r s + d_addr c) = addr c + of_nat k * d_addr c"
  proof (cases "read_counter s = 0")
    case False
    then obtain l where "k = Suc l" unfolding k_def by (metis not0_implies_Suc unat_eq_0)
    then show ?thesis using False r(2) by (simp add: k_def [symmetric] algebra_simps)
  qed (simp add: k_def)
  let ?L = "concat (map expand (pending s))"
  have "k < length ?L" using k(1) by (simp add: p)
  then have "outstanding s = ?L ! k # drop (Suc k) ?L"
    by (simp only: outstanding_def k_def Cons_nth_drop_Suc)
  moreover have "?L ! k = addr c + of_nat k * d_addr c"
    using k(1) by (simp add: p nth_append) (simp add: expand_def)
  ultimately have first: "outstanding s = (addr c + of_nat k * d_addr c) # drop (Suc k) ?L" by simp
  have "int (Suc k) = int (unat (copy_count c)) \<longleftrightarrow> Suc k = unat (copy_count c)" by (simp only: of_nat_eq_iff)
  then have last: "uint (read_counter s) + 1 = uint (copy_count c) \<longleftrightarrow> Suc k = unat (copy_count c)"
    by (simp add: k(3) add.commute)
  have "fifo_ok (fifo_read True s s) \<and> outstanding (fifo_read True s s) = drop (Suc k) ?L"
  proof (cases "Suc k = unat (copy_count c)")
    case True
    then have t: "fifo_read True s s
        = s\<lparr>tail := tail s + 1, read_counter := 0, dat_r := addr c + of_nat k * d_addr c\<rparr>"
      using assms(2) by (simp add: fifo_read_def Let_def c out last)
    have pend: "pending (fifo_read True s s) = cs"
      unfolding t using pending_pop(1) [OF assms(2)] pending_cong [of "s\<lparr>tail := x, read_counter := y, dat_r := z\<rparr>" "s\<lparr>tail := x\<rparr>" for x y z]
      by (simp add: p)
    have regs: "mem (fifo_read True s s) = mem s" "read_counter (fifo_read True s s) = 0" by (simp_all add: t)
    have "unat (fifo_size (fifo_read True s s)) \<le> 60"
      using assms(1) length_pending [of s] length_pending [of "fifo_read True s s"] by (simp add: fifo_ok_def p pend)
    then have "fifo_ok (fifo_read True s s)"
      using assms(1) unfolding fifo_ok_def regs pend p by (cases cs) (simp_all add: word_gt_0)
    moreover have "outstanding (fifo_read True s s) = drop (Suc k) ?L"
      unfolding outstanding_def regs pend by (simp add: p True)
    ultimately show ?thesis by simp
  next
    case False
    then have t: "fifo_read True s s
        = s\<lparr>read_counter := read_counter s + 1, dat_r := addr c + of_nat k * d_addr c\<rparr>"
      using assms(2) by (simp add: fifo_read_def Let_def c out last)
    have pend: "pending (fifo_read True s s) = pending s"
      by (simp add: t pending_def fifo_size_def)
    have regs: "mem (fifo_read True s s) = mem s" "fifo_size (fifo_read True s s) = fifo_size s"
      "read_counter (fifo_read True s s) = read_counter s + 1"
      "dat_r (fifo_read True s s) = addr c + of_nat k * d_addr c"
      by (simp_all add: t fifo_size_def)
    have "unat (read_counter s + 1) = Suc k"
      using k(1,2) by (simp add: k_def unat_plus_if')
    then show ?thesis
      using assms(1) False k(1) unfolding fifo_ok_def outstanding_def regs pend p
      by (simp add: word_less_nat_alt)
  qed
  then show "fifo_ok (fifo_read True s s)"
    and "dat_r (fifo_read True s s) # outstanding (fifo_read True s s) = outstanding s"
    using assms(2) by (simp_all add: first) (simp add: fifo_read_def Let_def c out)
qed

text \<open>One clock with both: the read sees the queue before the write, which makes no difference.\<close>

definition fifo_step :: "bool \<times> command option \<Rightarrow> fifo \<Rightarrow> fifo" where
  "fifo_step i s = fifo_clk (fst i) (snd i) s"

definition fifo_outs :: "bool \<times> command option \<Rightarrow> fifo \<Rightarrow> u18 list" where
  "fifo_outs i s = (if fst i \<and> emptyn s then [dat_r (fifo_step i s)] else [])"

lemma read_sees_write:
  assumes "fifo_ok s" and "fifo_accepts w s" and "emptyn s"
  defines "t \<equiv> fifo_write w s s"
  shows "fifo_clk True w s = fifo_read True t t \<and> emptyn t"
proof (cases w)
  case None
  then have "t = s" by (simp add: t_def fifo_write_def)
  then show ?thesis using assms(3) by (simp add: fifo_clk_def t_def [symmetric])
next
  case (Some c)
  then have "\<not> fifo_full s" using assms(2) by (simp add: fifo_accepts_def)
  then have p: "pending t = pending s @ [c]" and regs: "read_counter t = read_counter s" "tail t = tail s" "dat_r t = dat_r s"
    using assms(1) by (simp_all add: t_def Some pending_write_Some) (simp_all add: fifo_write_def)
  have ne: "pending s \<noteq> []" using assms(3) pending_Nil by simp
  then have e: "emptyn t" using p pending_Nil [of t] by auto
  then have "mem t ! unat (tail t) = mem s ! unat (tail s)"
    using pending_pop(2) [OF e] pending_pop(2) [OF assms(3)] p ne by simp
  then show ?thesis
    using e assms(3) by (simp add: fifo_clk_def fifo_read_def t_def [symmetric] regs Let_def)
qed

interpretation prefetch_queue:
  conserving fifo_step fifo_ok "\<lambda>i :: bool \<times> command option. fifo_accepts (snd i)" outstanding
    "\<lambda>i s. fifo_ins (snd i)" fifo_outs
proof unfold_locales
  fix s and i :: "bool \<times> command option"
  assume s: "fifo_ok s" "fifo_accepts (snd i) s"
  note w = fifo_write_ok [OF s]
  have "fifo_ok (fifo_step i s) \<and> fifo_outs i s @ outstanding (fifo_step i s) = outstanding s @ fifo_ins (snd i)"
  proof (cases "fst i \<and> emptyn s")
    case True
    note t = read_sees_write [OF s conjunct2 [OF True]]
    show ?thesis
      using fifo_read_ok [OF w(1) conjunct2 [OF t]] w(2) True t by (simp add: fifo_step_def fifo_outs_def)
  next
    case False
    then have "fifo_step i s = fifo_write (snd i) s s"
      by (auto simp: fifo_step_def fifo_clk_def fifo_read_def)
    then show ?thesis using w False by (simp add: fifo_outs_def)
  qed
  then show "fifo_ok (fifo_step i s)"
    and "fifo_outs i s @ outstanding (fifo_step i s) = outstanding s @ fifo_ins (snd i)"
    by simp_all
qed

text \<open>Without a write the queue does not get full.\<close>

lemma not_full_stays:
  assumes "fifo_ok s" and "\<not> fifo_full s"
  shows "\<not> fifo_full (fifo_clk re None s)"
proof -
  have "unat (fifo_size (fifo_clk re None s)) \<le> unat (fifo_size s)"
  proof -
    have "unat (head s - (tail s + 1)) \<le> unat (fifo_size s)" if "emptyn s"
    proof -
      have "fifo_size s \<noteq> 0" using that by (simp add: emptyn_def word_gt_0)
      then have "unat (fifo_size s - 1) = unat (fifo_size s) - 1" by (rule unat_minus_one)
      moreover have "head s - (tail s + 1) = fifo_size s - 1" by (simp add: fifo_size_eq)
      ultimately show ?thesis by (simp only:)
    qed
    then show ?thesis
      by (auto simp: fifo_clk_def fifo_write_def fifo_read_def Let_def fifo_size_eq)
  qed
  moreover have "unat (fifo_size s) \<noteq> unat (60 :: 6 word)"
    using assms(2) by (metis fifo_full_def word_unat_eq_iff)
  moreover have "unat (60 :: 6 word) = 60" by simp
  ultimately have "unat (fifo_size (fifo_clk re None s)) \<noteq> unat (60 :: 6 word)"
    using assms(1) unfolding fifo_ok_def by linarith
  then show ?thesis by (auto simp: fifo_full_def)
qed

lemma fifo_step_length:
  assumes "fifo_ok s" and "fifo_accepts w s"
  shows "length (pending (fifo_step (re, w) s)) \<le> length (pending s) + (if w = None then 0 else 1)"
proof -
  let ?t = "fifo_write w s s"
  have t: "length (pending ?t) = length (pending s) + (if w = None then 0 else 1)"
    using assms by (cases w) (simp_all add: pending_write_Some fifo_accepts_def, simp add: fifo_write_def)
  show ?thesis
  proof (cases "re \<and> emptyn s")
    case True
    note r = read_sees_write [OF assms conjunct2 [OF True]]
    let ?r = "fifo_read True ?t ?t"
    have "mem ?r = mem ?t" "head ?r = head ?t" "tail ?r = tail ?t \<or> tail ?r = tail ?t + 1"
      by (simp_all add: fifo_read_def Let_def)
    then have "pending ?r = pending ?t \<or> pending ?r = pending (?t\<lparr>tail := tail ?t + 1\<rparr>)"
      using pending_cong [of ?r ?t] pending_cong [of ?r "?t\<lparr>tail := tail ?t + 1\<rparr>"] by auto
    then have "pending ?r = pending ?t \<or> pending ?r = tl (pending ?t)"
      using pending_pop(1) [OF conjunct2 [OF r]] by simp
    then have "length (pending (fifo_read True ?t ?t)) \<le> length (pending ?t)" by auto
    then show ?thesis using t r True by (simp add: fifo_step_def)
  next
    case False
    then have "fifo_step (re, w) s = ?t" by (auto simp: fifo_step_def fifo_clk_def fifo_read_def)
    then show ?thesis using t by simp
  qed
qed

end
