(* ===== verification/Device.thy ===== *)
theory Device
  imports Prefetch ControlLoop
begin

text \<open>
  The front of the device as top.sv wires it: the control unit, the register that turns a pushed
  \<^verbatim>\<open>cisa_mem_read\<close> into a prefetch command, and the queue of these commands, whose
  \<^verbatim>\<open>full\<close> holds the control unit back.  The inputs of a clock are the instruction queue's
  own stall and the packet sender's read strobe.
\<close>

section \<open>One clock\<close>

record device =
  control :: cu
  prefetch_command_we :: bool
  prefetch_command_dat_w :: command
  prefetch :: fifo

definition prefetch_command :: "cu \<Rightarrow> command option" where
  "prefetch_command c =
     (if queue_we c \<and> queue_instr_type c = INSTR_TYPE_RAM \<and> \<not> queue_ram_instr c ! 0
      then Some \<lparr>copy_count = ucast (queue_copy_count c), addr = main_mem_addr c, d_addr = d_main_mem_addr c\<rparr>
      else None)"

definition device_stall :: "bool \<times> bool \<Rightarrow> device \<Rightarrow> bool" where
  "device_stall i d \<longleftrightarrow> fst i \<or> fifo_full (prefetch d)"

definition device_write :: "device \<Rightarrow> command option" where
  "device_write d = (if prefetch_command_we d then Some (prefetch_command_dat_w d) else None)"

definition device_clk :: "env \<Rightarrow> u18 \<Rightarrow> bool \<times> bool \<Rightarrow> device \<Rightarrow> device" where
  "device_clk E W i d =
     \<lparr>control = cu_clk E W (device_stall i d) (control d),
      prefetch_command_we = (prefetch_command (control d) \<noteq> None),
      prefetch_command_dat_w = (case prefetch_command (control d) of
          None \<Rightarrow> prefetch_command_dat_w d | Some c \<Rightarrow> c),
      prefetch = fifo_step (snd i, device_write d) (prefetch d)\<rparr>"

text \<open>The addresses the packet sender reads, and the pushes of the control unit.\<close>

definition device_reads :: "bool \<times> bool \<Rightarrow> device \<Rightarrow> u18 list" where
  "device_reads i d = fifo_outs (snd i, device_write d) (prefetch d)"

definition device_pushes :: "env \<Rightarrow> u18 \<Rightarrow> bool \<times> bool \<Rightarrow> device \<Rightarrow> push list" where
  "device_pushes E W i d = pushed (control (device_clk E W i d))"

lemma device_control:
  "control (run (device_clk E W) is d)
     = snd (cu_run E W (trace (device_clk E W) (\<lambda>i d. [device_stall i d]) is d) (control d))"
  "trace (device_clk E W) (device_pushes E W) is d
     = fst (cu_run E W (trace (device_clk E W) (\<lambda>i d. [device_stall i d]) is d) (control d))"
  by (induction "is" arbitrary: d) (simp_all add: device_pushes_def device_clk_def Let_def)

section \<open>Nothing is lost\<close>

text \<open>What a push asks the queue to read.\<close>

definition push_command :: "push \<Rightarrow> command option" where
  "push_command p =
     (case p of
        PushRam c instr ca dca ma dma \<Rightarrow>
          if \<not> instr ! 0 then Some \<lparr>copy_count = ucast c, addr = ma, d_addr = dma\<rparr> else None
      | _ \<Rightarrow> None)"

definition push_reads :: "push list \<Rightarrow> u18 list" where
  "push_reads ps = concat (map (\<lambda>p. case push_command p of None \<Rightarrow> [] | Some c \<Rightarrow> expand c) ps)"

lemma push_reads_simps [simp]:
  "push_reads [] = []" "push_reads (ps @ qs) = push_reads ps @ push_reads qs"
  by (simp_all add: push_reads_def)

lemma push_reads_concat: "push_reads (concat pss) = concat (map push_reads pss)"
  by (induction pss) simp_all

text \<open>The assertion of the queue on the copy count, for the pushes of one clock.\<close>

definition counts_ok :: "push list \<Rightarrow> bool" where
  "counts_ok ps \<longleftrightarrow> (\<forall>p \<in> set ps. \<forall>c. push_command p = Some c \<longrightarrow> copy_count c \<noteq> 0)"

definition device_ok :: "device \<Rightarrow> bool" where
  "device_ok d \<longleftrightarrow>
     fifo_ok (prefetch d)
     \<and> (queue_we (control d) \<longrightarrow> \<not> prefetch_command_we d \<and> S (control d) \<in> {UPDATE_PC, FINISH_PROGRAM_2})
     \<and> (prefetch_command_we d \<longrightarrow> S (control d) \<notin> {INSERT_TO_QUEUE, UPDATE_PC})
     \<and> (prefetch_command (control d) \<noteq> None \<longrightarrow> \<not> fifo_full (prefetch d) \<and> counts_ok (pushed (control d)))
     \<and> fifo_accepts (device_write d) (prefetch d)"

definition in_device :: "device \<Rightarrow> u18 list" where
  "in_device d = outstanding (prefetch d) @ fifo_ins (device_write d) @ push_reads (pushed (control d))"

lemma pushed_command:
  "push_reads (pushed c) = fifo_ins (prefetch_command c)"
  "counts_ok (pushed c) \<Longrightarrow> prefetch_command c = Some x \<Longrightarrow> copy_count x \<noteq> 0"
  by (auto simp: pushed_def prefetch_command_def push_reads_def push_command_def fifo_ins_def counts_ok_def
      split: instr_type.splits if_splits)

lemma insert_not_full:
  assumes "prefetch_command (cu_clk E W stall c) \<noteq> None" and "queue_we c \<longrightarrow> S c \<in> {UPDATE_PC, FINISH_PROGRAM_2}"
  shows "S c = INSERT_TO_QUEUE \<and> \<not> stall"
  using assms
  by (cases "S c") (auto simp: prefetch_command_def cu_clk_def cu_step_def cu_steps Let_def split: if_splits)

lemma state_before:
  "S (cu_clk E W stall c) = INSERT_TO_QUEUE \<Longrightarrow> S c \<in> {DECODE, INSERT_TO_QUEUE}"
  "S (cu_clk E W stall c) = UPDATE_PC \<Longrightarrow> S c \<in> {UPDATE_APU, INSERT_TO_QUEUE}"
  by (cases "S c"; auto simp: cu_clk_def cu_step_def cu_steps Let_def split: if_splits instr_type.splits)+

lemma strobe_after:
  assumes "queue_we (cu_clk E W stall c)" and "queue_we c \<longrightarrow> S c \<in> {UPDATE_PC, FINISH_PROGRAM_2}"
  shows "S c \<in> {INSERT_TO_QUEUE, FINISH_PROGRAM_1} \<and> S (cu_clk E W stall c) \<in> {UPDATE_PC, FINISH_PROGRAM_2}"
  using assms
  by (cases "S c") (auto simp: cu_clk_def cu_step_def cu_steps Let_def split: if_splits instr_type.splits)

interpretation device_queue:
  conserving "device_clk E W" device_ok "\<lambda>i d. counts_ok (device_pushes E W i d)" in_device
    "\<lambda>i d. push_reads (device_pushes E W i d)" device_reads
  for E W
proof unfold_locales
  fix d and i :: "bool \<times> bool"
  assume d: "device_ok d" and ok: "counts_ok (device_pushes E W i d)"
  let ?d = "device_clk E W i d" and ?c = "control d"
  have fifo: "fifo_ok (prefetch d)" "fifo_accepts (snd (snd i, device_write d)) (prefetch d)"
    using d by (simp_all add: device_ok_def)
  note q = prefetch_queue.step_inv [OF fifo] prefetch_queue.step_conserves [OF fifo]
  have w: "device_write ?d = prefetch_command ?c"
    by (simp add: device_write_def device_clk_def split: option.split)
  show "device_reads i d @ in_device ?d = in_device d @ push_reads (device_pushes E W i d)"
    using q(2) by (simp add: in_device_def device_reads_def w pushed_command(1) device_pushes_def) (simp add: device_clk_def)
  have we: "queue_we ?c \<longrightarrow> S ?c \<in> {UPDATE_PC, FINISH_PROGRAM_2}" "queue_we ?c \<longrightarrow> \<not> prefetch_command_we d"
    "prefetch_command_we d \<longrightarrow> S ?c \<notin> {INSERT_TO_QUEUE, UPDATE_PC}"
    "prefetch_command ?c \<noteq> None \<longrightarrow> \<not> fifo_full (prefetch d) \<and> counts_ok (pushed ?c)"
    using d by (simp_all add: device_ok_def)
  have pc: "prefetch_command ?c \<noteq> None \<Longrightarrow> queue_we ?c"
    by (simp add: prefetch_command_def split: if_splits)
  have c': "control ?d = cu_clk E W (device_stall i d) ?c" by (simp add: device_clk_def)
  have stays: "\<not> fifo_full (prefetch ?d)" if "\<not> prefetch_command_we d" "\<not> fifo_full (prefetch d)"
    using not_full_stays [OF fifo(1) that(2), of "snd i"] that(1)
    by (simp add: device_clk_def fifo_step_def device_write_def)
  have 2: "queue_we (control ?d) \<longrightarrow> \<not> prefetch_command_we ?d \<and> S (control ?d) \<in> {UPDATE_PC, FINISH_PROGRAM_2}"
    using strobe_after [of E W "device_stall i d" ?c] we(1) pc
    by (auto simp: c') (auto simp: device_clk_def)
  have 3: "prefetch_command_we ?d \<longrightarrow> S (control ?d) \<notin> {INSERT_TO_QUEUE, UPDATE_PC}"
    using state_before [of E W "device_stall i d" ?c] we(1) pc by (auto simp: c') (auto simp: device_clk_def)
  have 4: "prefetch_command (control ?d) \<noteq> None \<longrightarrow>
      \<not> fifo_full (prefetch ?d) \<and> counts_ok (pushed (control ?d))"
  proof
    assume "prefetch_command (control ?d) \<noteq> None"
    then have "S ?c = INSERT_TO_QUEUE" "\<not> device_stall i d"
      using insert_not_full [of E W "device_stall i d" ?c] we(1) by (simp_all add: c')
    then show "\<not> fifo_full (prefetch ?d) \<and> counts_ok (pushed (control ?d))"
      using stays we(3) ok by (simp add: device_stall_def device_pushes_def)
  qed
  have 5: "fifo_accepts (device_write ?d) (prefetch ?d)"
    using stays we(2,4) pc pushed_command(2) [of ?c] by (auto simp: fifo_accepts_def w split: option.split)
  show "device_ok ?d"
    using q(1) 2 3 4 5 by (simp add: device_ok_def) (simp add: device_clk_def)
qed

section \<open>Runs from reset\<close>

definition device_start :: "device \<Rightarrow> bool" where
  "device_start d \<longleftrightarrow>
     waiting (control d) \<and> \<not> prefetch_command_we d \<and> length (mem (prefetch d)) = 64
     \<and> head (prefetch d) = 0 \<and> tail (prefetch d) = 0 \<and> read_counter (prefetch d) = 0"

lemma device_start_ok:
  assumes "device_start d"
  shows "device_ok d" and "in_device d = []"
proof -
  have "queue_we (control d) = False" "fifo_size (prefetch d) = 0"
    using assms by (simp_all add: device_start_def waiting_def fifo_size_def)
  then have p: "pending (prefetch d) = []" "prefetch_command (control d) = None" "pushed (control d) = []"
    by (simp_all add: pending_def prefetch_command_def pushed_def)
  then show "device_ok d"
    using assms by (simp add: device_ok_def device_start_def fifo_ok_def length_pending [symmetric]
        fifo_accepts_def device_write_def pushed_def split: if_splits)
  show "in_device d = []"
    using assms p by (simp add: in_device_def device_start_def outstanding_def device_write_def fifo_ins_def)
qed

lemma always_counts:
  "always (device_clk E W) (\<lambda>i d. counts_ok (device_pushes E W i d)) is d
     \<longleftrightarrow> counts_ok (trace (device_clk E W) (device_pushes E W) is d)"
  by (induction "is" arbitrary: d) (auto simp: counts_ok_def)

lemma always_accepts:
  "device_ok d \<Longrightarrow> always (device_clk E W) (\<lambda>i d. counts_ok (device_pushes E W i d)) is d \<Longrightarrow>
     always (device_clk E W) (\<lambda>i d. fifo_accepts (device_write d) (prefetch d)) is d"
proof (induction "is" arbitrary: d)
  case (Cons i "is")
  then show ?case
    using device_queue.step_inv [of d E W i] by (simp add: device_ok_def [of d])
qed simp

lemma push_reads_trace:
  "trace (device_clk E W) (\<lambda>i d. push_reads (device_pushes E W i d)) is d
     = push_reads (trace (device_clk E W) (device_pushes E W) is d)"
  by (induction "is" arbitrary: d) simp_all

lemma device_lossless:
  assumes "device_start d" and "counts_ok (trace (device_clk E W) (device_pushes E W) is d)"
  shows "always (device_clk E W) (\<lambda>i d. fifo_accepts (device_write d) (prefetch d)) is d"
    and "trace (device_clk E W) device_reads is d @ in_device (run (device_clk E W) is d)
         = push_reads (trace (device_clk E W) (device_pushes E W) is d)"
proof -
  note ok = device_start_ok [OF assms(1)]
  have counts: "always (device_clk E W) (\<lambda>i d. counts_ok (device_pushes E W i d)) is d"
    using assms(2) by (simp only: always_counts)
  show "always (device_clk E W) (\<lambda>i d. fifo_accepts (device_write d) (prefetch d)) is d"
    by (rule always_accepts [OF ok(1) counts])
  show "trace (device_clk E W) device_reads is d @ in_device (run (device_clk E W) is d)
      = push_reads (trace (device_clk E W) (device_pushes E W) is d)"
    using device_queue.run_conserves [OF ok(1) counts] ok(2) by (simp add: push_reads_trace)
qed

definition idle_device :: device where
  "idle_device =
     \<lparr>control = cu_reset cu_blank, prefetch_command_we = False,
      prefetch_command_dat_w = \<lparr>copy_count = 0, addr = 0, d_addr = 0\<rparr>,
      prefetch = \<lparr>mem = replicate 64 \<lparr>copy_count = 0, addr = 0, d_addr = 0\<rparr>, head = 0, tail = 0,
                   read_counter = 0, dat_r = 0\<rparr>\<rparr>"

lemma idle_device_start: "device_start idle_device"
proof -
  have "waiting (cu_reset cu_blank)" by (rule waiting_reset) (simp add: cu_blank_def)
  then show ?thesis by (simp add: device_start_def idle_device_def)
qed

text \<open>C12. The queue of prefetch commands loses nothing: whatever program runs, however the instruction
  queue stalls and whenever the sender reads, as long as the pushed copy counts are not zero, no
  command is ever written while the queue is full, and the addresses the sender has read,
  followed by those still in the device, are those of all pushed reads, in the order of the pushes.\<close>

theorem prefetch_never_lost:
  assumes "device_start d"
    and "counts_ok (trace (device_clk E W) (device_pushes E W) is d)"
  shows "always (device_clk E W) (\<lambda>i d. fifo_accepts (device_write d) (prefetch d)) is d
     \<and> trace (device_clk E W) device_reads is d @ in_device (run (device_clk E W) is d)
         = push_reads (trace (device_clk E W) (device_pushes E W) is d)"
  using device_lossless [OF assms] by simp

section \<open>One loop\<close>

text \<open>The main memory units of the reads in the body.\<close>

definition ram_unit :: "bits \<Rightarrow> nat" where
  "ram_unit raw = nat (bits_uint (slice 4 6 (slice 2 10 raw)))"

definition is_read :: "bits \<Rightarrow> bool" where
  "is_read raw \<longleftrightarrow> instruction_type raw = INSTR_TYPE_RAM \<and> \<not> slice 2 10 raw ! 0"

definition read_units :: "env \<Rightarrow> nat \<Rightarrow> nat \<Rightarrow> nat list" where
  "read_units E a m =
     map ram_unit (filter is_read (map (\<lambda>k. icache E (of_nat (a + 1 + k))) [0..<m]))"

lemma ram_unit_less: "ram_unit raw < 8"
proof -
  have "length (slice 4 6 (slice 2 10 raw)) \<le> 3" by (simp add: slice_def)
  then have "(2 :: int) ^ length (slice 4 6 (slice 2 10 raw)) \<le> 2 ^ 3" by (intro power_increasing) simp_all
  then have "bits_uint (slice 4 6 (slice 2 10 raw)) < 8"
    using bits_uint_range [of "slice 4 6 (slice 2 10 raw)"] by simp
  then show ?thesis by (simp add: ram_unit_def)
qed

lemma unat_count: "c \<le> 16 \<Longrightarrow> unat (ucast (of_nat c :: u18) :: 5 word) = c"
proof -
  assume c: "c \<le> 16"
  have "unat (of_nat c :: u18) = c" using c by (intro unat_of_nat18) simp
  moreover have "take_bit 5 c = c" using c by (simp add: take_bit_nat_eq_self)
  ultimately show ?thesis by (simp only: unsigned_ucast_eq) simp
qed

lemma body_reads:
  assumes "length F = 8" and "length R = 8" and "c \<le> 16"
  shows "push_reads [body_push F (shifted F 0 v R) (of_nat c) raw]
     = (if is_read raw then map (\<lambda>x. R ! ram_unit raw + of_nat x * daddr_di (F ! ram_unit raw) 0) [v..<v + c] else [])"
proof (cases "is_read raw")
  case True
  let ?u = "ram_unit raw"
  have u: "?u < 8" by (rule ram_unit_less)
  have "push_reads [body_push F (shifted F 0 v R) (of_nat c) raw]
      = map (\<lambda>i. shifted F 0 v R ! ?u + of_nat i * daddr_di (F ! ?u) 0) [0..<c]"
    using True
    by (simp add: push_reads_def push_command_def body_push_def is_read_def Let_def expand_def unat_count [OF assms(3)]
        ram_unit_def)
  also have "\<dots> = map (\<lambda>x. R ! ?u + of_nat x * daddr_di (F ! ?u) 0) [v..<v + c]"
    using assms(1,2) u by (intro nth_equalityI) (simp_all add: shifted_def algebra_simps)
  finally show ?thesis using True by simp
next
  case False
  then show ?thesis
    by (auto simp: push_reads_def push_command_def body_push_def is_read_def Let_def split: instr_type.split)
qed

text \<open>The chunks of a loop, one after the other, are its iterations.\<close>

lemma chunks_are_iterations:
  assumes "0 < step"
  shows "concat (map (\<lambda>r. map f [r * step..<r * step + min step (n - r * step)]) [0..<k]) = map f [0..<min (k * step) n]"
proof (induction k)
  case (Suc k)
  have "[0..<min (k * step) n] @ [k * step..<k * step + min step (n - k * step)] = [0..<min (Suc k * step) n]"
  proof (cases "k * step \<le> n")
    case True
    then have "min (Suc k * step) n = k * step + min step (n - k * step)" by simp
    then show ?thesis using True upt_add_eq_append [of 0 "k * step" "min step (n - k * step)"]
      by (simp only: min_absorb1 le0)
  qed simp
  note this [symmetric]
  then show ?case using Suc by (simp only: upt_Suc_append le0 map_append concat_append list.map concat.simps append_Nil2)
qed simp

lemma round_reads:
  assumes "length F = 8" and "length R = 8" and "read_units E a m = [u]" and "w \<le> 16" and "0 < w"
  shows "push_reads (round_pushes E a m ind 0 n w F R v)
     = map (\<lambda>x. R ! u + of_nat x * daddr_di (F ! u) 0) [v..<v + min (loop_step ind w) (n - v)]"
proof -
  define c where "c = min (loop_step ind w) (n - v)"
  have c: "c \<le> 16" using assms(4,5) by (auto simp: c_def loop_step_def min_def)
  define raws where "raws = map (\<lambda>k. icache E (of_nat (a + 1 + k))) [0..<m]"
  define g where "g u' = map (\<lambda>x. R ! u' + of_nat x * daddr_di (F ! u') 0) [v..<v + c]" for u'
  have split: "push_reads (map (body_push F (shifted F 0 v R) (of_nat c)) xs) = concat (map g (map ram_unit (filter is_read xs)))" for xs
  proof (induction xs)
    case (Cons x xs)
    have "push_reads (map (body_push F (shifted F 0 v R) (of_nat c)) (x # xs))
        = push_reads [body_push F (shifted F 0 v R) (of_nat c) x] @ push_reads (map (body_push F (shifted F 0 v R) (of_nat c)) xs)"
      by (simp add: push_reads_def)
    then show ?case using Cons body_reads [OF assms(1,2) c, of v x] by (simp add: g_def)
  qed simp
  have "round_pushes E a m ind 0 n w F R v = map (body_push F (shifted F 0 v R) (of_nat c)) raws"
    by (simp add: round_pushes_def raws_def c_def)
  then have "push_reads (round_pushes E a m ind 0 n w F R v) = concat (map g (read_units E a m))"
    by (simp only: split read_units_def raws_def)
  then show ?thesis by (simp add: assms(3) g_def c_def)
qed

lemma counts_ok_append: "counts_ok (ps @ qs) \<longleftrightarrow> counts_ok ps \<and> counts_ok qs"
  by (auto simp: counts_ok_def)

lemma round_counts:
  assumes "v < n" and "w \<le> 16" and "0 < w"
  shows "counts_ok (round_pushes E a m ind j n w F R v)"
proof -
  define c where "c = min (loop_step ind w) (n - v)"
  have c: "c \<le> 16" "c \<noteq> 0" using assms by (auto simp: c_def loop_step_def min_def)
  have "copy_count x \<noteq> 0" if "push_command (body_push F regs (of_nat c) raw) = Some x" for regs raw x
  proof -
    have "copy_count x = ucast (of_nat c :: u18)"
      using that by (auto simp: push_command_def body_push_def Let_def split: instr_type.splits if_splits)
    then have "unat (copy_count x) = c" using unat_count [OF c(1)] by simp
    then show ?thesis using c(2) by auto
  qed
  then show ?thesis by (auto simp: counts_ok_def round_pushes_def c_def)
qed

lemma one_loop_counts:
  assumes "0 < n" and "w \<le> 16" and "0 < w"
  shows "counts_ok (concat (map (\<lambda>r. round_pushes E a m ind j n w F R (r * loop_step ind w))
           [0..<rounds n (loop_step ind w)]) @ [PushProgEnd])"
proof -
  have step: "0 < loop_step ind w" using assms(3) by (simp add: loop_step_def)
  have "counts_ok (concat (map (\<lambda>r. round_pushes E a m ind j n w F R (r * loop_step ind w)) rs))"
    if "\<forall>r \<in> set rs. r * loop_step ind w < n" for rs
    using that by (induction rs) (simp_all add: counts_ok_append round_counts assms, simp add: counts_ok_def)
  then show ?thesis
    using less_rounds [OF step] by (simp add: counts_ok_append) (simp add: counts_ok_def push_command_def)
qed

lemma one_loop_run_counts:
  assumes "device_start d" and "one_loop_program E a m ind j n" and "0 < n" and "n < 262144"
    and "w \<le> 16" and "0 < w"
  shows "counts_ok (trace (device_clk E (of_nat w)) (device_pushes E (of_nat w)) is d)"
proof -
  obtain rest where "concat (map (\<lambda>r. round_pushes E a m ind j n w (header_formulas E) (header_registers E)
      (r * loop_step ind w)) [0..<rounds n (loop_step ind w)]) @ [PushProgEnd]
      = trace (device_clk E (of_nat w)) (device_pushes E (of_nat w)) is d @ rest"
    using one_loop_prefix [OF _ assms(2-4) _ assms(6)] assms(1,5)
    unfolding device_control(2) device_start_def by auto
  then show ?thesis
    using one_loop_counts [OF assms(3,5,6), of E a m ind j "header_formulas E" "header_registers E"]
    by (simp add: counts_ok_append)
qed

theorem prefetch_never_lost_witness:
  "trace (device_clk small_env 2) device_reads (replicate 60 (False, True)) idle_device
     @ in_device (run (device_clk small_env 2) (replicate 60 (False, True)) idle_device)
   = push_reads (trace (device_clk small_env 2) (device_pushes small_env 2) (replicate 60 (False, True)) idle_device)"
proof -
  have "counts_ok (trace (device_clk small_env (of_nat 2)) (device_pushes small_env (of_nat 2))
      (replicate 60 (False, True)) idle_device)"
    by (rule one_loop_run_counts [OF idle_device_start small_env_program]) simp_all
  then have "counts_ok (trace (device_clk small_env 2) (device_pushes small_env 2)
      (replicate 60 (False, True)) idle_device)" by simp
  from prefetch_never_lost [OF idle_device_start this] show ?thesis by (rule conjunct2)
qed

lemma loop_reads:
  assumes "device_start d" and "one_loop_program E a m ind 0 n" and "0 < n" and "n < 262144"
    and "read_units E a m = [u]"
    and "program_clocks m (rounds n (loop_step ind 16))
           \<le> length (filter Not (trace (device_clk E 16) (\<lambda>i d. [device_stall i d]) is d))"
  shows "trace (device_clk E 16) device_reads is d @ in_device (run (device_clk E 16) is d)
     = map (\<lambda>x. header_registers E ! u + of_nat x * daddr_di (header_formulas E ! u) 0) [0..<n]"
proof -
  let ?step = "loop_step ind 16" and ?F = "header_formulas E" and ?R = "header_registers E"
  let ?pushes = "trace (device_clk E 16) (device_pushes E 16) is d"
  have step: "0 < ?step" by (simp add: loop_step_def)
  have lens: "length ?F = 8" "length ?R = 8" by (simp_all add: header_formulas_def header_registers_def Let_def)
  have w: "waiting (control d)" using assms(1) by (simp add: device_start_def)
  have "?pushes = concat (map (\<lambda>r. round_pushes E a m ind 0 n 16 ?F ?R (r * ?step)) [0..<rounds n ?step]) @ [PushProgEnd]"
    using one_loop_stalled [OF w assms(2-4) _ _ assms(6)] by (simp add: device_control(2))
  note pushes = this
  have "counts_ok ?pushes"
    unfolding pushes by (rule one_loop_counts) (simp_all add: assms(3))
  then have "trace (device_clk E 16) device_reads is d @ in_device (run (device_clk E 16) is d) = push_reads ?pushes"
    using device_lossless(2) [OF assms(1)] by simp
  also have "\<dots> = concat (map (\<lambda>r. push_reads (round_pushes E a m ind 0 n 16 ?F ?R (r * ?step))) [0..<rounds n ?step])"
    by (simp add: pushes push_reads_concat o_def) (simp add: push_reads_def push_command_def)
  also have "\<dots> = map (\<lambda>x. ?R ! u + of_nat x * daddr_di (?F ! u) 0) [0..<min (rounds n ?step * ?step) n]"
    by (simp only: round_reads [OF lens assms(5)] chunks_are_iterations [OF step] order_refl zero_less_numeral)
  also have "min (rounds n ?step * ?step) n = n"
    using less_rounds [OF step, of "rounds n ?step" n] by simp
  finally show ?thesis .
qed

text \<open>With few reads in a program its prefetch queue never fills, so that only the instruction queue
  stalls the control unit.\<close>

definition commands :: "push list \<Rightarrow> nat" where
  "commands ps = length (filter (\<lambda>p. push_command p \<noteq> None) ps)"

lemma commands_simps [simp]: "commands [] = 0" "commands (ps @ qs) = commands ps + commands qs"
  by (simp_all add: commands_def)

lemma commands_pushed: "commands (pushed c) = (if prefetch_command c = None then 0 else 1)"
  by (auto simp: commands_def pushed_def prefetch_command_def push_command_def split: instr_type.splits)

definition held :: "device \<Rightarrow> nat" where
  "held d = length (pending (prefetch d)) + (if prefetch_command_we d then 1 else 0) + commands (pushed (control d))"

lemma held_clk:
  assumes "device_ok d"
  shows "held (device_clk E W i d) \<le> held d + commands (device_pushes E W i d)"
proof -
  have "fifo_ok (prefetch d)" "fifo_accepts (device_write d) (prefetch d)"
    using assms by (simp_all add: device_ok_def)
  then have "length (pending (prefetch (device_clk E W i d)))
      \<le> length (pending (prefetch d)) + (if prefetch_command_we d then 1 else 0)"
    using fifo_step_length [of "prefetch d" "device_write d" "snd i"]
    by (simp add: device_clk_def device_write_def split: if_splits)
  then show ?thesis
    by (simp add: held_def device_pushes_def commands_pushed [of "control d"]) (auto simp: device_clk_def)
qed

lemma held_run:
  "device_ok d \<Longrightarrow> counts_ok (trace (device_clk E W) (device_pushes E W) is d) \<Longrightarrow>
     held (run (device_clk E W) is d) \<le> held d + commands (trace (device_clk E W) (device_pushes E W) is d)"
proof (induction "is" arbitrary: d)
  case (Cons i "is")
  have c: "counts_ok (device_pushes E W i d)" "counts_ok (trace (device_clk E W) (device_pushes E W) is (device_clk E W i d))"
    using Cons.prems(2) by (simp_all add: counts_ok_append)
  show ?case
    using Cons.IH [OF device_queue.step_inv [OF Cons.prems(1) c(1)] c(2)] held_clk [OF Cons.prems(1), of E W i] by simp
qed simp

lemma only_queue_stalls:
  assumes "device_start d" and "one_loop_program E a m ind j n" and "0 < n" and "n < 262144"
    and "w \<le> 16" and "0 < w"
    and "commands (concat (map (\<lambda>r. round_pushes E a m ind j n w (header_formulas E) (header_registers E)
           (r * loop_step ind w)) [0..<rounds n (loop_step ind w)])) < 60"
  shows "trace (device_clk E (of_nat w)) (\<lambda>i d. [device_stall i d]) is d = map fst is"
proof (induction "is" rule: rev_induct)
  case (snoc i "is")
  let ?full = "concat (map (\<lambda>r. round_pushes E a m ind j n w (header_formulas E) (header_registers E)
           (r * loop_step ind w)) [0..<rounds n (loop_step ind w)]) @ [PushProgEnd]"
  let ?pushes = "trace (device_clk E (of_nat w)) (device_pushes E (of_nat w)) is d" and ?d = "run (device_clk E (of_nat w)) is d"
  obtain rest where rest: "?full = ?pushes @ rest"
    using one_loop_prefix [OF _ assms(2-4) _ assms(6)] assms(1,5)
    unfolding device_control(2) device_start_def by auto
  have counts: "counts_ok ?pushes" by (rule one_loop_run_counts [OF assms(1-6)])
  have "held ?d \<le> held d + commands ?pushes"
    by (rule held_run [OF device_start_ok(1) [OF assms(1)] counts])
  moreover have "held d = 0"
    using assms(1) by (simp add: held_def device_start_def length_pending fifo_size_def waiting_def pushed_def)
  moreover have "commands ?pushes \<le> commands ?full" unfolding rest by simp
  moreover have "commands ?full < 60" using assms(7) by (simp add: commands_def [of "[PushProgEnd]"] push_command_def)
  ultimately have "length (pending (prefetch ?d)) < 60" by (simp add: held_def)
  then have "\<not> fifo_full (prefetch ?d)" by (auto simp: length_pending fifo_full_def)
  then show ?case using snoc by (simp add: trace_snoc device_stall_def)
qed simp

lemma commands_rounds:
  "commands (concat (map (\<lambda>r. round_pushes E a m ind j n w F R (g r)) rs)) = length rs * length (read_units E a m)"
proof -
  have one: "push_command (body_push F regs c raw) \<noteq> None \<longleftrightarrow> is_read raw" for regs c raw
    by (simp add: push_command_def body_push_def is_read_def Let_def split: instr_type.split)
  have "commands (map (body_push F regs c) raws) = length (filter is_read raws)" for regs c raws
    by (simp only: commands_def filter_map length_map o_def one)
  from this [of _ _ "map (\<lambda>k. icache E (of_nat (a + 1 + k))) [0..<m]"]
  have "commands (round_pushes E a m ind j n w F R v) = length (read_units E a m)" for v
    by (simp add: round_pushes_def read_units_def o_def del: of_nat_add)
  then show ?thesis by (induction rs) simp_all
qed

text \<open>C10. From reset the device asks the host for the loop's data exactly once and in order: with a
  program that is one loop with variable 0 and one read in its body, sixteen copies wide or one by
  one, the addresses the sender has read, followed by those still in the device, are once enough
  clocks were not stalled the address of the read in iteration 0, 1, and so on, up to the last.\<close>

theorem loop_reads_in_order:
  assumes "device_start d" and "one_loop_program E a m ind 0 n" and "0 < n" and "n < 262144"
    and "read_units E a m = [u]"
    and "program_clocks m (rounds n (loop_step ind 16))
           \<le> length (filter Not (trace (device_clk E 16) (\<lambda>i d. [device_stall i d]) is d))"
  shows "trace (device_clk E 16) device_reads is d @ in_device (run (device_clk E 16) is d)
     = map (\<lambda>x. header_registers E ! u + of_nat x * daddr_di (header_formulas E ! u) 0) [0..<n]"
  by (rule loop_reads [OF assms])

theorem loop_reads_in_order_witness:
  "trace (device_clk small_env 16) device_reads (replicate 40 (False, True)) idle_device
     @ in_device (run (device_clk small_env 16) (replicate 40 (False, True)) idle_device) = [0, 5, 10]"
proof -
  let ?is = "replicate 40 (False, True)"
  have u: "read_units small_env 0 1 = [1]"
  proof -
    have "is_read (uint_bits 16 0x4080)" "ram_unit (uint_bits 16 0x4080) = 1" by code_simp+
    then show ?thesis by (simp add: read_units_def small_env_def)
  qed
  have r: "rounds 3 (loop_step True 16) = 1" "program_clocks 1 1 = 16" by code_simp+
  have "trace (device_clk small_env (of_nat 16)) (\<lambda>i d. [device_stall i d]) ?is idle_device = map fst ?is"
    by (rule only_queue_stalls [OF idle_device_start small_env_program])
      (simp_all only: commands_rounds u r, simp_all)
  then have stalls: "program_clocks 1 (rounds 3 (loop_step True 16))
      \<le> length (filter Not (trace (device_clk small_env 16) (\<lambda>i d. [device_stall i d]) ?is idle_device))"
    by (simp add: r(1) program_clocks_def)
  have "daddr_di (uint_bits 18 5 @ replicate 126 False) 0 = 5" "[0..<3] = [0, 1, 2 :: nat]" by code_simp+
  then show ?thesis
    using loop_reads_in_order [OF idle_device_start small_env_program _ _ u stalls]
    by (simp add: small_env_units Let_def)
qed

end
