(* ===== verification/PacketSender.thy ===== *)
theory PacketSender
  imports Prelude
begin

text \<open>
  The packet sender of the device (core/Dma/PacketSender.sv): the state machine that takes read
  requests, writes and the end of a program from their queues and sends them to the host byte by byte.
  Its inputs are the transmitter's busy flag and the heads of the three queues.
\<close>

datatype sender_state = IDLE | SENDING_READ_REQUEST | SENDING_WRITE | SENDING_END_PROG_NOTIF

record sender =
  S :: sender_state
  counter :: "16 word"
  matrix_send_tile :: bits
  write_addr :: "16 word"
  tx_en :: bool
  tx_data :: byte
  dma_send_read_queue_re :: bool
  dma_send_write_queue_re :: bool
  dma_send_end_program_queue_re :: bool

record sender_in =
  tx_busy :: bool
  dma_send_read_queue_data :: "16 word"
  dma_send_read_queue_available :: bool
  dma_send_write_queue_data :: "16 word"
  dma_send_write_queue_data2 :: bits
  dma_send_write_queue_available :: bool
  dma_send_end_program_queue_available :: bool

definition tx_busyn :: "sender_in \<Rightarrow> sender \<Rightarrow> bool" where
  "tx_busyn i s \<longleftrightarrow> \<not> (tx_en s \<or> tx_busy i)"

text \<open>The assignments that come before the case.\<close>

definition clear_outputs :: "sender \<Rightarrow> sender" where
  "clear_outputs s =
     s\<lparr>tx_en := False, dma_send_read_queue_re := False, dma_send_write_queue_re := False,
       dma_send_end_program_queue_re := False\<rparr>"

definition send_byte :: "byte \<Rightarrow> sender \<Rightarrow> sender" where
  "send_byte b s = s\<lparr>tx_data := b, tx_en := True\<rparr>"

text \<open>Bits 15 to 8 and 7 to 0 of an address.\<close>

definition high :: "16 word \<Rightarrow> byte" where
  "high a = ucast (drop_bit 8 a)"

definition low :: "16 word \<Rightarrow> byte" where
  "low a = ucast a"

definition sender_idle :: "sender_in \<Rightarrow> sender \<Rightarrow> sender" where
  "sender_idle i s =
     (if dma_send_read_queue_available i then
        s\<lparr>dma_send_read_queue_re := True, counter := 0, S := SENDING_READ_REQUEST\<rparr>
      else if dma_send_write_queue_available i then
        s\<lparr>dma_send_write_queue_re := True, counter := 0, S := SENDING_WRITE\<rparr>
      else if dma_send_end_program_queue_available i then
        s\<lparr>dma_send_end_program_queue_re := True, counter := 0, S := SENDING_END_PROG_NOTIF\<rparr>
      else s)"

text \<open>The three states that send: \<open>t\<close> already counts on and goes idle after the last byte.\<close>

definition count :: "16 word \<Rightarrow> sender \<Rightarrow> sender" where
  "count final s = s\<lparr>counter := counter s + 1, S := (if counter s = final then IDLE else S s)\<rparr>"

definition sending_end :: "sender \<Rightarrow> sender" where
  "sending_end s =
     (let t = count 2 s in
      if counter s = 0 then send_byte 4 t
      else if counter s = 1 then send_byte 0 t
      else if counter s = 2 then send_byte 0 t
      else t)"

definition sending_read :: "sender_in \<Rightarrow> sender \<Rightarrow> sender" where
  "sending_read i s =
     (let t = count 2 s in
      if counter s = 0 then send_byte 2 t
      else if counter s = 1 then send_byte (high (dma_send_read_queue_data i)) t
      else if counter s = 2 then send_byte (low (dma_send_read_queue_data i)) t
      else t)"

definition sending_write :: "sender_in \<Rightarrow> sender \<Rightarrow> sender" where
  "sending_write i s =
     (let t = count 38 s in
      if counter s = 0 then
        send_byte 3 (t\<lparr>write_addr := dma_send_write_queue_data i, matrix_send_tile := dma_send_write_queue_data2 i\<rparr>)
      else if counter s = 1 then send_byte (high (write_addr s)) t
      else if counter s = 2 then send_byte (low (write_addr s)) t
      else send_byte (bits_byte (take 8 (matrix_send_tile s)))
             (t\<lparr>matrix_send_tile := drop 8 (matrix_send_tile s) @ replicate 8 False\<rparr>))"

definition sender_clk :: "sender_in \<Rightarrow> sender \<Rightarrow> sender" where
  "sender_clk i s =
     (let t = clear_outputs s in
      if \<not> tx_busyn i s then t
      else case S s of
          IDLE \<Rightarrow> sender_idle i t
        | SENDING_END_PROG_NOTIF \<Rightarrow> sending_end t
        | SENDING_READ_REQUEST \<Rightarrow> sending_read i t
        | SENDING_WRITE \<Rightarrow> sending_write i t)"

definition sender_reset :: "sender \<Rightarrow> sender" where
  "sender_reset s = clear_outputs (s\<lparr>S := IDLE\<rparr>)"

text \<open>The byte handed to the transmitter in a clock.\<close>

definition sender_byte :: "sender \<Rightarrow> byte list" where
  "sender_byte s = (if tx_en s then [tx_data s] else [])"

end
