(* ===== verification/Requests.thy ===== *)
theory Requests
  imports Device PacketSender Host
begin

text \<open>
  The front of the device with its packet sender (core/top.sv): the read requests come from the
  prefetch queue, the writes and the program's end from two queues that are inputs here.  The bytes
  handed to the transmitter are the packets that the host's serving loop expects.
\<close>

section \<open>One clock\<close>

record system =
  front :: device
  sender :: sender

text \<open>The wires between the prefetch queue and the sender; an address has sixteen bits on them.\<close>

definition sender_input :: "sender_in \<Rightarrow> system \<Rightarrow> sender_in" where
  "sender_input i s =
     i\<lparr>dma_send_read_queue_data := ucast (dat_r (prefetch (front s))),
       dma_send_read_queue_available := emptyn (prefetch (front s))\<rparr>"

definition front_input :: "bool \<times> sender_in \<Rightarrow> system \<Rightarrow> bool \<times> bool" where
  "front_input i s = (fst i, dma_send_read_queue_re (sender s))"

definition system_clk :: "env \<Rightarrow> u18 \<Rightarrow> bool \<times> sender_in \<Rightarrow> system \<Rightarrow> system" where
  "system_clk E W i s =
     \<lparr>front = device_clk E W (front_input i s) (front s),
      sender = sender_clk (sender_input (snd i) s) (sender s)\<rparr>"

definition system_bytes :: "env \<Rightarrow> u18 \<Rightarrow> bool \<times> sender_in \<Rightarrow> system \<Rightarrow> byte list" where
  "system_bytes E W i s = sender_byte (sender (system_clk E W i s))"

text \<open>The requests the sender takes from its queues in a clock.\<close>

definition taken_reads :: "bool \<times> sender_in \<Rightarrow> system \<Rightarrow> request list" where
  "taken_reads i s = map (\<lambda>a. ReadReq (ucast a)) (device_reads (front_input i s) (front s))"

definition sender_takes :: "sender_in \<Rightarrow> sender \<Rightarrow> request list" where
  "sender_takes j t =
     (if \<not> tx_busyn j t then []
      else if sender.S t = SENDING_WRITE \<and> counter t = 0
      then [WriteReq (dma_send_write_queue_data j) (bits_bytes (dma_send_write_queue_data2 j))]
      else if sender.S t = IDLE \<and> \<not> dma_send_read_queue_available j \<and> \<not> dma_send_write_queue_available j
              \<and> dma_send_end_program_queue_available j
      then [OtherReq 4 0]
      else [])"

definition taken :: "bool \<times> sender_in \<Rightarrow> system \<Rightarrow> request list" where
  "taken i s = taken_reads i s @ sender_takes (sender_input (snd i) s) (sender s)"

section \<open>What is still to be sent\<close>

definition tile_bytes :: "nat \<Rightarrow> bits \<Rightarrow> byte list" where
  "tile_bytes n tile = map (\<lambda>k. bits_byte (take 8 (drop (k * 8) tile))) [0..<n]"

definition packet_left :: "16 word \<Rightarrow> sender \<Rightarrow> byte list" where
  "packet_left a t =
     (let c = unat (counter t) in
      case sender.S t of
        IDLE \<Rightarrow> []
      | SENDING_READ_REQUEST \<Rightarrow> if dma_send_read_queue_re t then [] else drop c (request_bytes (ReadReq a))
      | SENDING_END_PROG_NOTIF \<Rightarrow> drop c (request_bytes (OtherReq 4 0))
      | SENDING_WRITE \<Rightarrow>
          if c = 0 then []
          else drop (c - 1) (addr_bytes (write_addr t)) @ tile_bytes (min 36 (39 - c)) (matrix_send_tile t))"

definition owed :: "system \<Rightarrow> byte list" where
  "owed s = packet_left (ucast (dat_r (prefetch (front s)))) (sender s)"

definition sender_ok :: "sender \<Rightarrow> bool" where
  "sender_ok t \<longleftrightarrow>
     (dma_send_read_queue_re t \<longrightarrow> sender.S t = SENDING_READ_REQUEST \<and> counter t = 0)
     \<and> (sender.S t \<in> {SENDING_READ_REQUEST, SENDING_END_PROG_NOTIF} \<longrightarrow> counter t \<le> 2)
     \<and> (sender.S t = SENDING_WRITE \<longrightarrow>
          counter t \<le> 38 \<and> (counter t \<noteq> 0 \<longrightarrow> length (matrix_send_tile t) = 288))"

definition system_ok :: "system \<Rightarrow> bool" where
  "system_ok s \<longleftrightarrow>
     device_ok (front s) \<and> sender_ok (sender s)
     \<and> (dma_send_read_queue_re (sender s) \<longrightarrow> emptyn (prefetch (front s)))"

text \<open>The clock in which the tile of a write is taken over.\<close>

definition takes_tile :: "sender_in \<Rightarrow> sender \<Rightarrow> bool" where
  "takes_tile j t \<longleftrightarrow> tx_busyn j t \<and> sender.S t = SENDING_WRITE \<and> counter t = 0"

definition input_ok :: "env \<Rightarrow> u18 \<Rightarrow> bool \<times> sender_in \<Rightarrow> system \<Rightarrow> bool" where
  "input_ok E W i s \<longleftrightarrow>
     counts_ok (device_pushes E W (front_input i s) (front s))
     \<and> (takes_tile (snd i) (sender s) \<longrightarrow> length (dma_send_write_queue_data2 (snd i)) = 288)"

section \<open>The sender keeps the packets whole\<close>

lemma count_word:
  "(x :: 16 word) = 0 \<longleftrightarrow> unat x = 0" "x = 1 \<longleftrightarrow> unat x = 1" "x = 2 \<longleftrightarrow> unat x = 2" "x = 38 \<longleftrightarrow> unat x = 38"
  "x \<le> 2 \<longleftrightarrow> unat x \<le> 2" "x \<le> 38 \<longleftrightarrow> unat x \<le> 38"
  "unat x \<le> 38 \<Longrightarrow> unat (x + 1) = Suc (unat x)"
  by (simp_all add: word_unat_eq_iff word_le_nat_alt unat_plus_if')

lemma tile_bytes_all: "length tile = 288 \<Longrightarrow> tile_bytes 36 tile = bits_bytes tile"
  by (rule nth_equalityI) (simp_all add: tile_bytes_def bits_bytes_def nth_chunks)

lemma tile_bytes_shift:
  assumes "length tile = 288" and "n < 36"
  shows "tile_bytes (Suc n) tile = bits_byte (take 8 tile) # tile_bytes n (drop 8 tile @ replicate 8 False)"
proof (rule nth_equalityI)
  fix k
  assume "k < length (tile_bytes (Suc n) tile)"
  then have k: "k < Suc n" by (simp add: tile_bytes_def)
  show "tile_bytes (Suc n) tile ! k = (bits_byte (take 8 tile) # tile_bytes n (drop 8 tile @ replicate 8 False)) ! k"
  proof (cases k)
    case (Suc l)
    then have "l < 35" "l < n" using k assms(2) by simp_all
    then show ?thesis using assms(1) by (simp add: Suc tile_bytes_def add.commute del: upt_Suc)
  qed (simp add: tile_bytes_def del: upt_Suc)
qed (simp add: tile_bytes_def)

lemma no_read_keeps: "dat_r (fifo_step (False, w) q) = dat_r q"
  by (simp add: fifo_step_def fifo_clk_def fifo_read_def fifo_write_def split: option.split)

lemma no_read_emptyn:
  assumes "fifo_ok q" and "fifo_accepts w q" and "emptyn q"
  shows "emptyn (fifo_step (False, w) q)"
proof -
  have "fifo_step (False, w) q = fifo_write w q q" by (simp add: fifo_step_def fifo_clk_def fifo_read_def)
  moreover have "pending (fifo_write w q q) \<noteq> []"
    using assms pending_Nil [of q]
    by (cases w) (simp_all add: pending_write_Some fifo_accepts_def, simp add: fifo_write_def)
  ultimately show ?thesis using pending_Nil by metis
qed

lemmas sender_defs = sender_clk_def clear_outputs_def sender_idle_def sending_end_def sending_read_def
  sending_write_def count_def send_byte_def Let_def

lemma sender_ok_clk:
  assumes "sender_ok t" and "takes_tile j t \<Longrightarrow> length (dma_send_write_queue_data2 j) = 288"
  shows "sender_ok (sender_clk j t)"
proof (cases "tx_busyn j t")
  case True
  then show ?thesis
    using assms by (cases "sender.S t") (auto simp: sender_ok_def sender_defs count_word takes_tile_def)
next
  case False
  then show ?thesis using assms(1) by (simp add: sender_ok_def sender_defs)
qed

text \<open>A byte that is handed out is the next one of the packet; a request that is taken starts one.\<close>

lemma sender_bytes:
  assumes t: "sender_ok t" and tile: "takes_tile j t \<Longrightarrow> length (dma_send_write_queue_data2 j) = 288"
    and a: "dma_send_read_queue_re t \<or> a = dma_send_read_queue_data j"
  shows "sender_byte (sender_clk j t) @ packet_left a (sender_clk j t)
     = (if dma_send_read_queue_re t then request_bytes (ReadReq a) else packet_left a t)
       @ concat (map request_bytes (sender_takes j t))"
proof (cases "tx_busyn j t")
  case False
  then show ?thesis
    using t by (auto simp: sender_ok_def sender_defs packet_left_def sender_byte_def sender_takes_def
        split: sender_state.split)
next
  case True
  note defs = sender_defs packet_left_def sender_byte_def sender_takes_def addr_bytes_def high_def low_def True
  show ?thesis
  proof (cases "sender.S t")
    case IDLE
    then show ?thesis using t by (simp add: sender_ok_def defs)
  next
    case SENDING_READ_REQUEST
    then have "unat (counter t) = 0 \<or> unat (counter t) = 1 \<or> unat (counter t) = 2"
      using t by (auto simp: sender_ok_def count_word)
    then show ?thesis
      using t a SENDING_READ_REQUEST by (auto simp: sender_ok_def defs count_word)
  next
    case SENDING_END_PROG_NOTIF
    then have "unat (counter t) = 0 \<or> unat (counter t) = 1 \<or> unat (counter t) = 2"
      using t by (auto simp: sender_ok_def count_word)
    then show ?thesis
      using t SENDING_END_PROG_NOTIF by (auto simp: sender_ok_def defs count_word)
  next
    case SENDING_WRITE
    have re: "\<not> dma_send_read_queue_re t" and c38: "unat (counter t) \<le> 38"
      and len: "unat (counter t) \<noteq> 0 \<Longrightarrow> length (matrix_send_tile t) = 288"
      using t SENDING_WRITE by (auto simp: sender_ok_def count_word)
    consider "unat (counter t) = 0" | "unat (counter t) = 1" | "unat (counter t) = 2" | "unat (counter t) = 38"
      | n where "unat (counter t) = Suc (Suc (Suc n))" "n < 35"
      using c38 that(5) [of "unat (counter t) - 3"] by fastforce
    then show ?thesis
    proof cases
      case 5
      then have "Suc (35 - n) = 36 - n" "35 - n < 36" by simp_all
      then show ?thesis
        using tile_bytes_shift [OF len, of "35 - n"] 5 SENDING_WRITE re by (simp add: defs count_word)
    next
      case 4
      then show ?thesis
        using tile_bytes_shift [OF len, of 0] SENDING_WRITE re
        by (simp add: defs count_word) (simp add: tile_bytes_def)
    next
      case 1
      then have "takes_tile j t" using True SENDING_WRITE by (simp add: takes_tile_def count_word)
      with 1 show ?thesis
        using tile_bytes_all [OF tile] SENDING_WRITE re by (simp add: defs count_word)
    qed (use SENDING_WRITE re in \<open>simp_all add: defs count_word\<close>)
  qed
qed

interpretation system_queue:
  conserving "system_clk E W" system_ok "input_ok E W" owed
    "\<lambda>i s. concat (map request_bytes (taken i s))" "system_bytes E W"
  for E W
proof unfold_locales
  fix s and i :: "bool \<times> sender_in"
  assume s: "system_ok s" and i: "input_ok E W i s"
  let ?s = "system_clk E W i s" and ?t = "sender s" and ?j = "sender_input (snd i) s"
  have front: "front ?s = device_clk E W (front_input i s) (front s)" "sender ?s = sender_clk ?j ?t"
    by (simp_all add: system_clk_def)
  have dev: "device_ok (front ?s)"
    using device_queue.step_inv [of "front s" E W "front_input i s"] s i by (simp add: system_ok_def input_ok_def front)
  have q: "prefetch (front ?s) = fifo_step (dma_send_read_queue_re ?t, device_write (front s)) (prefetch (front s))"
    by (simp add: front device_clk_def front_input_def)
  have t: "sender_ok ?t" and tile: "takes_tile ?j ?t \<Longrightarrow> length (dma_send_write_queue_data2 ?j) = 288"
    using s i by (simp_all add: system_ok_def input_ok_def sender_input_def takes_tile_def tx_busyn_def)
  have reads: "taken_reads i s = (if dma_send_read_queue_re ?t then [ReadReq (ucast (dat_r (prefetch (front ?s))))] else [])"
    using s by (simp add: taken_reads_def device_reads_def fifo_outs_def front_input_def system_ok_def q)
  have wire: "dma_send_read_queue_re ?t \<or> ucast (dat_r (prefetch (front ?s))) = dma_send_read_queue_data ?j"
    by (cases "dma_send_read_queue_re ?t") (simp_all add: q no_read_keeps sender_input_def)
  show "system_bytes E W i s @ owed ?s = owed s @ concat (map request_bytes (taken i s))"
  proof -
    have "dma_send_read_queue_re ?t \<Longrightarrow> owed s = []"
      using t by (simp add: owed_def packet_left_def sender_ok_def)
    moreover have "\<not> dma_send_read_queue_re ?t \<Longrightarrow>
        packet_left (ucast (dat_r (prefetch (front ?s)))) ?t = owed s"
      using no_read_keeps [of "device_write (front s)" "prefetch (front s)"] by (simp add: owed_def q)
    ultimately show ?thesis
      using sender_bytes [OF t tile wire]
      by (simp add: system_bytes_def taken_def reads front(2) owed_def [of ?s] split: if_splits del: request_bytes.simps)
  qed
  show "system_ok ?s"
  proof -
    have "emptyn (prefetch (front ?s))" if re: "dma_send_read_queue_re (sender ?s)"
    proof -
      have "sender.S ?t = IDLE" "emptyn (prefetch (front s))"
        using re by (cases "sender.S ?t"; simp add: front(2) sender_defs sender_input_def split: if_splits)+
      then show ?thesis
        using s t no_read_emptyn [of "prefetch (front s)" "device_write (front s)"]
        by (simp add: q sender_ok_def system_ok_def device_ok_def)
    qed
    then show ?thesis using dev sender_ok_clk [OF t tile] by (simp add: system_ok_def front(2))
  qed
qed

section \<open>Runs from reset\<close>

definition system_start :: "system \<Rightarrow> bool" where
  "system_start s \<longleftrightarrow>
     device_start (front s) \<and> sender.S (sender s) = IDLE \<and> \<not> dma_send_read_queue_re (sender s)"

definition system_pushes :: "env \<Rightarrow> u18 \<Rightarrow> bool \<times> sender_in \<Rightarrow> system \<Rightarrow> push list" where
  "system_pushes E W i s = device_pushes E W (front_input i s) (front s)"

definition system_reads :: "bool \<times> sender_in \<Rightarrow> system \<Rightarrow> u18 list" where
  "system_reads i s = device_reads (front_input i s) (front s)"

definition read_addresses :: "request list \<Rightarrow> 16 word list" where
  "read_addresses rs = concat (map (\<lambda>r. case r of ReadReq a \<Rightarrow> [a] | _ \<Rightarrow> []) rs)"

lemma front_run:
  "front (run (system_clk E W) is s)
     = run (device_clk E W) (trace (system_clk E W) (\<lambda>i s. [front_input i s]) is s) (front s)"
  "trace (system_clk E W) (\<lambda>i s. f (front_input i s) (front s)) is s
     = trace (device_clk E W) f (trace (system_clk E W) (\<lambda>i s. [front_input i s]) is s) (front s)"
  by (induction "is" arbitrary: s) (simp_all add: system_clk_def)

lemma read_addresses_trace:
  "read_addresses (trace (system_clk E W) taken is s) = map ucast (trace (system_clk E W) system_reads is s)"
proof -
  have "read_addresses (taken i s) = map ucast (system_reads i s)" for i s
    by (simp add: taken_def taken_reads_def system_reads_def sender_takes_def read_addresses_def o_def)
  then show ?thesis
    by (induction "is" arbitrary: s) (simp_all add: read_addresses_def)
qed

lemma system_start_ok: "system_start s \<Longrightarrow> system_ok s \<and> owed s = []"
  by (simp add: system_start_def system_ok_def sender_ok_def device_start_ok owed_def packet_left_def)

lemma always_input_ok:
  "always (system_clk E W) (input_ok E W) is s \<longleftrightarrow>
     counts_ok (trace (system_clk E W) (system_pushes E W) is s)
     \<and> always (system_clk E W) (\<lambda>i s. takes_tile (snd i) (sender s) \<longrightarrow> length (dma_send_write_queue_data2 (snd i)) = 288) is s"
  by (induction "is" arbitrary: s) (auto simp: input_ok_def counts_ok_def system_pushes_def)

lemma always_wide:
  "\<forall>i \<in> set is. length (dma_send_write_queue_data2 (snd i)) = 288 \<Longrightarrow>
     always (system_clk E W) (\<lambda>i s. takes_tile (snd i) (sender s) \<longrightarrow> length (dma_send_write_queue_data2 (snd i)) = 288) is s"
  by (induction "is" arbitrary: s) simp_all

lemma packets_conserved:
  assumes "system_start s" and "counts_ok (trace (system_clk E W) (system_pushes E W) is s)"
    and "always (system_clk E W) (\<lambda>i s. takes_tile (snd i) (sender s) \<longrightarrow> length (dma_send_write_queue_data2 (snd i)) = 288) is s"
  shows "trace (system_clk E W) (system_bytes E W) is s @ owed (run (system_clk E W) is s)
     = concat (map request_bytes (trace (system_clk E W) taken is s))"
proof -
  have "trace (system_clk E W) (\<lambda>i s. concat (map request_bytes (taken i s))) is s
      = concat (map request_bytes (trace (system_clk E W) taken is s))"
    by (induction "is" arbitrary: s) simp_all
  then show ?thesis
    using system_queue.run_conserves [of s E W "is"] system_start_ok [OF assms(1)] assms(2,3)
    by (simp add: always_input_ok)
qed

text \<open>C8. What the device sends are whole packets of the requests its sender took, one after the
  other, however the transmitter is busy and whenever the queues fill: the bytes handed out, followed
  by the rest of the packet that is being sent, are the packets of the taken requests in order, and
  the addresses of the reads among them, followed by those still in the device, are those of the
  reads the control unit pushed, cut to sixteen bits.\<close>

theorem sent_packets:
  assumes "system_start s" and "counts_ok (trace (system_clk E W) (system_pushes E W) is s)"
    and "\<forall>i \<in> set is. length (dma_send_write_queue_data2 (snd i)) = 288"
  shows "trace (system_clk E W) (system_bytes E W) is s @ owed (run (system_clk E W) is s)
       = concat (map request_bytes (trace (system_clk E W) taken is s))
     \<and> read_addresses (trace (system_clk E W) taken is s)
         @ map ucast (in_device (front (run (system_clk E W) is s)))
       = map ucast (push_reads (trace (system_clk E W) (system_pushes E W) is s))"
proof -
  let ?is = "trace (system_clk E W) (\<lambda>i s. [front_input i s]) is s"
  have pushes: "trace (system_clk E W) (system_pushes E W) is s
      = trace (device_clk E W) (device_pushes E W) ?is (front s)"
    unfolding system_pushes_def by (rule front_run(2))
  have reads: "trace (system_clk E W) system_reads is s = trace (device_clk E W) device_reads ?is (front s)"
    unfolding system_reads_def by (rule front_run(2))
  have "trace (device_clk E W) device_reads ?is (front s) @ in_device (run (device_clk E W) ?is (front s))
      = push_reads (trace (device_clk E W) (device_pushes E W) ?is (front s))"
    using assms(1,2) by (intro device_lossless(2)) (simp_all add: system_start_def pushes)
  then show ?thesis
    using packets_conserved [OF assms(1,2) always_wide [OF assms(3)]]
    by (simp only: read_addresses_trace reads pushes front_run(1) map_append [symmetric] simp_thms)
qed

definition idle_sender :: sender where
  "idle_sender =
     \<lparr>S = IDLE, counter = 0, matrix_send_tile = replicate 288 False, write_addr = 0, tx_en = False, tx_data = 0,
      dma_send_read_queue_re = False, dma_send_write_queue_re = False, dma_send_end_program_queue_re = False\<rparr>"

definition small_input :: "bool \<Rightarrow> bool \<Rightarrow> bool \<times> sender_in" where
  "small_input w e =
     (False, \<lparr>tx_busy = False, dma_send_read_queue_data = 0, dma_send_read_queue_available = False,
      dma_send_write_queue_data = 20, dma_send_write_queue_data2 = replicate 288 True,
      dma_send_write_queue_available = w, dma_send_end_program_queue_available = e\<rparr>)"

lemma idle_system_start: "system_start \<lparr>front = idle_device, sender = idle_sender\<rparr>"
  by (simp add: system_start_def idle_device_start) (simp add: idle_sender_def)

theorem sent_packets_witness:
  "trace (system_clk small_env 16) (system_bytes small_env 16) (replicate 100 (small_input True True))
       \<lparr>front = idle_device, sender = idle_sender\<rparr>
     @ owed (run (system_clk small_env 16) (replicate 100 (small_input True True))
              \<lparr>front = idle_device, sender = idle_sender\<rparr>)
   = concat (map request_bytes (trace (system_clk small_env 16) taken (replicate 100 (small_input True True))
       \<lparr>front = idle_device, sender = idle_sender\<rparr>))"
proof -
  let ?s = "\<lparr>front = idle_device, sender = idle_sender\<rparr>" and ?is = "replicate 100 (small_input True True)"
  have "counts_ok (trace (system_clk small_env 16) (system_pushes small_env 16) ?is ?s)"
    unfolding system_pushes_def front_run(2)
    using one_loop_run_counts [OF idle_device_start small_env_program, of 16] by simp
  then show ?thesis using sent_packets [OF idle_system_start] by (simp add: small_input_def)
qed

section \<open>The host at the other end\<close>

text \<open>A device without a program: its front does nothing.\<close>

definition quiet_env :: env where
  "quiet_env = small_env\<lparr>execution_queue_not_empty := False\<rparr>"

definition quiet_input :: "bool \<times> sender_in \<Rightarrow> sender_in" where
  "quiet_input i = (snd i)\<lparr>dma_send_read_queue_data := 0, dma_send_read_queue_available := False\<rparr>"

lemma quiet_front: "device_clk quiet_env W (b, False) idle_device = idle_device"
proof -
  have fifo: "fifo_step (False, None) (prefetch idle_device) = prefetch idle_device"
    by (simp add: fifo_step_def fifo_clk_def fifo_read_def fifo_write_def)
  have "cu_clk quiet_env W stall (control idle_device) = control idle_device" for stall
    by (simp add: idle_device_def cu_clk_def cu_step_def cu_reset_def cu_blank_def quiet_env_def)
  moreover have "prefetch_command (control idle_device) = None"
    by (simp add: idle_device_def prefetch_command_def cu_reset_def cu_blank_def)
  moreover have "device_write idle_device = None" by (simp add: idle_device_def device_write_def)
  ultimately show ?thesis
    using fifo by (simp add: device_clk_def) (simp add: idle_device_def)
qed

lemma quiet_run:
  assumes "\<not> dma_send_read_queue_re t"
  shows "run (system_clk quiet_env W) is \<lparr>front = idle_device, sender = t\<rparr>
       = \<lparr>front = idle_device, sender = run (\<lambda>i. sender_clk (quiet_input i)) is t\<rparr>"
    and "trace (system_clk quiet_env W) (system_bytes quiet_env W) is \<lparr>front = idle_device, sender = t\<rparr>
       = trace (\<lambda>i. sender_clk (quiet_input i)) (\<lambda>i t. sender_byte (sender_clk (quiet_input i) t)) is t"
    and "trace (system_clk quiet_env W) taken is \<lparr>front = idle_device, sender = t\<rparr>
       = trace (\<lambda>i. sender_clk (quiet_input i)) (\<lambda>i. sender_takes (quiet_input i)) is t"
    and "trace (system_clk quiet_env W) (system_pushes quiet_env W) is \<lparr>front = idle_device, sender = t\<rparr> = []"
proof -
  have input: "sender_input (snd i) \<lparr>front = idle_device, sender = t\<rparr> = quiet_input i" for i t
    by (simp add: sender_input_def quiet_input_def idle_device_def emptyn_def fifo_size_def)
  have step: "system_clk quiet_env W i \<lparr>front = idle_device, sender = t\<rparr>
      = \<lparr>front = idle_device, sender = sender_clk (quiet_input i) t\<rparr>"
    if "\<not> dma_send_read_queue_re t" for i t
    using that by (simp add: system_clk_def front_input_def quiet_front input)
  have keeps: "\<not> dma_send_read_queue_re (sender_clk (quiet_input i) t)" for i t
    by (cases "sender.S t") (simp_all add: sender_defs quiet_input_def)
  have out: "taken i \<lparr>front = idle_device, sender = t\<rparr> = sender_takes (quiet_input i) t"
    "system_pushes quiet_env W i \<lparr>front = idle_device, sender = t\<rparr> = []"
    if "\<not> dma_send_read_queue_re t" for i t
    using that
    by (simp_all add: taken_def taken_reads_def input device_reads_def fifo_outs_def front_input_def
        system_pushes_def device_pushes_def quiet_front)
      (simp add: idle_device_def pushed_def cu_reset_def cu_blank_def)
  show "run (system_clk quiet_env W) is \<lparr>front = idle_device, sender = t\<rparr>
       = \<lparr>front = idle_device, sender = run (\<lambda>i. sender_clk (quiet_input i)) is t\<rparr>"
    and "trace (system_clk quiet_env W) (system_bytes quiet_env W) is \<lparr>front = idle_device, sender = t\<rparr>
       = trace (\<lambda>i. sender_clk (quiet_input i)) (\<lambda>i t. sender_byte (sender_clk (quiet_input i) t)) is t"
    and "trace (system_clk quiet_env W) taken is \<lparr>front = idle_device, sender = t\<rparr>
       = trace (\<lambda>i. sender_clk (quiet_input i)) (\<lambda>i. sender_takes (quiet_input i)) is t"
    and "trace (system_clk quiet_env W) (system_pushes quiet_env W) is \<lparr>front = idle_device, sender = t\<rparr> = []"
    using assms by (induction "is" arbitrary: t) (simp_all add: step keeps out system_bytes_def)
qed

text \<open>C4. The device and the host agree on the packets: when the last request the sender took is
  the end of the program, its packet is out, and every earlier request is for a row of the memory,
  then the host, however the line cuts the bytes, serves exactly these requests in the order they
  were taken and leaves its loop with no byte left over.\<close>

theorem host_serves_device:
  assumes "system_start s" and "counts_ok (trace (system_clk E W) (system_pushes E W) is s)"
    and "\<forall>i \<in> set is. length (dma_send_write_queue_data2 (snd i)) = 288"
    and "trace (system_clk E W) taken is s = rs @ [OtherReq 4 0]"
    and "owed (run (system_clk E W) is s) = []"
    and "libs_ok L" and "rows_ok h" and "list_all (request_ok h) rs"
    and "sock_ok line" and "concat line = trace (system_clk E W) (system_bytes E W) is s"
  shows "\<exists>line'. serve L sock_recv h line = Some (Exited, fold apply_request rs h, line') \<and> concat line' = []"
proof -
  have "request_bytes (OtherReq 4 0) = end_bytes" by (simp add: end_bytes_def addr_bytes_def)
  then have "concat line = concat (map request_bytes rs) @ end_bytes @ []"
    using packets_conserved [OF assms(1,2) always_wide [OF assms(3)]] assms(4,5,10) by (simp del: request_bytes.simps)
  from serve_session [OF assms(6,7,9,8) this] show ?thesis .
qed

text \<open>A witness: the device writes one tile and ends, and the line cuts the bytes one by one.\<close>

theorem host_serves_device_witness:
  "\<exists>line'. serve std_libs sock_recv \<lparr>pinned_mem = replicate 128 (replicate 16 0), sent = []\<rparr>
       (map (\<lambda>b. [b]) (request_bytes (WriteReq 20 (replicate 36 255)) @ end_bytes))
     = Some (Exited, fold apply_request [WriteReq 20 (replicate 36 255)]
         \<lparr>pinned_mem = replicate 128 (replicate 16 0), sent = []\<rparr>, line') \<and> concat line' = []"
proof (rule host_serves_device [OF idle_system_start _ _ _ _ libs_ok_std rows_ok_initial])
  let ?is = "small_input True False # replicate 84 (small_input False True)"
  let ?step = "\<lambda>i. sender_clk (quiet_input i)"
  have quiet: "\<not> dma_send_read_queue_re idle_sender" by (simp add: idle_sender_def)
  note runs = quiet_run [OF quiet]
  show "counts_ok (trace (system_clk quiet_env 16) (system_pushes quiet_env 16) ?is \<lparr>front = idle_device, sender = idle_sender\<rparr>)"
    unfolding runs by (simp add: counts_ok_def)
  show "\<forall>i \<in> set ?is. length (dma_send_write_queue_data2 (snd i)) = 288"
    by (simp add: small_input_def)
  have "trace ?step (\<lambda>i. sender_takes (quiet_input i)) ?is idle_sender = [WriteReq 20 (replicate 36 255)] @ [OtherReq 4 0]"
    by code_simp
  then show "trace (system_clk quiet_env 16) taken ?is \<lparr>front = idle_device, sender = idle_sender\<rparr>
      = [WriteReq 20 (replicate 36 255)] @ [OtherReq 4 0]"
    unfolding runs .
  have "sender.S (run ?step ?is idle_sender) = IDLE" by code_simp
  then show "owed (run (system_clk quiet_env 16) ?is \<lparr>front = idle_device, sender = idle_sender\<rparr>) = []"
    unfolding runs by (simp add: owed_def packet_left_def)
  have "trace ?step (\<lambda>i t. sender_byte (sender_clk (quiet_input i) t)) ?is idle_sender
      = request_bytes (WriteReq 20 (replicate 36 255)) @ end_bytes"
    by code_simp
  then show "concat (map (\<lambda>b. [b]) (request_bytes (WriteReq 20 (replicate 36 255)) @ end_bytes))
      = trace (system_clk quiet_env 16) (system_bytes quiet_env 16) ?is \<lparr>front = idle_device, sender = idle_sender\<rparr>"
    unfolding runs by simp
qed (auto simp: sock_ok_def)

end
