(* ===== verification/Varray.thy ===== *)
theory Varray
  imports Prelude Clocked
begin

text \<open>
  The sparse arrays of the instruction queue (core/FIFO/varray.sv): an array of 65536 elements whose
  writes and reads move upwards, kept as a ring of 64 groups of equal elements.  The abstract
  specification is the array itself.
\<close>

section \<open>One clock\<close>

record varray =
  mem_varr_pos_start :: "16 word list"
  mem_varr_pos_end_offset :: "5 word list"
  mem_varr_dat :: "bits list"
  head :: "6 word"
  tail :: "6 word"
  varray_len :: "16 word"
  is_new_superscalar_group :: bool

record varray_in =
  we :: bool
  write_addr :: "16 word"
  write_addr_len :: "5 word"
  dat_w :: bits
  re :: bool
  read_addr :: "16 word"

definition queue_size :: "varray \<Rightarrow> 6 word" where
  "queue_size s = (if tail s \<le> head s then head s - tail s else 63 - tail s + head s)"

definition queue_almost_full :: "varray \<Rightarrow> bool" where
  "queue_almost_full s \<longleftrightarrow> 61 < queue_size s"

definition pos_start :: "varray \<Rightarrow> 16 word" where
  "pos_start s = mem_varr_pos_start s ! unat (tail s)"

definition pos_end_offset :: "varray \<Rightarrow> 5 word" where
  "pos_end_offset s = mem_varr_pos_end_offset s ! unat (tail s)"

text \<open>The comparison \<^verbatim>\<open>read_addr + 1 == start + offset\<close> has the width of its integer literal,
  so that nothing wraps around in it.\<close>

definition last_of_group :: "varray_in \<Rightarrow> varray \<Rightarrow> bool" where
  "last_of_group i s \<longleftrightarrow> unat (read_addr i) + 1 = unat (pos_start s) + unat (pos_end_offset s)"

definition varray_clk :: "varray_in \<Rightarrow> varray \<Rightarrow> varray" where
  "varray_clk i s =
     \<lparr>mem_varr_pos_start = (if we i then (mem_varr_pos_start s)[unat (head s) := write_addr i] else mem_varr_pos_start s),
      mem_varr_pos_end_offset =
        (if we i then (mem_varr_pos_end_offset s)[unat (head s) := write_addr_len i] else mem_varr_pos_end_offset s),
      mem_varr_dat = (if we i then (mem_varr_dat s)[unat (head s) := dat_w i] else mem_varr_dat s),
      head = (if we i then head s + 1 else head s),
      tail = (if re i \<and> queue_size s \<noteq> 0 \<and> last_of_group i s then tail s + 1 else tail s),
      varray_len = (if we i then write_addr i + ucast (write_addr_len i) else varray_len s),
      is_new_superscalar_group =
        (if re i then read_addr i < pos_start s \<or> last_of_group i s else is_new_superscalar_group s)\<rparr>"

definition varray_reset :: "varray \<Rightarrow> varray" where
  "varray_reset s = s\<lparr>head := 0, tail := 0, varray_len := 0, is_new_superscalar_group := True\<rparr>"

text \<open>The output, combinational in the read address; \<open>w\<close> is \<^verbatim>\<open>VIRTUAL_ELEMENT_WIDTH\<close>.\<close>

definition varray_dat_r :: "nat \<Rightarrow> 16 word \<Rightarrow> varray \<Rightarrow> bits" where
  "varray_dat_r w a s =
     (if pos_start s \<le> a \<and> a < pos_start s + ucast (pos_end_offset s)
      then mem_varr_dat s ! unat (tail s) else replicate w False)"

section \<open>The array\<close>

text \<open>A group is a start, a length and the element in all its places.\<close>

type_synonym group = "nat \<times> nat \<times> bits"

definition covers :: "nat \<Rightarrow> group \<Rightarrow> bool" where
  "covers a g = (case g of (s, l, d) \<Rightarrow> s \<le> a \<and> a < s + l)"

definition element :: "nat \<Rightarrow> group list \<Rightarrow> nat \<Rightarrow> bits" where
  "element w gs a = (case find (covers a) gs of None \<Rightarrow> replicate w False | Some (s, l, d) \<Rightarrow> d)"

definition group_end :: "group \<Rightarrow> nat" where
  "group_end g = (case g of (s, l, d) \<Rightarrow> s + l)"

definition written :: "varray_in \<Rightarrow> group list" where
  "written i = (if we i then [(unat (write_addr i), unat (write_addr_len i), dat_w i)] else [])"

text \<open>The use of the array: reads follow each other from address 0, and a write is behind
  the last group and not before the place that is read next.\<close>

definition in_order :: "nat \<Rightarrow> nat \<Rightarrow> varray_in \<Rightarrow> bool" where
  "in_order e p i \<longleftrightarrow>
     unat (read_addr i) = p \<and> p < 65535
     \<and> (we i \<longrightarrow> e \<le> unat (write_addr i) \<and> (if re i then p + 1 else p) \<le> unat (write_addr i)
          \<and> write_addr_len i \<noteq> 0 \<and> unat (write_addr i) + unat (write_addr_len i) < 65536)"

definition end_after :: "nat \<Rightarrow> varray_in \<Rightarrow> nat" where
  "end_after e i = (if we i then unat (write_addr i) + unat (write_addr_len i) else e)"

definition pos_after :: "nat \<Rightarrow> varray_in \<Rightarrow> nat" where
  "pos_after p i = (if re i then p + 1 else p)"

lemmas order_defs = in_order_def end_after_def pos_after_def

fun used_in_order :: "nat \<Rightarrow> nat \<Rightarrow> varray_in list \<Rightarrow> bool" where
  "used_in_order e p [] \<longleftrightarrow> True"
| "used_in_order e p (i # is) \<longleftrightarrow> in_order e p i \<and> used_in_order (end_after e i) (pos_after p i) is"

text \<open>The ring is not full at a write, and it does not run empty from its last place.\<close>

definition ring_ok :: "varray_in \<Rightarrow> varray \<Rightarrow> bool" where
  "ring_ok i s \<longleftrightarrow>
     (we i \<longrightarrow> unat (head s - tail s) < 63)
     \<and> (re i \<and> last_of_group i s \<longrightarrow> \<not> (tail s = 63 \<and> head s = 0))"

section \<open>The ring holds the groups that are not read yet\<close>

definition entry :: "varray \<Rightarrow> nat \<Rightarrow> group" where
  "entry s j = (unat (mem_varr_pos_start s ! j), unat (mem_varr_pos_end_offset s ! j), mem_varr_dat s ! j)"

text \<open>\<open>gs\<close> are the groups written so far, \<open>m\<close> of them are finished and \<open>p\<close> is the next address to read.\<close>

definition ring :: "group list \<Rightarrow> nat \<Rightarrow> nat \<Rightarrow> varray \<Rightarrow> bool" where
  "ring gs m p s \<longleftrightarrow>
     length (mem_varr_pos_start s) = 64 \<and> length (mem_varr_pos_end_offset s) = 64 \<and> length (mem_varr_dat s) = 64
     \<and> m \<le> length gs \<and> length gs < m + 64 \<and> head s = of_nat (length gs) \<and> tail s = of_nat m
     \<and> (\<forall>k. m \<le> k \<and> k < length gs \<longrightarrow> entry s (k mod 64) = gs ! k)
     \<and> (\<forall>j<64. (\<exists>k. m \<le> k \<and> k < length gs \<and> j = k mod 64) \<or> group_end (entry s j) \<le> p)
     \<and> (\<forall>k<m. group_end (gs ! k) \<le> p) \<and> (m < length gs \<longrightarrow> p < group_end (gs ! m))"

definition groups_ok :: "nat \<Rightarrow> group list \<Rightarrow> bool" where
  "groups_ok e gs \<longleftrightarrow>
     sorted_wrt (\<lambda>g h. group_end g \<le> fst h) gs
     \<and> (\<forall>g \<in> set gs. fst g < group_end g \<and> group_end g \<le> e) \<and> e < 65536"

lemma unat_of_nat_6: "unat (of_nat n :: 6 word) = n mod 64"
  by (simp add: unat_of_nat)

lemma ring_words:
  assumes "ring gs m p s"
  shows "unat (tail s) = m mod 64" "unat (head s) = length gs mod 64"
    "head s = tail s \<longleftrightarrow> m = length gs" "unat (head s - tail s) = length gs - m"
proof -
  have le: "m \<le> length gs" "length gs < m + 64" and w: "head s = of_nat (length gs)" "tail s = of_nat m"
    using assms by (simp_all add: ring_def)
  show "unat (tail s) = m mod 64" "unat (head s) = length gs mod 64" by (simp_all add: w unat_of_nat_6)
  have "head s - tail s = of_nat (length gs - m)" using le by (simp add: w of_nat_diff)
  moreover have "unat (of_nat (length gs - m) :: 6 word) = length gs - m"
    using le by (simp only: unat_of_nat_6) simp
  ultimately show d: "unat (head s - tail s) = length gs - m" by (simp only:)
  have "head s = tail s \<longleftrightarrow> unat (head s - tail s) = 0" by (simp add: unat_eq_0)
  then show "head s = tail s \<longleftrightarrow> m = length gs" using le by (simp only: d) auto
qed

lemma ring_read:
  "ring gs m p s \<Longrightarrow> k < m \<Longrightarrow> group_end (gs ! k) \<le> p"
  "ring gs m p s \<Longrightarrow> m < length gs \<Longrightarrow> p < group_end (gs ! m)"
  by (simp_all add: ring_def)

lemma queue_size_0: "queue_size s = 0 \<longleftrightarrow> head s = tail s \<or> (tail s = 63 \<and> head s = 0)"
proof (cases "tail s \<le> head s")
  case True
  moreover have "\<not> (tail s = 63 \<and> head s = 0)" using True by auto
  ultimately show ?thesis by (auto simp: queue_size_def)
next
  case False
  then have less: "unat (head s) < unat (tail s)" by (simp add: word_le_nat_alt)
  have "63 - tail s + head s = 0 \<longleftrightarrow> tail s = 63 \<and> head s = 0"
  proof
    assume "63 - tail s + head s = 0"
    then have t: "tail s = head s + 63" by (simp add: algebra_simps)
    have "unat (head s + 63) = (unat (head s) + 63) mod 64" by (simp add: unat_word_ariths)
    moreover have "unat (tail s) < 64" using unsigned_less [of "tail s"] by simp
    ultimately have "unat (head s) = 0" using less t by (cases "unat (head s)") simp_all
    then show "tail s = 63 \<and> head s = 0" using t by (simp add: unat_eq_0)
  qed simp
  then show ?thesis using False by (auto simp: queue_size_def)
qed

lemma ring_group:
  assumes "ring gs m p s"
  shows "m < length gs \<Longrightarrow> unat (pos_start s) = fst (gs ! m) \<and> unat (pos_start s) + unat (pos_end_offset s) = group_end (gs ! m)
           \<and> mem_varr_dat s ! unat (tail s) = snd (snd (gs ! m))"
    and "m = length gs \<Longrightarrow> unat (pos_start s) + unat (pos_end_offset s) \<le> p"
proof -
  note w = ring_words [OF assms]
  have e: "entry s (m mod 64) = (unat (pos_start s), unat (pos_end_offset s), mem_varr_dat s ! unat (tail s))"
    by (simp add: entry_def pos_start_def pos_end_offset_def w)
  {
    assume "m < length gs"
    then have "gs ! m = entry s (m mod 64)" using assms by (simp add: ring_def)
    then show "unat (pos_start s) = fst (gs ! m) \<and> unat (pos_start s) + unat (pos_end_offset s) = group_end (gs ! m)
           \<and> mem_varr_dat s ! unat (tail s) = snd (snd (gs ! m))"
      by (simp add: e group_end_def)
  next
    assume "m = length gs"
    moreover have "m mod 64 < 64" by simp
    ultimately have "group_end (entry s (m mod 64)) \<le> p"
      using assms unfolding ring_def by (metis not_less)
    then show "unat (pos_start s) + unat (pos_end_offset s) \<le> p" by (simp add: e group_end_def)
  }
qed

lemma find_unique:
  assumes "g \<in> set gs" and "P g" and "\<And>h. h \<in> set gs \<Longrightarrow> P h \<Longrightarrow> h = g"
  shows "find P gs = Some g"
proof (cases "find P gs")
  case None
  then show ?thesis using assms(1,2) by (simp add: find_None_iff)
next
  case (Some h)
  then have "h \<in> set gs" "P h" by (auto simp: find_Some_iff)
  then show ?thesis using assms(3) Some by simp
qed

lemma covering_group:
  assumes "ring gs m p s" and "groups_ok e gs" and "g \<in> set gs" and "p \<le> a" and "covers a g"
  shows "m < length gs" and "g = gs ! m \<or> group_end (gs ! m) \<le> fst g"
proof -
  obtain k where k: "k < length gs" "g = gs ! k" using assms(3) by (metis in_set_conv_nth)
  have "a < group_end g" using assms(5) by (auto simp: covers_def group_end_def)
  then have "\<not> k < m" using ring_read(1) [OF assms(1), of k] assms(4) k(2) by auto
  then show "m < length gs" using k(1) by simp
  show "g = gs ! m \<or> group_end (gs ! m) \<le> fst g"
  proof (cases "k = m")
    case False
    then have "m < k" using \<open>\<not> k < m\<close> by simp
    then show ?thesis
      using assms(2) k by (simp add: groups_ok_def sorted_wrt_iff_nth_less)
  qed (simp add: k)
qed

lemma element_ring:
  assumes "ring gs m p s" and "groups_ok e gs"
  shows "element w gs p = (if m < length gs \<and> fst (gs ! m) \<le> p then snd (snd (gs ! m)) else replicate w False)"
proof (cases "m < length gs \<and> fst (gs ! m) \<le> p")
  case True
  then have p: "p < group_end (gs ! m)" using assms(1) by (simp add: ring_def)
  have "find (covers p) gs = Some (gs ! m)"
  proof (rule find_unique)
    show "gs ! m \<in> set gs" using True by simp
    show "covers p (gs ! m)" using True p by (auto simp: covers_def group_end_def split: prod.split)
    fix h assume h: "h \<in> set gs" "covers p h"
    then have "fst h \<le> p" by (auto simp: covers_def)
    then show "h = gs ! m" using covering_group(2) [OF assms h(1) _ h(2)] p by auto
  qed
  then show ?thesis using True by (simp add: element_def split: prod.split)
next
  case False
  have "find (covers p) gs = None"
  proof (unfold find_None_iff, clarify)
    fix g assume g: "g \<in> set gs" "covers p g"
    have m: "m < length gs" and "g = gs ! m \<or> group_end (gs ! m) \<le> fst g"
      using covering_group [OF assms g(1) _ g(2)] by simp_all
    moreover have "fst g \<le> p" using g(2) by (auto simp: covers_def)
    moreover have "p < group_end (gs ! m)" by (rule ring_read(2) [OF assms(1) m])
    ultimately show False using False by auto
  qed
  then show ?thesis using False by (auto simp: element_def)
qed

lemma last_of_group_ring:
  "ring gs m p s \<Longrightarrow> unat (read_addr i) = p \<Longrightarrow>
     last_of_group i s \<longleftrightarrow> m < length gs \<and> group_end (gs ! m) = p + 1"
  using ring_group [of gs m p s] by (cases "m < length gs") (auto simp: last_of_group_def ring_def)

lemma dat_r_element:
  assumes "ring gs m p s" and "groups_ok e gs" and "unat a = p"
  shows "varray_dat_r w a s = element w gs p"
proof -
  let ?start = "unat (pos_start s)" and ?stop = "unat (pos_start s) + unat (pos_end_offset s)"
  have "?stop < 65536"
  proof (cases "m < length gs")
    case True
    then have "gs ! m \<in> set gs" by simp
    then have "group_end (gs ! m) < 65536" using assms(2) by (fastforce simp: groups_ok_def)
    then show ?thesis using ring_group(1) [OF assms(1) True] by simp
  next
    case False
    then have "m = length gs" using assms(1) by (simp add: ring_def)
    moreover have "unat a < 65536" by (rule order_less_le_trans [OF unsigned_less]) simp
    ultimately show ?thesis using ring_group(2) [OF assms(1)] assms(3) by simp
  qed
  then have "unat (pos_start s + ucast (pos_end_offset s)) = ?stop"
    by (simp add: unat_word_ariths unsigned_ucast_eq take_bit_nat_eq_self order_less_trans [OF unsigned_less [of "pos_end_offset s"]])
  then have c: "pos_start s \<le> a \<and> a < pos_start s + ucast (pos_end_offset s) \<longleftrightarrow> ?start \<le> p \<and> p < ?stop"
    using assms(3) by (simp add: word_le_nat_alt word_less_nat_alt)
  show ?thesis
  proof (cases "m < length gs")
    case True
    then show ?thesis
      using ring_group(1) [OF assms(1) True] ring_read(2) [OF assms(1) True]
      by (simp add: varray_dat_r_def c element_ring [OF assms(1,2)])
  next
    case False
    then have "m = length gs" using assms(1) by (simp add: ring_def)
    then show ?thesis
      using ring_group(2) [OF assms(1)] by (simp add: varray_dat_r_def c element_ring [OF assms(1,2)])
  qed
qed

lemma groups_ok_snoc:
  "groups_ok e gs \<Longrightarrow> e \<le> fst g \<Longrightarrow> fst g < group_end g \<Longrightarrow> group_end g < 65536 \<Longrightarrow>
     groups_ok (group_end g) (gs @ [g])"
  by (fastforce simp: groups_ok_def sorted_wrt_append)

lemma mod64_eq: "(j :: nat) mod 64 = k mod 64 \<Longrightarrow> j \<le> k \<Longrightarrow> k < j + 64 \<Longrightarrow> j = k"
  using mod_eq_dvd_iff_nat [of j k 64] nat_dvd_not_less [of "k - j" 64] by (cases "k = j") auto

lemma ring_write:
  assumes "ring gs m p s" and "length gs < m + 63" and "p \<le> unat (write_addr i)" and "write_addr_len i \<noteq> 0" and "we i" and "\<not> re i"
  shows "ring (gs @ written i) m p (varray_clk i s)"
proof -
  let ?n = "length gs" and ?s = "varray_clk i s"
  let ?g = "(unat (write_addr i), unat (write_addr_len i), dat_w i)"
  note h = ring_words(2) [OF assms(1)]
  have len: "length (mem_varr_pos_start s) = 64" "length (mem_varr_pos_end_offset s) = 64" "length (mem_varr_dat s) = 64"
    using assms(1) by (simp_all add: ring_def)
  have entry: "entry ?s j = (if j = ?n mod 64 then ?g else entry s j)" for j
    using len assms(5) by (simp add: entry_def varray_clk_def h nth_list_update)
  have gs: "gs @ written i = gs @ [?g]" using assms(5) by (simp add: written_def)
  have live: "\<forall>k. m \<le> k \<and> k < length (gs @ [?g]) \<longrightarrow> entry ?s (k mod 64) = (gs @ [?g]) ! k"
  proof (intro allI impI)
    fix k assume k: "m \<le> k \<and> k < length (gs @ [?g])"
    show "entry ?s (k mod 64) = (gs @ [?g]) ! k"
    proof (cases "k < ?n")
      case True
      then have "k mod 64 \<noteq> ?n mod 64" using mod64_eq [of k ?n] k assms(2) by auto
      then show ?thesis using True k assms(1) by (simp add: entry ring_def nth_append)
    next
      case False
      then have "k = ?n" using k by simp
      then show ?thesis by (simp add: entry)
    qed
  qed
  have old: "\<forall>j<64. (\<exists>k. m \<le> k \<and> k < length (gs @ [?g]) \<and> j = k mod 64) \<or> group_end (entry ?s j) \<le> p"
  proof (intro allI impI)
    fix j :: nat assume "j < 64"
    then consider k where "m \<le> k" "k < ?n" "j = k mod 64" | "group_end (entry s j) \<le> p"
      using assms(1) unfolding ring_def by blast
    then show "(\<exists>k. m \<le> k \<and> k < length (gs @ [?g]) \<and> j = k mod 64) \<or> group_end (entry ?s j) \<le> p"
    proof cases
      case 1
      then show ?thesis by (intro disjI1 exI [of _ k]) simp
    next
      case 2
      moreover have "m \<le> ?n" using assms(1) by (simp add: ring_def)
      ultimately show ?thesis by (cases "j = ?n mod 64") (auto simp: entry)
    qed
  qed
  have "0 < unat (write_addr_len i)" using assms(4) by (simp add: unat_gt_0)
  then have "m < length (gs @ [?g]) \<longrightarrow> p < group_end ((gs @ [?g]) ! m)"
    using ring_read(2) [OF assms(1)] assms(1,3) by (cases "m < ?n") (auto simp: nth_append group_end_def ring_def)
  moreover have "\<forall>k<m. group_end ((gs @ [?g]) ! k) \<le> p"
    using ring_read(1) [OF assms(1)] assms(1) by (auto simp: nth_append ring_def)
  ultimately show ?thesis
    using assms(1,2,5,6) live old unfolding gs ring_def by (simp add: varray_clk_def)
qed

lemma ring_tail_only:
  "ring gs m p (s\<lparr>is_new_superscalar_group := b\<rparr>) = ring gs m p s"
  "entry (s\<lparr>tail := x, is_new_superscalar_group := b\<rparr>) = entry s"
  by (simp_all add: ring_def entry_def fun_eq_iff)

lemma ring_wait:
  assumes "ring gs m p s" and "m < length gs \<longrightarrow> p + 1 < group_end (gs ! m)"
  shows "ring gs m (p + 1) s"
proof -
  have "(\<exists>k. m \<le> k \<and> k < length gs \<and> j = k mod 64) \<or> group_end (entry s j) \<le> p + 1" if "j < 64" for j
  proof -
    have "(\<exists>k. m \<le> k \<and> k < length gs \<and> j = k mod 64) \<or> group_end (entry s j) \<le> p"
      using assms(1) that unfolding ring_def by blast
    then show ?thesis by auto
  qed
  moreover have "\<forall>k<m. group_end (gs ! k) \<le> p + 1" using ring_read(1) [OF assms(1)] by fastforce
  ultimately show ?thesis using assms unfolding ring_def by simp
qed

lemma ring_pop:
  assumes "ring gs m p s" and "groups_ok e gs" and "m < length gs" and "group_end (gs ! m) = p + 1"
  shows "ring gs (m + 1) (p + 1) (s\<lparr>tail := tail s + 1, is_new_superscalar_group := b\<rparr>)"
proof -
  have live: "\<forall>k. m \<le> k \<and> k < length gs \<longrightarrow> entry s (k mod 64) = gs ! k"
    using assms(1) by (simp add: ring_def)
  have "\<forall>j<64. (\<exists>k. m + 1 \<le> k \<and> k < length gs \<and> j = k mod 64) \<or> group_end (entry s j) \<le> p + 1"
  proof (intro allI impI)
    fix j :: nat assume "j < 64"
    then consider k where "m \<le> k" "k < length gs" "j = k mod 64" | "group_end (entry s j) \<le> p"
      using assms(1) unfolding ring_def by blast
    then show "(\<exists>k. m + 1 \<le> k \<and> k < length gs \<and> j = k mod 64) \<or> group_end (entry s j) \<le> p + 1"
    proof cases
      case 1
      then show ?thesis
        using live assms(4) by (cases "k = m") (auto intro: exI [of _ k])
    qed simp
  qed
  moreover have "\<forall>k<m + 1. group_end (gs ! k) \<le> p + 1"
    using ring_read(1) [OF assms(1)] assms(4) by (fastforce simp: less_Suc_eq)
  moreover have "p + 1 < group_end (gs ! (m + 1))" if "m + 1 < length gs"
  proof -
    have "group_end (gs ! m) \<le> fst (gs ! (m + 1))"
      using assms(2) that by (simp add: groups_ok_def sorted_wrt_iff_nth_less)
    moreover have "gs ! (m + 1) \<in> set gs" using that by simp
    ultimately show ?thesis using assms(2,4) by (fastforce simp: groups_ok_def)
  qed
  moreover have "tail s + 1 = of_nat (m + 1)" using assms(1) by (simp add: ring_def)
  ultimately show ?thesis
    using assms(1,3) live unfolding ring_def by (simp add: ring_tail_only(2))
qed

definition finished :: "varray_in \<Rightarrow> nat \<Rightarrow> group list \<Rightarrow> nat \<Rightarrow> bool" where
  "finished i m gs p \<longleftrightarrow> re i \<and> m < length gs \<and> group_end (gs ! m) = p + 1"

lemma ring_clk:
  assumes ring: "ring gs m p s" and ok: "groups_ok e gs" and order: "in_order e p i" and r: "ring_ok i s"
  shows "groups_ok (end_after e i) (gs @ written i)"
    and "ring (gs @ written i) (if finished i m gs p then m + 1 else m) (pos_after p i) (varray_clk i s)"
proof -
  let ?gs = "gs @ written i" and ?t = "varray_clk (i\<lparr>re := False\<rparr>) s"
  have p: "unat (read_addr i) = p"
    and w: "we i \<longrightarrow> e \<le> unat (write_addr i) \<and> (if re i then p + 1 else p) \<le> unat (write_addr i)
      \<and> 0 < unat (write_addr_len i) \<and> unat (write_addr i) + unat (write_addr_len i) < 65536"
    using order by (auto simp: in_order_def unat_gt_0)
  show gs: "groups_ok (end_after e i) ?gs"
    using groups_ok_snoc [OF ok, of "(unat (write_addr i), unat (write_addr_len i), dat_w i)"] ok w
    by (auto simp: written_def group_end_def end_after_def)
  have "we i \<Longrightarrow> length gs - m < 63"
    using r ring_words(4) [OF ring] by (simp add: ring_ok_def)
  then have size: "we i \<Longrightarrow> length gs < m + 63" by arith
  have t: "ring ?gs m p ?t"
  proof (cases "we i")
    case True
    then show ?thesis
      using ring_write [OF ring size, of "i\<lparr>re := False\<rparr>"] w by (simp add: written_def unat_gt_0 split: if_splits)
  next
    case False
    then have "?t = s" by (cases s) (simp add: varray_clk_def)
    then show ?thesis using ring False by (simp add: written_def)
  qed
  have last: "last_of_group i s \<longleftrightarrow> m < length gs \<and> group_end (gs ! m) = p + 1"
    by (rule last_of_group_ring [OF ring p])
  have size0: "queue_size s \<noteq> 0" if "finished i m gs p"
    using that r last ring_words(3) [OF ring] by (auto simp: finished_def queue_size_0 ring_ok_def)
  show "ring ?gs (if finished i m gs p then m + 1 else m) (pos_after p i) (varray_clk i s)"
  proof (cases "re i")
    case False
    then have eq: "i\<lparr>re := False\<rparr> = i" by (cases i) simp
    show ?thesis using t False by (simp add: finished_def eq pos_after_def)
  next
    case re: True
    show ?thesis
    proof (cases "finished i m gs p")
      case True
      then have "varray_clk i s = ?t\<lparr>tail := tail ?t + 1, is_new_superscalar_group := is_new_superscalar_group (varray_clk i s)\<rparr>"
        using size0 last by (simp add: varray_clk_def finished_def)
      then obtain b where b: "varray_clk i s = ?t\<lparr>tail := tail ?t + 1, is_new_superscalar_group := b\<rparr>" by blast
      have "m < length ?gs" "group_end (?gs ! m) = p + 1"
        using True by (simp_all add: finished_def nth_append)
      then show ?thesis using ring_pop [OF t gs, of b] True re by (simp add: b pos_after_def)
    next
      case False
      then have "varray_clk i s = ?t\<lparr>is_new_superscalar_group := is_new_superscalar_group (varray_clk i s)\<rparr>"
        using re last by (simp add: varray_clk_def finished_def)
      then obtain b where b: "varray_clk i s = ?t\<lparr>is_new_superscalar_group := b\<rparr>" by blast
      have "m < length ?gs \<longrightarrow> p + 1 < group_end (?gs ! m)"
      proof
        assume m: "m < length ?gs"
        show "p + 1 < group_end (?gs ! m)"
        proof (cases "m < length gs")
          case True
          then show ?thesis
            using ring_read(2) [OF ring True] False re by (simp add: finished_def nth_append)
        next
          case False
          then have "m = length gs" "we i" using ring m by (auto simp: ring_def written_def split: if_splits)
          then show ?thesis using w re by (simp add: written_def group_end_def)
        qed
      qed
      then show ?thesis
        using ring_wait [OF t] False re by (simp add: b ring_tail_only(1) pos_after_def)
    qed
  qed
qed

section \<open>What is read is the array\<close>

definition reads :: "nat \<Rightarrow> varray_in \<Rightarrow> varray \<Rightarrow> bits list" where
  "reads w i s = (if re i then [varray_dat_r w (read_addr i) s] else [])"

definition groups :: "varray_in list \<Rightarrow> group list" where
  "groups is = concat (map written is)"

lemma groups_simps [simp]: "groups [] = []" "groups (i # is) = written i @ groups is"
  by (simp_all add: groups_def)

lemma groups_later:
  "used_in_order e p is \<Longrightarrow> g \<in> set (groups is) \<Longrightarrow> p \<le> fst g"
proof (induction "is" arbitrary: e p)
  case (Cons i "is")
  show ?case
  proof (cases "g \<in> set (written i)")
    case True
    then show ?thesis using Cons.prems(1) by (auto simp: written_def in_order_def split: if_splits)
  next
    case False
    then have "pos_after p i \<le> fst g"
      using Cons.IH [of "end_after e i" "pos_after p i"] Cons.prems by simp
    then show ?thesis by (simp add: pos_after_def split: if_splits)
  qed
qed simp

lemma groups_after_read:
  assumes "used_in_order e p (i # is)" and "re i" and "g \<in> set (groups (i # is))"
  shows "p < fst g"
proof (cases "g \<in> set (written i)")
  case True
  then show ?thesis using assms(1,2) by (auto simp: written_def in_order_def split: if_splits)
next
  case False
  then have "pos_after p i \<le> fst g"
    using groups_later [of "end_after e i" "pos_after p i" "is"] assms(1,3) by simp
  then show ?thesis using assms(2) by (simp add: pos_after_def)
qed

lemma element_later:
  assumes "\<And>g. g \<in> set hs \<Longrightarrow> p < fst g"
  shows "element w (gs @ hs) p = element w gs p"
proof -
  have "find (covers p) hs = None"
    using assms by (fastforce simp: find_None_iff covers_def)
  then have "find (covers p) (gs @ hs) = find (covers p) gs" by (induction gs) simp_all
  then show ?thesis by (simp add: element_def)
qed

lemma reads_elements:
  "ring gs m p s \<Longrightarrow> groups_ok e gs \<Longrightarrow> used_in_order e p is \<Longrightarrow> always varray_clk ring_ok is s \<Longrightarrow>
     trace varray_clk (reads w) is s = map (element w (gs @ groups is)) [p..<p + length (filter re is)]"
proof (induction "is" arbitrary: gs m p s e)
  case (Cons i "is")
  let ?gs = "gs @ written i" and ?p = "pos_after p i"
  have i: "in_order e p i" and order: "used_in_order (end_after e i) ?p is"
    and ok: "ring_ok i s" "always varray_clk ring_ok is (varray_clk i s)"
    using Cons.prems(3,4) by simp_all
  note step = ring_clk [OF Cons.prems(1,2) i ok(1)]
  have rest: "trace varray_clk (reads w) is (varray_clk i s)
      = map (element w (?gs @ groups is)) [?p..<?p + length (filter re is)]"
    by (rule Cons.IH [OF step(2,1) order ok(2)])
  have "element w (gs @ groups (i # is)) p = element w gs p" if "re i"
    using groups_after_read [OF Cons.prems(3) that] by (rule element_later)
  then have first: "reads w i s = (if re i then [element w (?gs @ groups is) p] else [])"
    using dat_r_element [OF Cons.prems(1,2)] i by (simp add: reads_def in_order_def)
  show ?case
    using rest by (cases "re i") (simp_all add: first pos_after_def upt_conv_Cons del: upt_Suc)
qed simp

text \<open>After \<^verbatim>\<open>reset\<close> of a memory that was cleared.\<close>

definition varray_start :: "varray \<Rightarrow> bool" where
  "varray_start s \<longleftrightarrow>
     mem_varr_pos_start s = replicate 64 0 \<and> mem_varr_pos_end_offset s = replicate 64 0
     \<and> length (mem_varr_dat s) = 64 \<and> head s = 0 \<and> tail s = 0 \<and> is_new_superscalar_group s"

lemma varray_start_ring: "varray_start s \<Longrightarrow> ring [] 0 0 s \<and> groups_ok 0 []"
  by (simp add: varray_start_def ring_def groups_ok_def entry_def group_end_def)

text \<open>C15. The ring is the array of 65536 elements: when the writes and reads move upwards, a write finds
  the ring not full and the ring does not run empty from its last place, the elements that are
  read, one after the other, are those of the array that all the writes together fill, zero
  between the groups.\<close>

theorem varray_refines:
  assumes "varray_start s" and "used_in_order 0 0 is" and "always varray_clk ring_ok is s"
  shows "trace varray_clk (reads w) is s = map (element w (groups is)) [0..<length (filter re is)]"
  using reads_elements [of "[]" 0 0 s 0 "is" w] varray_start_ring [OF assms(1)] assms(2,3) by simp

definition empty_varray :: varray where
  "empty_varray =
     \<lparr>mem_varr_pos_start = replicate 64 0, mem_varr_pos_end_offset = replicate 64 0,
      mem_varr_dat = replicate 64 [], head = 0, tail = 0, varray_len = 0, is_new_superscalar_group = True\<rparr>"

text \<open>Every clock writes one element behind the place that is read.\<close>

definition chase :: "nat \<Rightarrow> varray_in" where
  "chase k = \<lparr>we = True, write_addr = of_nat (k + 1), write_addr_len = 1, dat_w = [True], re = True, read_addr = of_nat k\<rparr>"

definition only_read :: "nat \<Rightarrow> varray_in" where
  "only_read k = \<lparr>we = False, write_addr = 0, write_addr_len = 0, dat_w = [], re = True, read_addr = of_nat k\<rparr>"

lemma chase_in_order:
  "n \<le> 1000 \<Longrightarrow> e \<le> p + 1 \<Longrightarrow> p \<le> n \<Longrightarrow> used_in_order (if p < n then n + 1 else e) n js \<Longrightarrow>
     used_in_order e p (map chase [p..<n] @ js)"
proof (induction "n - p" arbitrary: e p)
  case (Suc d)
  have "unat (of_nat k :: 16 word) = k" if "k \<le> 2000" for k
    using that by (simp add: unat_of_nat take_bit_nat_eq_self)
  note words = this [of p] this [of "p + 1"]
  have "p + 1 < n \<or> n = p + 1" using Suc.hyps(2) by arith
  then have "used_in_order (p + 2) (p + 1) (map chase [p + 1..<n] @ js)"
    using Suc by (intro Suc.hyps(1)) auto
  moreover have "[p..<n] = p # [p + 1..<n]" using Suc.hyps(2) by (simp add: upt_conv_Cons)
  moreover have "p < 1000" using Suc.hyps(2) Suc.prems(1) by arith
  ultimately show ?case using Suc.prems(2) words by (simp add: chase_def order_defs)
qed simp

theorem varray_refines_witness:
  "trace varray_clk (reads 1) (map chase [0..<3] @ [only_read 3, only_read 4]) empty_varray
     = [[False], [True], [True], [True], [False]]"
proof -
  let ?is = "map chase [0..<3] @ [only_read 3, only_read 4]"
  have "used_in_order 0 0 ?is"
    by (rule chase_in_order) (simp_all add: only_read_def order_defs)
  moreover have "always varray_clk ring_ok ?is empty_varray" by code_simp
  moreover have "varray_start empty_varray" by (simp add: varray_start_def empty_varray_def)
  moreover have "map (element 1 (groups ?is)) [0..<length (filter re ?is)] = [[False], [True], [True], [True], [False]]"
    by code_simp
  ultimately show ?thesis using varray_refines by metis
qed

section \<open>The first element of a group\<close>

text \<open>The flag is set at a read for the next one.  It is right when no group is written into the
  empty ring directly at the address that is read next.\<close>

definition on_time :: "varray_in \<Rightarrow> varray \<Rightarrow> bool" where
  "on_time i s \<longleftrightarrow> (we i \<and> head s = tail s \<longrightarrow> unat (write_addr i) \<noteq> pos_after (unat (read_addr i)) i)"

definition flag_ok :: "group list \<Rightarrow> nat \<Rightarrow> varray \<Rightarrow> bool" where
  "flag_ok gs p s \<longleftrightarrow> (\<forall>g \<in> set gs. covers p g \<longrightarrow> (is_new_superscalar_group s \<longleftrightarrow> fst g = p))"

lemma covers_bounds: "covers p g \<longleftrightarrow> fst g \<le> p \<and> p < group_end g"
  by (auto simp: covers_def group_end_def split: prod.split)

lemma flag_clk:
  assumes ring: "ring gs m p s" and ok: "groups_ok e gs" and order: "in_order e p i"
    and time: "on_time i s" and flag: "flag_ok gs p s"
  shows "flag_ok (gs @ written i) (pos_after p i) (varray_clk i s)"
proof (unfold flag_ok_def, intro ballI impI)
  fix g assume g: "g \<in> set (gs @ written i)" "covers (pos_after p i) g"
  have p: "unat (read_addr i) = p" using order by (simp add: in_order_def)
  have last: "last_of_group i s \<longleftrightarrow> m < length gs \<and> group_end (gs ! m) = p + 1"
    by (rule last_of_group_ring [OF ring p])
  have unfinished: "m < length gs" if "g \<notin> set gs" "fst g = pos_after p i"
  proof (rule ccontr)
    assume "\<not> m < length gs"
    then have "head s = tail s" using ring_words(3) [OF ring] ring by (simp add: ring_def)
    then show False using time g(1) that p by (auto simp: on_time_def written_def split: if_splits)
  qed
  have new: "e \<le> fst g \<and> pos_after p i \<le> fst g" if "g \<notin> set gs"
    using order g(1) that by (auto simp: written_def in_order_def pos_after_def split: if_splits)
  have ends: "group_end (gs ! m) \<le> e" if "m < length gs"
    using ok that nth_mem [OF that] by (auto simp: groups_ok_def)
  show "is_new_superscalar_group (varray_clk i s) \<longleftrightarrow> fst g = pos_after p i"
  proof (cases "re i")
    case False
    have "g \<in> set gs"
    proof (rule ccontr)
      assume n: "g \<notin> set gs"
      then have s: "e \<le> p" "fst g = p" using new g(2) False by (simp_all add: covers_bounds pos_after_def)
      then have m: "m < length gs" using unfinished n False by (simp add: pos_after_def)
      then show False using ends s(1) ring_read(2) [OF ring m] by simp
    qed
    then show ?thesis using flag g(2) False by (simp add: flag_ok_def pos_after_def varray_clk_def)
  next
    case True
    have flag': "is_new_superscalar_group (varray_clk i s) \<longleftrightarrow> p < unat (pos_start s) \<or> last_of_group i s"
      using True p by (simp add: varray_clk_def word_less_nat_alt)
    have c: "fst g \<le> p + 1" "p + 1 < group_end g" using g(2) True by (simp_all add: covers_bounds pos_after_def)
    show ?thesis
    proof (cases "g \<in> set gs")
      case in_gs: True
      have m: "m < length gs" and "g = gs ! m \<or> group_end (gs ! m) \<le> fst g"
        using covering_group [OF ring ok in_gs _ g(2)] by (simp_all add: pos_after_def)
      then consider "g = gs ! m" | "group_end (gs ! m) = p + 1" "fst g = p + 1"
        using c(1) ring_read(2) [OF ring m] by force
      then show ?thesis
      proof cases
        case 1
        then show ?thesis
          using ring_group(1) [OF ring m] c last by (auto simp: flag' True pos_after_def)
      next
        case 2
        then show ?thesis using last m by (simp add: flag' True pos_after_def)
      qed
    next
      case False
      then have s: "fst g = p + 1" using new c(1) True by (simp add: pos_after_def)
      then have m: "m < length gs" using unfinished False True by (simp add: pos_after_def)
      then have "group_end (gs ! m) = p + 1"
        using ends new False s ring_read(2) [OF ring m] by fastforce
      then show ?thesis using last m s True by (simp add: flag' pos_after_def)
    qed
  qed
qed

text \<open>With the flags, what the instruction queue sees of the array.\<close>

definition flagged :: "nat \<Rightarrow> varray_in \<Rightarrow> varray \<Rightarrow> (bits \<times> bool) list" where
  "flagged w i s = (if re i then [(varray_dat_r w (read_addr i) s, is_new_superscalar_group s)] else [])"

definition flags_right :: "group list \<Rightarrow> nat \<Rightarrow> bool list \<Rightarrow> bool" where
  "flags_right gs p fs \<longleftrightarrow> (\<forall>k < length fs. \<forall>g \<in> set gs. covers (p + k) g \<longrightarrow> (fs ! k \<longleftrightarrow> fst g = p + k))"

lemma flagged_fst: "map fst (trace varray_clk (flagged w) is s) = trace varray_clk (reads w) is s"
  by (induction "is" arbitrary: s) (simp_all add: flagged_def reads_def)

lemma flags_reads:
  "ring gs m p s \<Longrightarrow> groups_ok e gs \<Longrightarrow> used_in_order e p is \<Longrightarrow> flag_ok gs p s \<Longrightarrow>
   always varray_clk (\<lambda>i s. ring_ok i s \<and> on_time i s) is s \<Longrightarrow>
     flags_right (gs @ groups is) p (map snd (trace varray_clk (flagged w) is s))"
proof (induction "is" arbitrary: gs m p s e)
  case (Cons i "is")
  let ?gs = "gs @ written i" and ?p = "pos_after p i"
  have i: "in_order e p i" and order: "used_in_order (end_after e i) ?p is"
    and ok: "ring_ok i s" "on_time i s" "always varray_clk (\<lambda>i s. ring_ok i s \<and> on_time i s) is (varray_clk i s)"
    using Cons.prems(3,5) by simp_all
  note step = ring_clk [OF Cons.prems(1,2) i ok(1)]
  have rest: "flags_right (?gs @ groups is) ?p (map snd (trace varray_clk (flagged w) is (varray_clk i s)))"
    by (rule Cons.IH [OF step(2,1) order flag_clk [OF Cons.prems(1,2) i ok(2) Cons.prems(4)] ok(3)])
  show ?case
  proof (cases "re i")
    case False
    then show ?thesis using rest by (simp add: flagged_def [of w i s] pos_after_def)
  next
    case True
    have here: "is_new_superscalar_group s \<longleftrightarrow> fst g = p" if "g \<in> set (gs @ groups (i # is))" "covers p g" for g
    proof -
      have "g \<in> set gs"
        using that groups_after_read [OF Cons.prems(3) True, of g]
        by (metis Un_iff covers_bounds not_le set_append)
      then show ?thesis using Cons.prems(4) that(2) by (simp add: flag_ok_def)
    qed
    show ?thesis
      unfolding flags_right_def
    proof (intro allI impI ballI)
      fix k g assume k: "k < length (map snd (trace varray_clk (flagged w) (i # is) s))"
        "g \<in> set (gs @ groups (i # is))" "covers (p + k) g"
      then show "map snd (trace varray_clk (flagged w) (i # is) s) ! k \<longleftrightarrow> fst g = p + k"
        using here rest True by (cases k) (auto simp: flagged_def [of w i s] flags_right_def pos_after_def)
    qed
  qed
qed (simp add: flags_right_def)

section \<open>The ring runs empty from its last place\<close>

lemma ring_lengths:
  "length (mem_varr_pos_start (varray_clk i s)) = length (mem_varr_pos_start s)"
  "length (mem_varr_pos_end_offset (varray_clk i s)) = length (mem_varr_pos_end_offset s)"
  by (simp_all add: varray_clk_def)

lemma stuck_reads:
  "length (mem_varr_pos_start s) = 64 \<Longrightarrow> length (mem_varr_pos_end_offset s) = 64 \<Longrightarrow>
   tail s = 63 \<Longrightarrow> head s < 63 \<Longrightarrow> unat (pos_start s) + unat (pos_end_offset s) \<le> p \<Longrightarrow> used_in_order e p js \<Longrightarrow>
   always varray_clk (\<lambda>i s. we i \<longrightarrow> \<not> queue_almost_full s) js s \<Longrightarrow>
     trace varray_clk (reads w) js s = replicate (length (filter re js)) (replicate w False)"
proof (induction js arbitrary: s p e)
  case (Cons i js)
  let ?s = "varray_clk i s"
  have p: "unat (read_addr i) = p" using Cons.prems(6) by (simp add: in_order_def)
  have last: "\<not> last_of_group i s" using Cons.prems(5) p by (simp add: last_of_group_def)
  have tail: "tail ?s = 63" using Cons.prems(3) last by (simp add: varray_clk_def)
  have full: "we i \<longrightarrow> head s \<le> 61"
    using Cons.prems(3,4,7) by (auto simp: queue_almost_full_def queue_size_def not_le not_less split: if_splits)
  have head: "head ?s < 63"
  proof (cases "we i")
    case True
    then have "unat (head s) \<le> 61" using full by (simp add: word_le_nat_alt)
    then have "unat (head s + 1) = unat (head s) + 1" by (simp add: unat_plus_if')
    then show ?thesis using \<open>unat (head s) \<le> 61\<close> True by (simp add: varray_clk_def word_less_nat_alt)
  next
    case False
    then show ?thesis using Cons.prems(4) by (simp add: varray_clk_def)
  qed
  have other: "unat (head s) \<noteq> 63" using Cons.prems(4) by (simp add: word_less_nat_alt)
  have same: "pos_start ?s = pos_start s" "pos_end_offset ?s = pos_end_offset s"
    using tail Cons.prems(3) other by (simp_all add: pos_start_def pos_end_offset_def varray_clk_def)
  have "varray_dat_r w (read_addr i) s = replicate w False"
  proof -
    have "p < 65535" using Cons.prems(6) by (simp add: in_order_def)
    then have "unat (pos_start s + ucast (pos_end_offset s)) = unat (pos_start s) + unat (pos_end_offset s)"
      using Cons.prems(5)
      by (simp add: unat_word_ariths unsigned_ucast_eq take_bit_nat_eq_self order_less_trans [OF unsigned_less [of "pos_end_offset s"]])
    then show ?thesis using Cons.prems(5) p by (simp add: varray_dat_r_def word_less_nat_alt)
  qed
  moreover have "trace varray_clk (reads w) js ?s = replicate (length (filter re js)) (replicate w False)"
    using Cons.prems(1,2,5,6,7) tail head same
    by (intro Cons.IH [of _ "pos_after p i" "end_after e i"]) (simp_all add: pos_after_def ring_lengths)
  ultimately show ?case by (simp add: reads_def [of w i s])
qed simp

lemma run_lengths:
  "length (mem_varr_pos_start (run varray_clk is s)) = length (mem_varr_pos_start s)"
  "length (mem_varr_pos_end_offset (run varray_clk is s)) = length (mem_varr_pos_end_offset s)"
  by (induction "is" arbitrary: s) (simp_all add: ring_lengths)

lemma order_suffix:
  "used_in_order e p (is @ js) \<Longrightarrow> \<exists>e' p'. used_in_order e' p' js"
proof (induction "is" arbitrary: e p)
  case (Cons i "is")
  then show ?case by auto
qed auto

text \<open>C35. A ring whose last place is read to its end with the head at the first place again is lost.
  \<^verbatim>\<open>queue_size\<close> counts one group too few when the head is below the tail, so that at this
  clock the one group in the last place counts as none and is not dropped; it is over then, and stays at the
  tail: every later read gives zero, whatever groups are written, as long as the stall for a full queue is obeyed.\<close>

theorem ring_gets_stuck:
  assumes "varray_start s" and "used_in_order 0 0 (is @ i # js)"
    and "tail (run varray_clk is s) = 63" and "head (run varray_clk is s) = 0"
    and "re i" and "last_of_group i (run varray_clk is s)"
    and "always varray_clk (\<lambda>i s. we i \<longrightarrow> \<not> queue_almost_full s) (i # js) (run varray_clk is s)"
  shows "trace varray_clk (reads w) js (varray_clk i (run varray_clk is s))
     = replicate (length (filter re js)) (replicate w False)"
proof -
  let ?t = "run varray_clk is s"
  let ?u = "varray_clk i ?t"
  obtain e p where order: "used_in_order e p (i # js)" using order_suffix [OF assms(2)] by blast
  have len: "length (mem_varr_pos_start ?t) = 64" "length (mem_varr_pos_end_offset ?t) = 64"
    using assms(1) by (simp_all add: run_lengths varray_start_def)
  have "queue_size ?t = 0" using assms(3,4) by (simp add: queue_size_def)
  then have u: "tail ?u = 63" "head ?u < 63" using assms(3,4) by (simp_all add: varray_clk_def)
  have "pos_start ?u = pos_start ?t" "pos_end_offset ?u = pos_end_offset ?t"
    using u assms(3,4) by (simp_all add: pos_start_def pos_end_offset_def varray_clk_def)
  then have "unat (pos_start ?u) + unat (pos_end_offset ?u) \<le> p + 1"
    using assms(6) order by (simp add: last_of_group_def in_order_def)
  moreover obtain e' where "used_in_order e' (p + 1) js" using order assms(5) by (auto simp: pos_after_def)
  ultimately show ?thesis
    using stuck_reads [of ?u "p + 1" e' js w] len u assms(7) by (simp add: ring_lengths)
qed

theorem ring_gets_stuck_witness:
  "trace varray_clk (reads 1) (map chase [65..<70]) (varray_clk (only_read 64) (run varray_clk (map chase [0..<64]) empty_varray))
     = replicate 5 [False]"
proof -
  let ?t = "run varray_clk (map chase [0..<64]) empty_varray"
  have t: "tail ?t = 63 \<and> head ?t = 0 \<and> last_of_group (only_read 64) ?t
      \<and> always varray_clk (\<lambda>i s. we i \<longrightarrow> \<not> queue_almost_full s) (only_read 64 # map chase [65..<70]) ?t"
    by code_simp
  have "used_in_order (64 + 1) (64 + 1) (map chase [64 + 1..<70] @ [])"
    by (rule chase_in_order) simp_all
  then have "used_in_order 0 0 (map chase [0..<64] @ only_read 64 # map chase [65..<70])"
    by (intro chase_in_order) (simp_all add: only_read_def order_defs)
  moreover have "varray_start empty_varray" by (simp add: varray_start_def empty_varray_def)
  moreover have "length (filter re (map chase [65..<70])) = 5" by code_simp
  moreover have "re (only_read 64)" by (simp add: only_read_def)
  ultimately show ?thesis using ring_gets_stuck [of empty_varray "map chase [0..<64]" "only_read 64" "map chase [65..<70]" 1] t
    by simp
qed

end
