(* ===== verification/InstructionQueue.thy ===== *)
theory InstructionQueue
  imports Decoder Varray
begin

text \<open>
  The instruction queue (core/FIFO/iq.sv): a push writes up to sixteen copies of an instruction into
  the sparse array of its type, late enough for the results of the instruction before it; a pop reads one
  place of all four arrays and hands out the instruction of each type, with the address of its copy
  counted up from the one before.
\<close>

section \<open>State and ports\<close>

text \<open>The three kinds of instructions it hands out (types.sv).\<close>

record dma_instruction =
  dma_valid :: bool
  dma_mem_we :: bool
  dma_main_mem_addr :: "7 word"
  dma_cache_slot :: bits
  dma_cache_addr :: "11 word"

record regfile_instruction =
  reg_valid :: bool
  reg_is_load :: bool
  reg_cache_slot :: bits
  reg_cache_addr :: "11 word"
  reg_superscalar_thread :: "4 word"
  reg_regfile_reg :: bits

record math_instr =
  math_valid :: bool
  math_category :: bits
  math_options :: bits
  math_superscalar_thread :: "4 word"

record iq_in =
  q_re :: bool
  q_we :: bool
  in_instr_type :: instr_type
  copy_count :: "5 word"
  cache_addr :: "11 word"
  d_cache_addr :: "11 word"
  main_mem_addr :: "7 word"
  d_main_mem_addr :: "7 word"
  in_arith_instr :: bits
  in_ram_instr :: bits
  in_ld_st_instr :: bits

text \<open>The arrays indexed by the type of an instruction are lists of four.\<close>

record iq =
  prev_instr_type :: instr_type
  next_free_spot_in_varray :: "16 word list"
  varray_pos_when_done :: "16 word list"
  varray_read_pos :: "16 word"
  cache_varray :: varray
  dma_varray :: varray
  math_varray :: varray
  prog_complete_varray :: varray
  out_cache_instr :: regfile_instruction
  out_dma_instr :: dma_instruction
  out_math_instr :: math_instr
  out_prog_end_valid :: bool
  empty :: bool

fun type_num :: "instr_type \<Rightarrow> nat" where
  "type_num INSTR_TYPE_LOAD_STORE = 0"
| "type_num INSTR_TYPE_RAM = 1"
| "type_num INSTR_TYPE_ARITHMETIC = 2"
| "type_num INSTR_TYPE_PROG_END = 3"

fun latency :: "instr_type \<Rightarrow> 16 word" where
  "latency INSTR_TYPE_LOAD_STORE = 3"
| "latency INSTR_TYPE_RAM = 4"
| "latency INSTR_TYPE_ARITHMETIC = 10"
| "latency INSTR_TYPE_PROG_END = 1"

definition SUPERSCALAR_WIDTH :: "16 word" where
  "SUPERSCALAR_WIDTH = 16"

section \<open>Where a push goes\<close>

definition max3 :: "16 word \<Rightarrow> 16 word \<Rightarrow> 16 word \<Rightarrow> 16 word" where
  "max3 a b c = (if a > b then (if a > c then a else c) else (if b > c then b else c))"

definition max4 :: "16 word \<Rightarrow> 16 word \<Rightarrow> 16 word \<Rightarrow> 16 word \<Rightarrow> 16 word" where
  "max4 a b c d =
     (if a > b then (if a > c then (if a > d then a else d) else (if c > d then c else d))
      else (if b > c then (if b > d then b else d) else (if c > d then c else d)))"

fun varr :: "instr_type \<Rightarrow> iq \<Rightarrow> varray" where
  "varr INSTR_TYPE_LOAD_STORE s = cache_varray s"
| "varr INSTR_TYPE_RAM s = dma_varray s"
| "varr INSTR_TYPE_ARITHMETIC s = math_varray s"
| "varr INSTR_TYPE_PROG_END s = prog_complete_varray s"

definition varr_len :: "iq \<Rightarrow> instr_type \<Rightarrow> 16 word" where
  "varr_len s t = varray_len (varr t s)"

definition insert_varray_pos :: "iq_in \<Rightarrow> iq \<Rightarrow> 16 word" where
  "insert_varray_pos i s =
     (if in_instr_type i = INSTR_TYPE_PROG_END then
        max4 (varr_len s INSTR_TYPE_LOAD_STORE + latency INSTR_TYPE_LOAD_STORE)
          (varr_len s INSTR_TYPE_RAM + latency INSTR_TYPE_RAM)
          (varr_len s INSTR_TYPE_ARITHMETIC + latency INSTR_TYPE_ARITHMETIC)
          (varr_len s INSTR_TYPE_PROG_END + latency INSTR_TYPE_PROG_END)
      else max3 (varray_pos_when_done s ! type_num (prev_instr_type s))
          (next_free_spot_in_varray s ! type_num (in_instr_type i)) (varray_read_pos s + 1))"

definition needs_reset :: "iq \<Rightarrow> bool" where
  "needs_reset s \<longleftrightarrow> varray_read_pos s = - 1"

definition stall_push :: "iq \<Rightarrow> bool" where
  "stall_push s \<longleftrightarrow>
     queue_almost_full (cache_varray s) \<or> queue_almost_full (dma_varray s)
     \<or> queue_almost_full (math_varray s) \<or> queue_almost_full (prog_complete_varray s)"

text \<open>The element that a push writes into the array of its type, its most significant bit its validity.\<close>

fun varray_element :: "instr_type \<Rightarrow> iq_in \<Rightarrow> bits" where
  "varray_element INSTR_TYPE_LOAD_STORE i =
     True # in_ld_st_instr i @ uint_bits 11 (uint (cache_addr i)) @ uint_bits 11 (uint (d_cache_addr i))"
| "varray_element INSTR_TYPE_RAM i =
     [True, in_ram_instr i ! 0] @ uint_bits 7 (uint (main_mem_addr i)) @ uint_bits 7 (uint (d_main_mem_addr i))
     @ uint_bits 11 (uint (cache_addr i)) @ uint_bits 11 (uint (d_cache_addr i)) @ slice 1 2 (in_ram_instr i)"
| "varray_element INSTR_TYPE_ARITHMETIC i = True # in_arith_instr i"
| "varray_element INSTR_TYPE_PROG_END i = [True]"

fun element_width :: "instr_type \<Rightarrow> nat" where
  "element_width INSTR_TYPE_LOAD_STORE = 30"
| "element_width INSTR_TYPE_RAM = 40"
| "element_width INSTR_TYPE_ARITHMETIC = 10"
| "element_width INSTR_TYPE_PROG_END = 1"

definition varr_in :: "instr_type \<Rightarrow> iq_in \<Rightarrow> iq \<Rightarrow> varray_in" where
  "varr_in t i s =
     \<lparr>we = q_we i \<and> in_instr_type i = t, write_addr = insert_varray_pos i s,
      write_addr_len = (if t = INSTR_TYPE_PROG_END then 1 else copy_count i),
      dat_w = varray_element t i, re = q_re i, read_addr = varray_read_pos s\<rparr>"

definition varr_dat_r :: "instr_type \<Rightarrow> iq \<Rightarrow> bits" where
  "varr_dat_r t s = varray_dat_r (element_width t) (varray_read_pos s) (varr t s)"

section \<open>What a pop hands out\<close>

definition field :: "nat \<Rightarrow> nat \<Rightarrow> bits \<Rightarrow> 'a::len word" where
  "field a w d = word_of_int (bits_uint (part a w d))"

definition cache_out :: "bits \<Rightarrow> bool \<Rightarrow> regfile_instruction \<Rightarrow> regfile_instruction" where
  "cache_out d new_group r =
     r\<lparr>reg_valid := d ! 0, reg_is_load := d ! 1, reg_cache_slot := slice 2 3 d, reg_regfile_reg := slice 4 5 d,
       reg_cache_addr := (if new_group then field 8 11 d else reg_cache_addr r + field 19 11 d),
       reg_superscalar_thread := (if new_group then 0 else reg_superscalar_thread r + 1)\<rparr>"

definition dma_out :: "bits \<Rightarrow> bool \<Rightarrow> dma_instruction \<Rightarrow> dma_instruction" where
  "dma_out d new_group r =
     r\<lparr>dma_valid := d ! 0, dma_mem_we := d ! 1, dma_cache_slot := slice 38 39 d,
       dma_main_mem_addr := (if new_group then field 2 7 d else dma_main_mem_addr r + field 9 7 d),
       dma_cache_addr := (if new_group then field 16 11 d else dma_cache_addr r + field 27 11 d)\<rparr>"

definition math_out :: "bits \<Rightarrow> bool \<Rightarrow> math_instr \<Rightarrow> math_instr" where
  "math_out d new_group r =
     r\<lparr>math_valid := d ! 0, math_category := slice 1 3 d, math_options := slice 4 9 d,
       math_superscalar_thread := (if new_group then 0 else math_superscalar_thread r + 1)\<rparr>"

section \<open>One clock\<close>

definition beyond_all :: "iq \<Rightarrow> bool" where
  "beyond_all s \<longleftrightarrow>
     varray_read_pos s \<ge> varr_len s INSTR_TYPE_LOAD_STORE \<and> varray_read_pos s \<ge> varr_len s INSTR_TYPE_RAM
     \<and> varray_read_pos s \<ge> varr_len s INSTR_TYPE_ARITHMETIC \<and> varray_read_pos s \<ge> varr_len s INSTR_TYPE_PROG_END"

definition empty_next :: "iq_in \<Rightarrow> iq \<Rightarrow> bool" where
  "empty_next i s =
     (if q_we i then (if copy_count i = 1 \<and> q_re i then empty s else False)
      else if q_re i then beyond_all s
      else empty s)"

definition iq_clk :: "iq_in \<Rightarrow> iq \<Rightarrow> iq" where
  "iq_clk i s =
     (let n = type_num (in_instr_type i); pos = insert_varray_pos i s; idle = \<not> q_re i \<and> empty s in
      \<lparr>prev_instr_type = (if q_we i then in_instr_type i else prev_instr_type s),
       next_free_spot_in_varray =
         (if q_we i then (next_free_spot_in_varray s)[n := pos + SUPERSCALAR_WIDTH] else next_free_spot_in_varray s),
       varray_pos_when_done =
         (if q_we i then (varray_pos_when_done s)[n := pos + latency (in_instr_type i)] else varray_pos_when_done s),
       varray_read_pos = (if q_re i then varray_read_pos s + 1 else varray_read_pos s),
       cache_varray = varray_clk (varr_in INSTR_TYPE_LOAD_STORE i s) (cache_varray s),
       dma_varray = varray_clk (varr_in INSTR_TYPE_RAM i s) (dma_varray s),
       math_varray = varray_clk (varr_in INSTR_TYPE_ARITHMETIC i s) (math_varray s),
       prog_complete_varray = varray_clk (varr_in INSTR_TYPE_PROG_END i s) (prog_complete_varray s),
       out_cache_instr =
         (if q_re i then cache_out (varr_dat_r INSTR_TYPE_LOAD_STORE s) (is_new_superscalar_group (cache_varray s)) (out_cache_instr s)
          else (out_cache_instr s)\<lparr>reg_valid := reg_valid (out_cache_instr s) \<and> \<not> idle\<rparr>),
       out_dma_instr =
         (if q_re i then dma_out (varr_dat_r INSTR_TYPE_RAM s) (is_new_superscalar_group (dma_varray s)) (out_dma_instr s)
          else (out_dma_instr s)\<lparr>dma_valid := dma_valid (out_dma_instr s) \<and> \<not> idle\<rparr>),
       out_math_instr =
         (if q_re i then math_out (varr_dat_r INSTR_TYPE_ARITHMETIC s) (is_new_superscalar_group (math_varray s)) (out_math_instr s)
          else (out_math_instr s)\<lparr>math_valid := math_valid (out_math_instr s) \<and> \<not> idle\<rparr>),
       out_prog_end_valid =
         (if q_re i then varr_dat_r INSTR_TYPE_PROG_END s ! 0 else out_prog_end_valid s \<and> \<not> idle),
       empty = empty_next i s\<rparr>)"

text \<open>The state after \<^verbatim>\<open>reset\<close>; the rings keep their memory.\<close>

definition iq_reset :: "iq \<Rightarrow> iq" where
  "iq_reset s =
     s\<lparr>prev_instr_type := INSTR_TYPE_LOAD_STORE, next_free_spot_in_varray := replicate 4 0,
       varray_pos_when_done := replicate 4 0, varray_read_pos := 0, cache_varray := varray_reset (cache_varray s),
       dma_varray := varray_reset (dma_varray s), math_varray := varray_reset (math_varray s),
       prog_complete_varray := varray_reset (prog_complete_varray s),
       out_cache_instr := \<lparr>reg_valid = False, reg_is_load = False, reg_cache_slot = replicate 2 False, reg_cache_addr = 0,
         reg_superscalar_thread = 0, reg_regfile_reg = replicate 2 False\<rparr>,
       out_dma_instr := \<lparr>dma_valid = False, dma_mem_we = False, dma_main_mem_addr = 0, dma_cache_slot = replicate 2 False,
         dma_cache_addr = 0\<rparr>,
       out_math_instr := \<lparr>math_valid = False, math_category = replicate 3 False, math_options = replicate 6 False,
         math_superscalar_thread = 0\<rparr>,
       out_prog_end_valid := False, empty := True\<rparr>"

section \<open>Pushes go to the right places\<close>

definition copies :: "iq_in \<Rightarrow> nat" where
  "copies i = (if in_instr_type i = INSTR_TYPE_PROG_END then 1 else unat (copy_count i))"

definition iq_pushes :: "iq_in \<Rightarrow> iq \<Rightarrow> (nat \<times> iq_in) list" where
  "iq_pushes i s = (if q_we i then [(unat (insert_varray_pos i s), i)] else [])"

text \<open>What the rest of the device keeps to: it pops only what is there and pushes one to sixteen copies
  of a whole instruction.  The positions have not run out of their 16 bits.\<close>

definition in_range :: "iq \<Rightarrow> bool" where
  "in_range s \<longleftrightarrow>
     list_all (\<lambda>x. x < 65500) (varray_read_pos s # next_free_spot_in_varray s @ varray_pos_when_done s
       @ map (varr_len s) [INSTR_TYPE_LOAD_STORE, INSTR_TYPE_RAM, INSTR_TYPE_ARITHMETIC, INSTR_TYPE_PROG_END])"

definition iq_used :: "iq_in \<Rightarrow> iq \<Rightarrow> bool" where
  "iq_used i s \<longleftrightarrow>
     (q_re i \<longrightarrow> \<not> empty s) \<and> in_range s
     \<and> (q_we i \<longrightarrow> 0 < copy_count i \<and> copy_count i \<le> 16 \<and> length (in_ld_st_instr i) = 7
          \<and> length (in_ram_instr i) = 3 \<and> length (in_arith_instr i) = 9)"

text \<open>A push after another one.\<close>

definition apart :: "nat \<times> iq_in \<Rightarrow> nat \<times> iq_in \<Rightarrow> bool" where
  "apart a b \<longleftrightarrow>
     fst a + unat (latency (in_instr_type (snd a))) \<le> fst b
     \<and> (in_instr_type (snd a) = in_instr_type (snd b) \<longrightarrow> fst a + copies (snd a) \<le> fst b)
     \<and> (in_instr_type (snd b) = INSTR_TYPE_PROG_END \<longrightarrow>
          fst a + copies (snd a) + unat (latency (in_instr_type (snd a))) \<le> fst b)"

definition read_ok :: "iq \<Rightarrow> bool" where
  "read_ok s \<longleftrightarrow>
     (\<exists>t. unat (varray_read_pos s) \<le> unat (varr_len s t) + 1)
     \<and> ((\<forall>t. unat (varr_len s t) < unat (varray_read_pos s)) \<longrightarrow> empty s)"

definition iq_inv :: "(nat \<times> iq_in) list \<Rightarrow> iq \<Rightarrow> bool" where
  "iq_inv ps s \<longleftrightarrow>
     length (next_free_spot_in_varray s) = 4 \<and> length (varray_pos_when_done s) = 4
     \<and> (\<forall>t. t \<noteq> INSTR_TYPE_PROG_END \<longrightarrow> varr_len s t \<le> next_free_spot_in_varray s ! type_num t)
     \<and> read_ok s \<and> sorted_wrt apart ps
     \<and> (\<forall>a \<in> set ps. fst a + unat (latency (in_instr_type (snd a)))
             \<le> unat (varray_pos_when_done s ! type_num (prev_instr_type s))
          \<and> fst a + copies (snd a) \<le> unat (varr_len s (in_instr_type (snd a))))"

lemma all_types:
  "(\<forall>t. P t) \<longleftrightarrow> P INSTR_TYPE_LOAD_STORE \<and> P INSTR_TYPE_RAM \<and> P INSTR_TYPE_ARITHMETIC \<and> P INSTR_TYPE_PROG_END"
  by (metis instr_type.exhaust)

lemma type_num_less [simp]: "type_num t < 4"
  by (cases t) simp_all

lemma type_num_inj: "type_num t = type_num u \<longleftrightarrow> t = u"
  by (cases t; cases u) simp_all

lemma varr_clk: "varr t (iq_clk i s) = varray_clk (varr_in t i s) (varr t s)"
  by (cases t) (simp_all add: iq_clk_def Let_def)

lemma max3_ge: "a \<le> max3 a b c" "b \<le> max3 a b c" "c \<le> max3 a b c"
  by (auto simp: max3_def)

lemma max3_cases: "max3 a b c = a \<or> max3 a b c = b \<or> max3 a b c = c"
  by (simp add: max3_def)

lemma max4_ge: "a \<le> max4 a b c d" "b \<le> max4 a b c d" "c \<le> max4 a b c d" "d \<le> max4 a b c d"
  by (auto simp: max4_def)

lemma max4_cases: "max4 a b c d = a \<or> max4 a b c d = b \<or> max4 a b c d = c \<or> max4 a b c d = d"
  by (simp add: max4_def)

lemma unat_add_small: "(x :: 16 word) \<le> 65510 \<Longrightarrow> y \<le> 16 \<Longrightarrow> unat (x + y) = unat x + unat y"
  by (simp add: word_le_nat_alt unat_plus_if')

lemma latency_le: "latency t \<le> 10" "1 \<le> latency t"
  by (cases t; simp)+

lemma in_range_bounds:
  assumes "in_range s"
  shows "varray_read_pos s < 65500" "varr_len s t < 65500"
    "j < length (next_free_spot_in_varray s) \<Longrightarrow> next_free_spot_in_varray s ! j < 65500"
    "j < length (varray_pos_when_done s) \<Longrightarrow> varray_pos_when_done s ! j < 65500"
  using assms by (cases t; auto simp: in_range_def list_all_iff)+

lemma insert_pos:
  assumes "iq_inv ps s" and "in_range s"
  defines "pos \<equiv> \<lambda>i. insert_varray_pos i s"
  shows "pos i \<le> 65510"
    and "in_instr_type i \<noteq> INSTR_TYPE_PROG_END \<Longrightarrow>
      varray_pos_when_done s ! type_num (prev_instr_type s) \<le> pos i
      \<and> next_free_spot_in_varray s ! type_num (in_instr_type i) \<le> pos i \<and> varray_read_pos s + 1 \<le> pos i"
    and "in_instr_type i = INSTR_TYPE_PROG_END \<Longrightarrow> unat (varr_len s t) + unat (latency t) \<le> unat (pos i)"
proof -
  have len: "length (next_free_spot_in_varray s) = 4" "length (varray_pos_when_done s) = 4"
    using assms(1) by (simp_all add: iq_inv_def)
  note b = in_range_bounds [OF assms(2)]
  have lat: "unat (varr_len s t + latency t) = unat (varr_len s t) + unat (latency t)" for t
    using b(2) [of t] latency_le(1) [of t] by (intro unat_add_small) (auto simp: word_le_nat_alt word_less_nat_alt)
  have read: "unat (varray_read_pos s + 1) = unat (varray_read_pos s) + 1"
    using b(1) unat_add_small [of "varray_read_pos s" 1] by (simp add: word_le_nat_alt word_less_nat_alt)
  have small: "varr_len s t + latency t \<le> 65510" for t
    using lat [of t] b(2) [of t] latency_le(1) [of t] by (simp add: word_le_nat_alt word_less_nat_alt)
  have small': "varray_read_pos s + 1 \<le> 65510"
    using read b(1) by (simp add: word_le_nat_alt word_less_nat_alt)
  have j: "next_free_spot_in_varray s ! type_num u \<le> 65510" "varray_pos_when_done s ! type_num u \<le> 65510" for u
    using b(3,4) [of "type_num u"] by (auto simp: len word_le_nat_alt word_less_nat_alt)
  show "pos i \<le> 65510"
  proof (cases "in_instr_type i = INSTR_TYPE_PROG_END")
    case True
    then show ?thesis
      using max4_cases small by (simp add: pos_def insert_varray_pos_def) (metis latency.simps)
  next
    case False
    then show ?thesis
      using max3_cases small' j by (simp add: pos_def insert_varray_pos_def) metis
  qed
  {
    assume "in_instr_type i \<noteq> INSTR_TYPE_PROG_END"
    then show "varray_pos_when_done s ! type_num (prev_instr_type s) \<le> pos i
      \<and> next_free_spot_in_varray s ! type_num (in_instr_type i) \<le> pos i \<and> varray_read_pos s + 1 \<le> pos i"
      by (simp add: pos_def insert_varray_pos_def max3_ge)
  next
    assume "in_instr_type i = INSTR_TYPE_PROG_END"
    then have "varr_len s t + latency t \<le> pos i"
      by (cases t) (simp_all only: pos_def insert_varray_pos_def simp_thms if_True max4_ge)
    then show "unat (varr_len s t) + unat (latency t) \<le> unat (pos i)"
      using lat [of t] by (simp add: word_le_nat_alt)
  }
qed

lemma read_before:
  assumes "read_ok s" and "r \<Longrightarrow> \<not> empty s"
  obtains u where "unat (varray_read_pos s) \<le> unat (varr_len s u) + (if r then 0 else 1)"
proof (cases r)
  case True
  then have "\<not> (\<forall>t. unat (varr_len s t) < unat (varray_read_pos s))" using assms by (auto simp: read_ok_def)
  then obtain u where "unat (varray_read_pos s) \<le> unat (varr_len s u)" by (auto simp: not_less)
  then show thesis using that [of u] True by simp
next
  case False
  then show thesis using assms(1) that by (auto simp: read_ok_def)
qed

lemma pushed_in_order:
  assumes inv: "iq_inv ps s" and i: "iq_used i s"
  shows "in_order (unat (varr_len s t)) (unat (varray_read_pos s)) (varr_in t i s)"
proof -
  let ?p = "unat (varray_read_pos s)" and ?pos = "insert_varray_pos i s"
  have range: "in_range s" and re: "q_re i \<Longrightarrow> \<not> empty s" using i by (simp_all add: iq_used_def)
  note pos = insert_pos [OF inv range]
  have p: "?p < 65500" using in_range_bounds(1) [OF range] by (simp add: word_less_nat_alt)
  have next_pos: "unat (varray_read_pos s + 1) = ?p + 1"
    using p unat_add_small [of "varray_read_pos s" 1] by (simp add: word_le_nat_alt)
  have "unat (varr_len s t) \<le> unat ?pos \<and> (if q_re i then ?p + 1 else ?p) \<le> unat ?pos"
    if "in_instr_type i = t"
  proof (cases "t = INSTR_TYPE_PROG_END")
    case False
    then have "varr_len s t \<le> next_free_spot_in_varray s ! type_num t" using inv by (simp add: iq_inv_def)
    then show ?thesis using pos(2) [of i] that False next_pos by (auto simp: word_le_nat_alt)
  next
    case True
    then have ends: "unat (varr_len s u) + 1 \<le> unat ?pos" for u
      using pos(3) [of i u] that latency_le(2) [of u] by (simp add: word_le_nat_alt)
    have "read_ok s" using inv by (simp add: iq_inv_def)
    then obtain u where "?p \<le> unat (varr_len s u) + (if q_re i then 0 else 1)"
      using re by (rule read_before)
    then show ?thesis using ends [of u] ends [of t] by (auto split: if_splits)
  qed
  moreover have "unat ?pos \<le> 65510" using pos(1) [of i] by (simp add: word_le_nat_alt)
  moreover have "q_we i \<Longrightarrow> copy_count i \<noteq> 0 \<and> unat (copy_count i) \<le> 16"
    using i by (auto simp: iq_used_def word_le_nat_alt)
  ultimately show ?thesis using p by (auto simp: in_order_def varr_in_def)
qed

lemma varr_len_clk:
  assumes inv: "iq_inv ps s" and i: "iq_used i s"
  shows "unat (varr_len (iq_clk i s) t) = end_after (unat (varr_len s t)) (varr_in t i s)"
proof -
  have "unat (write_addr j + ucast (write_addr_len j)) = unat (write_addr j) + unat (write_addr_len j)"
    if "unat (write_addr j) + unat (write_addr_len j) < 65536" for j :: varray_in
    using that by (simp add: unat_word_ariths unsigned_ucast_eq take_bit_nat_eq_self
        order_less_trans [OF unsigned_less [of "write_addr_len j"]])
  then show ?thesis
    using pushed_in_order [OF inv i, of t] by (auto simp: varr_len_def varr_clk varray_clk_def order_defs)
qed

lemma read_pos_clk:
  assumes "iq_used i s"
  shows "unat (varray_read_pos (iq_clk i s)) = pos_after (unat (varray_read_pos s)) (varr_in t i s)"
proof -
  have "varray_read_pos s < 65500" using assms in_range_bounds(1) by (simp add: iq_used_def)
  then have "unat (varray_read_pos s + 1) = unat (varray_read_pos s) + 1"
    using unat_add_small [of "varray_read_pos s" 1] by (simp add: word_le_nat_alt word_less_nat_alt)
  then show ?thesis by (simp add: iq_clk_def Let_def pos_after_def varr_in_def)
qed

lemma read_ok_clk:
  assumes inv: "iq_inv ps s" and i: "iq_used i s"
  shows "read_ok (iq_clk i s)"
proof -
  let ?s = "iq_clk i s" and ?p = "unat (varray_read_pos s)" and ?len = "\<lambda>t. unat (varr_len s t)"
  note len = varr_len_clk [OF inv i] and order = pushed_in_order [OF inv i]
  have p: "unat (varray_read_pos ?s) = (if q_re i then ?p + 1 else ?p)"
    using read_pos_clk [OF i] by (simp add: pos_after_def varr_in_def)
  have grows: "?len t \<le> unat (varr_len ?s t)" for t
    using order [of t] by (auto simp: len order_defs)
  have far: "unat (varray_read_pos ?s) < unat (varr_len ?s (in_instr_type i))" if "q_we i"
  proof -
    let ?j = "varr_in (in_instr_type i) i s"
    have "we ?j" using that by (simp add: varr_in_def)
    then have "0 < unat (write_addr_len ?j)" "(if q_re i then ?p + 1 else ?p) \<le> unat (write_addr ?j)"
      using order [of "in_instr_type i"] by (auto simp: in_order_def unat_gt_0 varr_in_def)
    then show ?thesis using \<open>we ?j\<close> by (simp add: p len end_after_def)
  qed
  have read: "read_ok s" "q_re i \<Longrightarrow> \<not> empty s" using inv i by (simp_all add: iq_inv_def iq_used_def)
  obtain t where "?p \<le> ?len t + (if q_re i then 0 else 1)" using read by (rule read_before)
  then have "unat (varray_read_pos ?s) \<le> ?len t + 1" by (simp add: p split: if_splits)
  then have "\<exists>t. unat (varray_read_pos ?s) \<le> unat (varr_len ?s t) + 1"
    using grows [of t] by (intro exI [of _ t]) simp
  moreover have "empty ?s" if beyond: "\<forall>t. unat (varr_len ?s t) < unat (varray_read_pos ?s)"
  proof -
    have we: "\<not> q_we i" using far beyond by (metis less_asym)
    have old: "?len t < (if q_re i then ?p + 1 else ?p)" for t
      using grows [of t] spec [OF beyond, of t] by (simp add: p)
    show ?thesis
    proof (cases "q_re i")
      case True
      then have "beyond_all s" using old by (simp add: beyond_all_def word_le_nat_alt less_Suc_eq_le)
      then show ?thesis using we True by (simp add: iq_clk_def Let_def empty_next_def)
    next
      case False
      then show ?thesis using we old read(1) by (simp add: iq_clk_def Let_def empty_next_def read_ok_def)
    qed
  qed
  ultimately show ?thesis by (simp add: read_ok_def)
qed

lemma iq_inv_clk:
  assumes inv: "iq_inv ps s" and i: "iq_used i s"
  shows "iq_inv (ps @ iq_pushes i s) (iq_clk i s)"
proof (cases "q_we i")
  case False
  have "varr_len (iq_clk i s) t = varr_len s t" for t
    using False by (simp add: varr_len_def varr_clk) (simp add: varray_clk_def varr_in_def)
  moreover have "prev_instr_type (iq_clk i s) = prev_instr_type s"
    "next_free_spot_in_varray (iq_clk i s) = next_free_spot_in_varray s"
    "varray_pos_when_done (iq_clk i s) = varray_pos_when_done s"
    using False by (simp_all add: iq_clk_def Let_def)
  ultimately show ?thesis
    using inv read_ok_clk [OF inv i] False by (simp add: iq_inv_def iq_pushes_def)
next
  case True
  let ?s = "iq_clk i s" and ?t = "in_instr_type i"
  let ?pos = "insert_varray_pos i s"
  have range: "in_range s" using i by (simp add: iq_used_def)
  note pos = insert_pos [OF inv range]
  have lens: "length (next_free_spot_in_varray s) = 4" "length (varray_pos_when_done s) = 4"
    using inv by (simp_all add: iq_inv_def)
  have pos': "unat ?pos \<le> 65510" using pos(1) [of i] by (simp add: word_le_nat_alt)
  have add: "unat (?pos + SUPERSCALAR_WIDTH) = unat ?pos + 16" "unat (?pos + latency ?t) = unat ?pos + unat (latency ?t)"
    using pos(1) [of i] latency_le(1) [of ?t] order_trans [of "latency ?t" 10 16]
    by (simp_all add: unat_add_small SUPERSCALAR_WIDTH_def)
  have len: "unat (varr_len ?s t) = (if t = ?t then unat ?pos + copies i else unat (varr_len s t))" for t
    using True by (simp add: varr_len_clk [OF inv i] end_after_def varr_in_def copies_def)
  have copies: "1 \<le> copies i" "copies i \<le> 16"
    using i True by (auto simp: copies_def iq_used_def word_le_nat_alt word_less_nat_alt Suc_le_eq)
  have free: "next_free_spot_in_varray ?s ! type_num t
      = (if t = ?t then ?pos + SUPERSCALAR_WIDTH else next_free_spot_in_varray s ! type_num t)" for t
    using True by (simp add: iq_clk_def Let_def nth_list_update lens type_num_inj)
  have ends: "unat (varr_len s ?t) \<le> unat ?pos"
    using pushed_in_order [OF inv i, of ?t] True by (auto simp: in_order_def varr_in_def)
  have old: "fst a + unat (latency (in_instr_type (snd a))) \<le> unat ?pos" and
    old_end: "in_instr_type (snd a) = ?t \<Longrightarrow> fst a + copies (snd a) \<le> unat ?pos" and
    old_all: "?t = INSTR_TYPE_PROG_END \<Longrightarrow> fst a + copies (snd a) + unat (latency (in_instr_type (snd a))) \<le> unat ?pos"
    if a: "a \<in> set ps" for a
  proof -
    have inv_a: "fst a + unat (latency (in_instr_type (snd a))) \<le> unat (varray_pos_when_done s ! type_num (prev_instr_type s))"
      "fst a + copies (snd a) \<le> unat (varr_len s (in_instr_type (snd a)))"
      using inv a by (simp_all add: iq_inv_def)
    show "in_instr_type (snd a) = ?t \<Longrightarrow> fst a + copies (snd a) \<le> unat ?pos" using inv_a(2) ends by simp
    show all: "?t = INSTR_TYPE_PROG_END \<Longrightarrow> fst a + copies (snd a) + unat (latency (in_instr_type (snd a))) \<le> unat ?pos"
      using pos(3) [of i "in_instr_type (snd a)"] inv_a(2) by simp
    show "fst a + unat (latency (in_instr_type (snd a))) \<le> unat ?pos"
      using pos(2) [of i] all inv_a(1) by (cases "?t = INSTR_TYPE_PROG_END") (auto simp: word_le_nat_alt)
  qed
  have done': "varray_pos_when_done ?s ! type_num (prev_instr_type ?s) = ?pos + latency ?t"
    using True by (simp add: iq_clk_def Let_def lens)
  have "sorted_wrt apart (ps @ [(unat ?pos, i)])"
    using inv old old_end old_all by (auto simp: sorted_wrt_append iq_inv_def apart_def)
  moreover have "\<forall>t. t \<noteq> INSTR_TYPE_PROG_END \<longrightarrow> varr_len ?s t \<le> next_free_spot_in_varray ?s ! type_num t"
    using inv copies(2) by (auto simp: word_le_nat_alt len free add iq_inv_def)
  moreover have "fst a + unat (latency (in_instr_type (snd a))) \<le> unat ?pos + unat (latency ?t)
        \<and> fst a + copies (snd a) \<le> unat (varr_len ?s (in_instr_type (snd a)))"
    if "a \<in> set (ps @ [(unat ?pos, i)])" for a
    using that old [of a] old_end [of a] inv by (auto simp: len iq_inv_def)
  ultimately show ?thesis
    using True lens read_ok_clk [OF inv i]
    by (simp add: iq_inv_def iq_pushes_def done' add) (simp add: iq_clk_def Let_def)
qed

section \<open>Runs\<close>

definition iq_start :: "iq \<Rightarrow> bool" where
  "iq_start s \<longleftrightarrow>
     next_free_spot_in_varray s = replicate 4 0 \<and> varray_pos_when_done s = replicate 4 0 \<and> varray_read_pos s = 0
     \<and> empty s \<and> (\<forall>t \<in> {INSTR_TYPE_LOAD_STORE, INSTR_TYPE_RAM, INSTR_TYPE_ARITHMETIC, INSTR_TYPE_PROG_END}.
                   varray_start (varr t s) \<and> varr_len s t = 0)"

lemma iq_start_varr: "iq_start s \<Longrightarrow> varray_start (varr t s) \<and> varr_len s t = 0"
  by (cases t) (simp_all add: iq_start_def)

lemma iq_start_inv:
  assumes "iq_start s"
  shows "iq_inv [] s"
proof -
  have "varr_len s t = 0" for t using iq_start_varr [OF assms] by simp
  moreover have "next_free_spot_in_varray s = replicate 4 0" "varray_pos_when_done s = replicate 4 0"
    "varray_read_pos s = 0"
    using assms by (simp_all add: iq_start_def)
  ultimately show ?thesis by (simp add: iq_inv_def read_ok_def)
qed

lemma iq_inv_run:
  "iq_inv ps s \<Longrightarrow> always iq_clk iq_used is s \<Longrightarrow> iq_inv (ps @ trace iq_clk iq_pushes is s) (run iq_clk is s)"
proof (induction "is" arbitrary: ps s)
  case (Cons i "is")
  then show ?case using Cons.IH [OF iq_inv_clk [OF Cons.prems(1)]] by simp
qed simp

text \<open>C14. The instruction queue keeps the order and the latencies of the program: from reset, whatever is
  pushed and popped, and unless the positions run out, the copies of a push start at least the
  latency of every earlier instruction later, copies of one type never share a place, and the
  end of a program comes after the results of everything before it.\<close>

theorem pushes_apart:
  assumes "iq_start s" and "always iq_clk iq_used is s"
  shows "sorted_wrt apart (trace iq_clk iq_pushes is s)"
  using iq_inv_run [OF iq_start_inv [OF assms(1)] assms(2)] by (simp add: iq_inv_def)

section \<open>The arrays of a run\<close>

definition varr_ins :: "instr_type \<Rightarrow> iq_in list \<Rightarrow> iq \<Rightarrow> varray_in list" where
  "varr_ins t is s = trace iq_clk (\<lambda>i s. [varr_in t i s]) is s"

lemma varr_ins_simps [simp]:
  "varr_ins t [] s = []" "varr_ins t (i # is) s = varr_in t i s # varr_ins t is (iq_clk i s)"
  by (simp_all add: varr_ins_def)

lemma varr_trace:
  "trace iq_clk (\<lambda>i s. f (varr_in t i s) (varr t s)) is s = trace varray_clk f (varr_ins t is s) (varr t s)"
  by (induction "is" arbitrary: s) (simp_all add: varr_clk)

lemma varr_always:
  "always iq_clk (\<lambda>i s. ok (varr_in t i s) (varr t s)) is s \<longleftrightarrow> always varray_clk ok (varr_ins t is s) (varr t s)"
  by (induction "is" arbitrary: s) (simp_all add: varr_clk)

lemma varr_used_in_order:
  "iq_inv ps s \<Longrightarrow> always iq_clk iq_used is s \<Longrightarrow>
     used_in_order (unat (varr_len s t)) (unat (varray_read_pos s)) (varr_ins t is s)"
proof (induction "is" arbitrary: ps s)
  case (Cons i "is")
  have i: "iq_used i s" using Cons.prems(2) by simp
  show ?case
    using Cons.IH [OF iq_inv_clk [OF Cons.prems(1) i]] Cons.prems(2) pushed_in_order [OF Cons.prems(1) i, of t]
    by (simp add: varr_len_clk [OF Cons.prems(1) i] read_pos_clk [OF i, of t])
qed simp

lemma rings_run:
  "iq_inv ps s \<Longrightarrow> ring gs m (unat (varray_read_pos s)) (varr t s) \<Longrightarrow> groups_ok (unat (varr_len s t)) gs \<Longrightarrow>
   always iq_clk iq_used is s \<Longrightarrow> always iq_clk (\<lambda>i s. ring_ok (varr_in t i s) (varr t s)) is s \<Longrightarrow>
     \<exists>m. ring (gs @ groups (varr_ins t is s)) m (unat (varray_read_pos (run iq_clk is s))) (varr t (run iq_clk is s))
       \<and> groups_ok (unat (varr_len (run iq_clk is s) t)) (gs @ groups (varr_ins t is s))"
proof (induction "is" arbitrary: ps s gs m)
  case (Cons i "is")
  have i: "iq_used i s" "ring_ok (varr_in t i s) (varr t s)" using Cons.prems(4,5) by simp_all
  note step = ring_clk [OF Cons.prems(2,3) pushed_in_order [OF Cons.prems(1) i(1)] i(2)]
  show ?case
    using Cons.IH [OF iq_inv_clk [OF Cons.prems(1) i(1)], of "gs @ written (varr_in t i s)"] step Cons.prems(4,5)
    by (auto simp: varr_len_clk [OF Cons.prems(1) i(1)] read_pos_clk [OF i(1), of t] varr_clk)
qed auto

lemma reads_of_varr: "length (filter re (varr_ins t is s)) = length (filter q_re is)"
  by (induction "is" arbitrary: s) (simp_all add: varr_in_def)

text \<open>The groups of an array are the pushes of its type.\<close>

definition push_group :: "nat \<times> iq_in \<Rightarrow> group" where
  "push_group a = (fst a, copies (snd a), varray_element (in_instr_type (snd a)) (snd a))"

definition of_type :: "instr_type \<Rightarrow> (nat \<times> iq_in) list \<Rightarrow> (nat \<times> iq_in) list" where
  "of_type t ps = filter (\<lambda>a. in_instr_type (snd a) = t) ps"

lemma groups_of_type: "groups (varr_ins t is s) = map push_group (of_type t (trace iq_clk iq_pushes is s))"
proof (induction "is" arbitrary: s)
  case (Cons i "is")
  have "written (varr_in t i s) = map push_group (of_type t (iq_pushes i s))"
    by (simp add: written_def varr_in_def of_type_def iq_pushes_def push_group_def copies_def)
  then show ?case using Cons by (simp add: of_type_def)
qed (simp add: of_type_def)

section \<open>What comes out\<close>

fun outs :: "(bits \<Rightarrow> bool \<Rightarrow> 'r \<Rightarrow> 'r) \<Rightarrow> 'r \<Rightarrow> (bits \<times> bool) list \<Rightarrow> 'r list" where
  "outs g r [] = []"
| "outs g r (x # xs) = g (fst x) (snd x) r # outs g (g (fst x) (snd x) r) xs"

lemma length_outs [simp]: "length (outs g r xs) = length xs"
  by (induction xs arbitrary: r) simp_all

lemma outs_nth:
  "k < length xs \<Longrightarrow> outs g r xs ! k = g (fst (xs ! k)) (snd (xs ! k)) (if k = 0 then r else outs g r xs ! (k - 1))"
proof (induction xs arbitrary: r k)
  case (Cons x xs)
  show ?case
  proof (cases k)
    case (Suc j)
    then show ?thesis using Cons.IH [of j "g (fst x) (snd x) r"] Cons.prems by (cases j) simp_all
  qed simp
qed simp

lemma find_covering:
  assumes "groups_ok e gs" and "g \<in> set gs" and "covers k g"
  shows "find (covers k) gs = Some g"
proof (rule find_unique [where P = "covers k", OF assms(2,3)])
  fix h assume h: "h \<in> set gs" "covers k h"
  obtain x y where xy: "x < length gs" "g = gs ! x" "y < length gs" "h = gs ! y"
    using assms(2) h(1) by (metis in_set_conv_nth)
  have "\<not> x < y" "\<not> y < x"
    using assms(1,3) h(2) xy by (fastforce simp: groups_ok_def sorted_wrt_iff_nth_less covers_bounds)+
  then show "h = g" using xy by simp
qed

text \<open>The outputs follow a group from its first element on, when the flag marks exactly that one.\<close>

lemma outs_group:
  assumes ok: "groups_ok e gs" and flags: "flags_right gs 0 (map snd xs)"
    and dat: "\<And>k. k < length xs \<Longrightarrow> fst (xs ! k) = element w gs k"
    and first: "\<And>r. g d True r = E 0" and rest: "\<And>j. g d False (E j) = E (Suc j)"
    and a: "(s, l, d) \<in> set gs"
  shows "k < length xs \<Longrightarrow> covers k (s, l, d) \<Longrightarrow> outs g r xs ! k = E (k - s)"
proof (induction k)
  case (Suc k)
  have d: "fst (xs ! Suc k) = d"
    using dat [OF Suc.prems(1)] find_covering [OF ok a Suc.prems(2)] by (simp add: element_def)
  have f: "snd (xs ! Suc k) \<longleftrightarrow> s = Suc k"
    using flags a Suc.prems by (force simp: flags_right_def)
  show ?case
  proof (cases "s = Suc k")
    case True
    then show ?thesis using outs_nth [OF Suc.prems(1), of g r] d f first by simp
  next
    case False
    then have c: "covers k (s, l, d)" "s \<le> k" using Suc.prems(2) by (auto simp: covers_def)
    then show ?thesis
      using outs_nth [OF Suc.prems(1), of g r] d f False Suc.IH [OF _ c(1)] Suc.prems(1) rest [of "k - s"]
      by (simp add: Suc_diff_le)
  qed
next
  case 0
  have "fst (xs ! 0) = d"
    using dat [OF 0(1)] find_covering [OF ok a 0(2)] by (simp add: element_def)
  moreover have "snd (xs ! 0) \<longleftrightarrow> s = 0" using flags a 0 by (force simp: flags_right_def)
  moreover have "s = 0" using 0(2) by (simp add: covers_def)
  ultimately show ?case using outs_nth [OF 0(1), of g r] first by simp
qed

text \<open>The push whose copy is issued at the \<open>k\<close>-th pop, and that copy.\<close>

definition issued :: "instr_type \<Rightarrow> (nat \<times> iq_in) list \<Rightarrow> nat \<Rightarrow> (nat \<times> iq_in) option" where
  "issued t ps k = find (\<lambda>a. in_instr_type (snd a) = t \<and> fst a \<le> k \<and> k < fst a + copies (snd a)) ps"

definition cache_copy :: "iq_in \<Rightarrow> nat \<Rightarrow> regfile_instruction" where
  "cache_copy i j =
     \<lparr>reg_valid = True, reg_is_load = in_ld_st_instr i ! 0, reg_cache_slot = slice 1 2 (in_ld_st_instr i),
      reg_cache_addr = cache_addr i + of_nat j * d_cache_addr i, reg_superscalar_thread = of_nat j,
      reg_regfile_reg = slice 3 4 (in_ld_st_instr i)\<rparr>"

definition dma_copy :: "iq_in \<Rightarrow> nat \<Rightarrow> dma_instruction" where
  "dma_copy i j =
     \<lparr>dma_valid = True, dma_mem_we = in_ram_instr i ! 0, dma_main_mem_addr = main_mem_addr i + of_nat j * d_main_mem_addr i,
      dma_cache_slot = slice 1 2 (in_ram_instr i), dma_cache_addr = cache_addr i + of_nat j * d_cache_addr i\<rparr>"

definition math_copy :: "iq_in \<Rightarrow> nat \<Rightarrow> math_instr" where
  "math_copy i j =
     \<lparr>math_valid = True, math_category = slice 0 2 (in_arith_instr i), math_options = slice 3 8 (in_arith_instr i),
      math_superscalar_thread = of_nat j\<rparr>"

definition widths :: "iq_in \<Rightarrow> bool" where
  "widths i \<longleftrightarrow> length (in_ld_st_instr i) = 7 \<and> length (in_ram_instr i) = 3 \<and> length (in_arith_instr i) = 9"

lemma field_uint_bits: "part a w d = uint_bits w (uint (x :: 'a::len word)) \<Longrightarrow> w = LENGTH('a) \<Longrightarrow> field a w d = x"
  by (simp add: field_def bits_uint_small)

lemma cache_fields:
  assumes "widths i"
  defines "d \<equiv> varray_element INSTR_TYPE_LOAD_STORE i"
  shows "field 8 11 d = cache_addr i" "field 19 11 d = d_cache_addr i"
    "d ! 0" "d ! 1 = in_ld_st_instr i ! 0" "slice 2 3 d = slice 1 2 (in_ld_st_instr i)"
    "slice 4 5 d = slice 3 4 (in_ld_st_instr i)"
  using assms(1)
  by (auto simp: d_def widths_def part_def slice_def nth_append take_Cons' drop_Cons' intro!: field_uint_bits)

lemma dma_fields:
  assumes "widths i"
  defines "d \<equiv> varray_element INSTR_TYPE_RAM i"
  shows "field 2 7 d = main_mem_addr i" "field 9 7 d = d_main_mem_addr i"
    "field 16 11 d = cache_addr i" "field 27 11 d = d_cache_addr i"
    "d ! 0" "d ! 1 = in_ram_instr i ! 0" "slice 38 39 d = slice 1 2 (in_ram_instr i)"
  using assms(1)
  by (auto simp: d_def widths_def part_def slice_def nth_append take_Cons' drop_Cons' intro!: field_uint_bits)

lemma math_fields:
  assumes "widths i"
  defines "d \<equiv> varray_element INSTR_TYPE_ARITHMETIC i"
  shows "d ! 0" "slice 1 3 d = slice 0 2 (in_arith_instr i)" "slice 4 9 d = slice 3 8 (in_arith_instr i)"
  using assms(1)
  by (auto simp: d_def widths_def slice_def take_Cons' drop_Cons')

lemma cache_out_copy:
  assumes "widths i"
  defines "d \<equiv> varray_element INSTR_TYPE_LOAD_STORE i"
  shows "cache_out d True r = cache_copy i 0" "cache_out d False (cache_copy i j) = cache_copy i (Suc j)"
  using cache_fields [OF assms(1)] by (simp_all add: cache_out_def cache_copy_def d_def algebra_simps)

lemma dma_out_copy:
  assumes "widths i"
  defines "d \<equiv> varray_element INSTR_TYPE_RAM i"
  shows "dma_out d True r = dma_copy i 0" "dma_out d False (dma_copy i j) = dma_copy i (Suc j)"
  using dma_fields [OF assms(1)] by (simp_all add: dma_out_def dma_copy_def d_def algebra_simps)

lemma math_out_copy:
  assumes "widths i"
  defines "d \<equiv> varray_element INSTR_TYPE_ARITHMETIC i"
  shows "math_out d True r = math_copy i 0" "math_out d False (math_copy i j) = math_copy i (Suc j)"
  using math_fields [OF assms(1)] by (simp_all add: math_out_def math_copy_def d_def algebra_simps)

text \<open>The four rings neither overflow nor get stuck, and no group of addressed instructions is late.\<close>

definition rings_used :: "iq_in \<Rightarrow> iq \<Rightarrow> bool" where
  "rings_used i s \<longleftrightarrow>
     list_all (\<lambda>t. ring_ok (varr_in t i s) (varr t s) \<and> (t = INSTR_TYPE_PROG_END \<or> on_time (varr_in t i s) (varr t s)))
       [INSTR_TYPE_LOAD_STORE, INSTR_TYPE_RAM, INSTR_TYPE_ARITHMETIC, INSTR_TYPE_PROG_END]"

lemma always_mono: "always step ok is s \<Longrightarrow> (\<And>i s. ok i s \<Longrightarrow> ok' i s) \<Longrightarrow> always step ok' is s"
  by (induction "is" arbitrary: s) auto

lemma rings_always:
  assumes "always iq_clk rings_used is s"
  shows "always varray_clk ring_ok (varr_ins t is s) (varr t s)"
    and "t \<noteq> INSTR_TYPE_PROG_END \<Longrightarrow>
      always varray_clk (\<lambda>i s. ring_ok i s \<and> on_time i s) (varr_ins t is s) (varr t s)"
proof -
  have "always iq_clk (\<lambda>i s. ring_ok (varr_in t i s) (varr t s)) is s"
    by (rule always_mono [OF assms]) (cases t; simp add: rings_used_def)
  then show "always varray_clk ring_ok (varr_ins t is s) (varr t s)" by (simp only: varr_always)
  assume "t \<noteq> INSTR_TYPE_PROG_END"
  then have "always iq_clk (\<lambda>i s. ring_ok (varr_in t i s) (varr t s) \<and> on_time (varr_in t i s) (varr t s)) is s"
    by (intro always_mono [OF assms]) (cases t; simp add: rings_used_def)
  then show "always varray_clk (\<lambda>i s. ring_ok i s \<and> on_time i s) (varr_ins t is s) (varr t s)"
    using varr_always [of "\<lambda>i s. ring_ok i s \<and> on_time i s" t "is" s] by simp
qed

lemma pushes_widths:
  "always iq_clk iq_used is s \<Longrightarrow> a \<in> set (trace iq_clk iq_pushes is s) \<Longrightarrow> widths (snd a)"
  by (induction "is" arbitrary: s) (auto simp: iq_pushes_def iq_used_def widths_def split: if_splits)

lemma issued_Some:
  "issued t ps k = Some a \<Longrightarrow> a \<in> set (of_type t ps) \<and> covers k (push_group a)"
  by (auto simp: issued_def find_Some_iff of_type_def covers_def push_group_def)

lemma issued_None: "issued t ps k = None \<longleftrightarrow> find (covers k) (map push_group (of_type t ps)) = None"
  by (auto simp: issued_def find_None_iff of_type_def covers_def push_group_def)

lemma pops_spec:
  assumes start: "iq_start s" and used: "always iq_clk iq_used is s" and rings: "always iq_clk rings_used is s"
  defines "ps \<equiv> trace iq_clk iq_pushes is s" and "n \<equiv> length (filter q_re is)"
  shows "trace varray_clk (reads w) (varr_ins t is s) (varr t s)
      = map (element w (map push_group (of_type t ps))) [0..<n]"
    and "\<exists>e. groups_ok e (map push_group (of_type t ps))"
    and "t \<noteq> INSTR_TYPE_PROG_END \<Longrightarrow>
      flags_right (map push_group (of_type t ps)) 0 (map snd (trace varray_clk (flagged w) (varr_ins t is s) (varr t s)))"
proof -
  note gs = groups_of_type [of t "is" s, folded ps_def]
  have v: "varray_start (varr t s)" "varr_len s t = 0" using iq_start_varr [OF start] by simp_all
  have "varray_read_pos s = 0" using start by (simp add: iq_start_def)
  then have order: "used_in_order 0 0 (varr_ins t is s)"
    using varr_used_in_order [OF iq_start_inv [OF start] used, of t] v(2) by simp
  note ring = conjunct1 [OF varray_start_ring [OF v(1)]] conjunct2 [OF varray_start_ring [OF v(1)]]
  show "trace varray_clk (reads w) (varr_ins t is s) (varr t s)
      = map (element w (map push_group (of_type t ps))) [0..<n]"
    using reads_elements [OF ring order rings_always(1) [OF rings], of w]
    by (simp add: gs n_def reads_of_varr)
  have "always iq_clk (\<lambda>i s. ring_ok (varr_in t i s) (varr t s)) is s"
    using rings_always(1) [OF rings] by (simp only: varr_always)
  then show "\<exists>e. groups_ok e (map push_group (of_type t ps))"
    using rings_run [OF iq_start_inv [OF start], of "[]" 0 t "is"] ring used v(2) start by (auto simp: gs iq_start_def)
  have "flag_ok [] 0 (varr t s)" by (simp add: flag_ok_def)
  then show "flags_right (map push_group (of_type t ps)) 0 (map snd (trace varray_clk (flagged w) (varr_ins t is s) (varr t s)))"
    if "t \<noteq> INSTR_TYPE_PROG_END"
    using flags_reads [OF ring order _ rings_always(2) [OF rings that]] by (simp add: gs)
qed

lemma copies_out:
  assumes start: "iq_start s" and used: "always iq_clk iq_used is s" and rings: "always iq_clk rings_used is s"
    and t: "t \<noteq> INSTR_TYPE_PROG_END"
    and first: "\<And>i r. widths i \<Longrightarrow> in_instr_type i = t \<Longrightarrow> g (varray_element t i) True r = copy i 0"
    and rest: "\<And>i j. widths i \<Longrightarrow> in_instr_type i = t \<Longrightarrow> g (varray_element t i) False (copy i j) = copy i (Suc j)"
    and valid: "\<And>i j. valid (copy i j)" and none: "\<And>f r. \<not> valid (g (replicate w False) f r)"
  defines "ps \<equiv> trace iq_clk iq_pushes is s"
  shows "map (\<lambda>r. if valid r then Some r else None) (outs g r (trace varray_clk (flagged w) (varr_ins t is s) (varr t s)))
     = map (\<lambda>k. map_option (\<lambda>a. copy (snd a) (k - fst a)) (issued t ps k)) [0..<length (filter q_re is)]"
proof -
  let ?gs = "map push_group (of_type t ps)" and ?xs = "trace varray_clk (flagged w) (varr_ins t is s) (varr t s)"
  note spec = pops_spec(1) [OF start used rings, of w t, folded ps_def]
    pops_spec(2) [OF start used rings, of t, folded ps_def] pops_spec(3) [OF start used rings t, of w, folded ps_def]
  obtain e where ok: "groups_ok e ?gs" using spec(2) by blast
  have fst_xs: "map fst ?xs = map (element w ?gs) [0..<length (filter q_re is)]"
    using spec(1) by (simp add: flagged_fst)
  then have len: "length ?xs = length (filter q_re is)" by (metis length_map length_upt diff_zero)
  have dat: "fst (?xs ! k) = element w ?gs k" if "k < length ?xs" for k
    using arg_cong [OF fst_xs, of "\<lambda>xs. xs ! k"] that len by simp
  show ?thesis
  proof (rule nth_equalityI)
    fix k assume "k < length (map (\<lambda>r. if valid r then Some r else None) (outs g r ?xs))"
    then have k: "k < length ?xs" by simp
    have "(if valid (outs g r ?xs ! k) then Some (outs g r ?xs ! k) else None)
        = map_option (\<lambda>a. copy (snd a) (k - fst a)) (issued t ps k)"
    proof (cases "issued t ps k")
      case None
      then have "fst (?xs ! k) = replicate w False"
        using dat [OF k] by (simp add: issued_None element_def)
      then have "\<not> valid (outs g r ?xs ! k)" using outs_nth [OF k, of g r] none by simp
      then show ?thesis using None by simp
    next
      case (Some a)
      obtain q i where a: "a = (q, i)" by (cases a)
      have at: "a \<in> set (of_type t ps)" "covers k (push_group a)" using issued_Some [OF Some] by simp_all
      then have i: "in_instr_type i = t" "widths i"
        using pushes_widths [OF used, of a] by (simp_all add: of_type_def ps_def a)
      have "(q, copies i, varray_element t i) \<in> set ?gs" using at(1) i(1) by (force simp: a push_group_def)
      then have "outs g r ?xs ! k = copy i (k - q)"
        using outs_group [where g = g and d = "varray_element t i" and E = "copy i" and s = q and l = "copies i" and k = k and r = r,
            OF ok spec(3) dat]
          first [OF i(2,1)] rest [OF i(2,1)] k at(2) i(1) by (simp add: a push_group_def)
      then show ?thesis using Some valid by (simp add: a)
    qed
    then show "map (\<lambda>r. if valid r then Some r else None) (outs g r ?xs) ! k
        = map (\<lambda>k. map_option (\<lambda>a. copy (snd a) (k - fst a)) (issued t ps k)) [0..<length (filter q_re is)] ! k"
      using k len by simp
  qed (simp add: len)
qed

text \<open>What each pipeline sees: the outputs after every pop.\<close>

definition cache_outs :: "iq_in \<Rightarrow> iq \<Rightarrow> regfile_instruction list" where
  "cache_outs i s = (if q_re i then [out_cache_instr (iq_clk i s)] else [])"

definition dma_outs :: "iq_in \<Rightarrow> iq \<Rightarrow> dma_instruction list" where
  "dma_outs i s = (if q_re i then [out_dma_instr (iq_clk i s)] else [])"

definition math_outs :: "iq_in \<Rightarrow> iq \<Rightarrow> math_instr list" where
  "math_outs i s = (if q_re i then [out_math_instr (iq_clk i s)] else [])"

definition prog_end_outs :: "iq_in \<Rightarrow> iq \<Rightarrow> bool list" where
  "prog_end_outs i s = (if q_re i then [out_prog_end_valid (iq_clk i s)] else [])"

lemma outs_valid:
  "outs cache_out (r\<lparr>reg_valid := b\<rparr>) xs = outs cache_out r xs"
  "outs dma_out (r'\<lparr>dma_valid := b\<rparr>) xs = outs dma_out r' xs"
  "outs math_out (r''\<lparr>math_valid := b\<rparr>) xs = outs math_out r'' xs"
  by (cases xs; simp add: cache_out_def dma_out_def math_out_def)+

lemma flagged_varr:
  "flagged (element_width t) (varr_in t i s) (varr t s)
     = (if q_re i then [(varr_dat_r t s, is_new_superscalar_group (varr t s))] else [])"
  by (simp add: flagged_def varr_dat_r_def varr_in_def)

lemma outs_trace:
  "(trace iq_clk cache_outs is s = outs cache_out (out_cache_instr s)
     (trace varray_clk (flagged 30) (varr_ins INSTR_TYPE_LOAD_STORE is s) (varr INSTR_TYPE_LOAD_STORE s)))
   \<and> (trace iq_clk dma_outs is s = outs dma_out (out_dma_instr s)
     (trace varray_clk (flagged 40) (varr_ins INSTR_TYPE_RAM is s) (varr INSTR_TYPE_RAM s)))
   \<and> (trace iq_clk math_outs is s = outs math_out (out_math_instr s)
     (trace varray_clk (flagged 10) (varr_ins INSTR_TYPE_ARITHMETIC is s) (varr INSTR_TYPE_ARITHMETIC s)))"
proof (induction "is" arbitrary: s)
  case (Cons i "is")
  note f = flagged_varr [of INSTR_TYPE_LOAD_STORE i s] flagged_varr [of INSTR_TYPE_RAM i s]
    flagged_varr [of INSTR_TYPE_ARITHMETIC i s]
  have out: "q_re i \<Longrightarrow> out_cache_instr (iq_clk i s)
        = cache_out (varr_dat_r INSTR_TYPE_LOAD_STORE s) (is_new_superscalar_group (varr INSTR_TYPE_LOAD_STORE s)) (out_cache_instr s)"
    "q_re i \<Longrightarrow> out_dma_instr (iq_clk i s)
        = dma_out (varr_dat_r INSTR_TYPE_RAM s) (is_new_superscalar_group (varr INSTR_TYPE_RAM s)) (out_dma_instr s)"
    "q_re i \<Longrightarrow> out_math_instr (iq_clk i s)
        = math_out (varr_dat_r INSTR_TYPE_ARITHMETIC s) (is_new_superscalar_group (varr INSTR_TYPE_ARITHMETIC s)) (out_math_instr s)"
    "\<not> q_re i \<Longrightarrow> \<exists>b. out_cache_instr (iq_clk i s) = (out_cache_instr s)\<lparr>reg_valid := b\<rparr>"
    "\<not> q_re i \<Longrightarrow> \<exists>b. out_dma_instr (iq_clk i s) = (out_dma_instr s)\<lparr>dma_valid := b\<rparr>"
    "\<not> q_re i \<Longrightarrow> \<exists>b. out_math_instr (iq_clk i s) = (out_math_instr s)\<lparr>math_valid := b\<rparr>"
    by (auto simp: iq_clk_def Let_def)
  have "trace iq_clk cache_outs (i # is) s = outs cache_out (out_cache_instr s)
     (trace varray_clk (flagged 30) (varr_ins INSTR_TYPE_LOAD_STORE (i # is) s) (varr INSTR_TYPE_LOAD_STORE s))"
    using f(1) out(1,4) Cons.IH [of "iq_clk i s"]
    by (cases "q_re i") (auto simp: cache_outs_def [of i s] varr_clk outs_valid simp del: varr.simps)
  moreover have "trace iq_clk dma_outs (i # is) s = outs dma_out (out_dma_instr s)
     (trace varray_clk (flagged 40) (varr_ins INSTR_TYPE_RAM (i # is) s) (varr INSTR_TYPE_RAM s))"
    using f(2) out(2,5) Cons.IH [of "iq_clk i s"]
    by (cases "q_re i") (auto simp: dma_outs_def [of i s] varr_clk outs_valid simp del: varr.simps)
  moreover have "trace iq_clk math_outs (i # is) s = outs math_out (out_math_instr s)
     (trace varray_clk (flagged 10) (varr_ins INSTR_TYPE_ARITHMETIC (i # is) s) (varr INSTR_TYPE_ARITHMETIC s))"
    using f(3) out(3,6) Cons.IH [of "iq_clk i s"]
    by (cases "q_re i") (auto simp: math_outs_def [of i s] varr_clk outs_valid simp del: varr.simps)
  ultimately show ?case by (intro conjI)
qed simp

lemma prog_end_trace:
  "trace iq_clk prog_end_outs is s
     = map (\<lambda>d. d ! 0) (trace varray_clk (reads 1) (varr_ins INSTR_TYPE_PROG_END is s) (varr INSTR_TYPE_PROG_END s))"
proof (induction "is" arbitrary: s)
  case (Cons i "is")
  have "prog_end_outs i s = map (\<lambda>d. d ! 0) (reads 1 (varr_in INSTR_TYPE_PROG_END i s) (varr INSTR_TYPE_PROG_END s))"
    by (simp add: prog_end_outs_def reads_def iq_clk_def Let_def varr_dat_r_def varr_in_def)
  then show ?case using Cons by (simp add: varr_clk del: varr.simps)
qed simp

lemma prog_end_elements:
  assumes "iq_start s" and "always iq_clk iq_used is s" and "always iq_clk rings_used is s"
  shows "trace iq_clk prog_end_outs is s
     = map (\<lambda>k. issued INSTR_TYPE_PROG_END (trace iq_clk iq_pushes is s) k \<noteq> None) [0..<length (filter q_re is)]"
proof -
  let ?ps = "of_type INSTR_TYPE_PROG_END (trace iq_clk iq_pushes is s)"
  obtain e where ok: "groups_ok e (map push_group ?ps)" using pops_spec(2) [OF assms] by blast
  have "element 1 (map push_group ?ps) k ! 0 \<longleftrightarrow> issued INSTR_TYPE_PROG_END (trace iq_clk iq_pushes is s) k \<noteq> None" for k
  proof (cases "issued INSTR_TYPE_PROG_END (trace iq_clk iq_pushes is s) k")
    case None
    then show ?thesis by (simp add: issued_None element_def)
  next
    case (Some a)
    then have a: "a \<in> set ?ps" "covers k (push_group a)" using issued_Some by blast+
    then have "find (covers k) (map push_group ?ps) = Some (push_group a)"
      by (intro find_covering [OF ok]) auto
    then show ?thesis using Some a(1) by (simp add: element_def push_group_def of_type_def)
  qed
  then show ?thesis
    unfolding prog_end_trace pops_spec(1) [OF assms] by simp
qed

lemma issued_copies:
  assumes "iq_start s" and "always iq_clk iq_used is s" and "always iq_clk rings_used is s"
    and "ps = trace iq_clk iq_pushes is s" and "n = length (filter q_re is)"
  shows "map (\<lambda>r. if reg_valid r then Some r else None) (trace iq_clk cache_outs is s)
       = map (\<lambda>k. map_option (\<lambda>a. cache_copy (snd a) (k - fst a)) (issued INSTR_TYPE_LOAD_STORE ps k)) [0..<n]
     \<and> map (\<lambda>r. if dma_valid r then Some r else None) (trace iq_clk dma_outs is s)
       = map (\<lambda>k. map_option (\<lambda>a. dma_copy (snd a) (k - fst a)) (issued INSTR_TYPE_RAM ps k)) [0..<n]
     \<and> map (\<lambda>r. if math_valid r then Some r else None) (trace iq_clk math_outs is s)
       = map (\<lambda>k. map_option (\<lambda>a. math_copy (snd a) (k - fst a)) (issued INSTR_TYPE_ARITHMETIC ps k)) [0..<n]
     \<and> trace iq_clk prog_end_outs is s = map (\<lambda>k. issued INSTR_TYPE_PROG_END ps k \<noteq> None) [0..<n]"
proof -
  note out = outs_trace [of "is" s]
  note copies = copies_out [OF assms(1-3)]
  have "map (\<lambda>r. if reg_valid r then Some r else None) (trace iq_clk cache_outs is s)
      = map (\<lambda>k. map_option (\<lambda>a. cache_copy (snd a) (k - fst a)) (issued INSTR_TYPE_LOAD_STORE ps k)) [0..<n]"
    unfolding conjunct1 [OF out] assms(4,5)
    by (rule copies) (simp_all add: cache_out_copy del: varray_element.simps, simp_all add: cache_copy_def cache_out_def)
  moreover have "map (\<lambda>r. if dma_valid r then Some r else None) (trace iq_clk dma_outs is s)
      = map (\<lambda>k. map_option (\<lambda>a. dma_copy (snd a) (k - fst a)) (issued INSTR_TYPE_RAM ps k)) [0..<n]"
    unfolding conjunct1 [OF conjunct2 [OF out]] assms(4,5)
    by (rule copies) (simp_all add: dma_out_copy del: varray_element.simps, simp_all add: dma_copy_def dma_out_def)
  moreover have "map (\<lambda>r. if math_valid r then Some r else None) (trace iq_clk math_outs is s)
      = map (\<lambda>k. map_option (\<lambda>a. math_copy (snd a) (k - fst a)) (issued INSTR_TYPE_ARITHMETIC ps k)) [0..<n]"
    unfolding conjunct2 [OF conjunct2 [OF out]] assms(4,5)
    by (rule copies) (simp_all add: math_out_copy del: varray_element.simps, simp_all add: math_copy_def math_out_def)
  ultimately show ?thesis
    using prog_end_elements [OF assms(1-3)] by (simp only: assms(4,5) simp_thms)
qed

text \<open>C6. The pipelines get the program: when the queue is used as the device uses it, its rings neither
  overflow nor get stuck and no group comes late, the \<open>k\<close>-th pop hands each pipeline the copy of
  the push that covers place \<open>k\<close>, its addresses counted up by the strides of the push, and
  nothing valid where no push of the type does, and announces the program's end at its place.\<close>

theorem queue_issues:
  assumes "iq_start s" and "always iq_clk iq_used is s" and "always iq_clk rings_used is s"
    and "ps = trace iq_clk iq_pushes is s" and "n = length (filter q_re is)"
  shows "map (\<lambda>r. if reg_valid r then Some r else None) (trace iq_clk cache_outs is s)
       = map (\<lambda>k. map_option (\<lambda>a. cache_copy (snd a) (k - fst a)) (issued INSTR_TYPE_LOAD_STORE ps k)) [0..<n]
     \<and> map (\<lambda>r. if dma_valid r then Some r else None) (trace iq_clk dma_outs is s)
       = map (\<lambda>k. map_option (\<lambda>a. dma_copy (snd a) (k - fst a)) (issued INSTR_TYPE_RAM ps k)) [0..<n]
     \<and> map (\<lambda>r. if math_valid r then Some r else None) (trace iq_clk math_outs is s)
       = map (\<lambda>k. map_option (\<lambda>a. math_copy (snd a) (k - fst a)) (issued INSTR_TYPE_ARITHMETIC ps k)) [0..<n]
     \<and> trace iq_clk prog_end_outs is s = map (\<lambda>k. issued INSTR_TYPE_PROG_END ps k \<noteq> None) [0..<n]"
  by (rule issued_copies [OF assms])

section \<open>A small run\<close>

definition empty_iq :: iq where
  "empty_iq = iq_reset
     \<lparr>prev_instr_type = INSTR_TYPE_LOAD_STORE, next_free_spot_in_varray = [], varray_pos_when_done = [],
      varray_read_pos = 0, cache_varray = empty_varray, dma_varray = empty_varray, math_varray = empty_varray,
      prog_complete_varray = empty_varray,
      out_cache_instr = \<lparr>reg_valid = False, reg_is_load = False, reg_cache_slot = [], reg_cache_addr = 0,
        reg_superscalar_thread = 0, reg_regfile_reg = []\<rparr>,
      out_dma_instr = \<lparr>dma_valid = False, dma_mem_we = False, dma_main_mem_addr = 0, dma_cache_slot = [], dma_cache_addr = 0\<rparr>,
      out_math_instr = \<lparr>math_valid = False, math_category = [], math_options = [], math_superscalar_thread = 0\<rparr>,
      out_prog_end_valid = False, empty = True\<rparr>"

definition pop_only :: iq_in where
  "pop_only =
     \<lparr>q_re = True, q_we = False, in_instr_type = INSTR_TYPE_RAM, copy_count = 0, cache_addr = 0, d_cache_addr = 0,
      main_mem_addr = 0, d_main_mem_addr = 0, in_arith_instr = [], in_ram_instr = [], in_ld_st_instr = []\<rparr>"

text \<open>A push of two copies, with or without a pop.\<close>

definition push_two :: "bool \<Rightarrow> instr_type \<Rightarrow> iq_in" where
  "push_two r t =
     \<lparr>q_re = r, q_we = True, in_instr_type = t, copy_count = 2, cache_addr = 40, d_cache_addr = 3,
      main_mem_addr = 20, d_main_mem_addr = 5, in_arith_instr = replicate 9 True,
      in_ram_instr = replicate 3 False, in_ld_st_instr = replicate 7 True\<rparr>"

lemma empty_iq_start: "iq_start empty_iq"
  by (simp add: iq_start_def empty_iq_def iq_reset_def varray_start_def varray_reset_def empty_varray_def varr_len_def)

definition small_run :: "iq_in list" where
  "small_run = push_two False INSTR_TYPE_RAM # replicate 2 pop_only @ push_two True INSTR_TYPE_LOAD_STORE # replicate 5 pop_only"

lemma small_run_used: "always iq_clk iq_used small_run empty_iq"
  by code_simp

lemma small_run_rings: "always iq_clk rings_used small_run empty_iq"
  by code_simp

theorem pushes_apart_witness: "sorted_wrt apart (trace iq_clk iq_pushes small_run empty_iq)"
  by (rule pushes_apart [OF empty_iq_start small_run_used])

theorem queue_issues_witness:
  "map (\<lambda>r. if dma_valid r then Some r else None) (trace iq_clk dma_outs small_run empty_iq)
     = [None,
        Some \<lparr>dma_valid = True, dma_mem_we = False, dma_main_mem_addr = 20, dma_cache_slot = [False, False], dma_cache_addr = 40\<rparr>,
        Some \<lparr>dma_valid = True, dma_mem_we = False, dma_main_mem_addr = 25, dma_cache_slot = [False, False], dma_cache_addr = 43\<rparr>]
       @ replicate 5 None"
proof -
  let ?ps = "trace iq_clk iq_pushes small_run empty_iq"
  have "map (\<lambda>k. map_option (\<lambda>a. dma_copy (snd a) (k - fst a)) (issued INSTR_TYPE_RAM ?ps k))
      [0..<length (filter q_re small_run)]
    = [None,
        Some \<lparr>dma_valid = True, dma_mem_we = False, dma_main_mem_addr = 20, dma_cache_slot = [False, False], dma_cache_addr = 40\<rparr>,
        Some \<lparr>dma_valid = True, dma_mem_we = False, dma_main_mem_addr = 25, dma_cache_slot = [False, False], dma_cache_addr = 43\<rparr>]
       @ replicate 5 None"
    by code_simp
  then show ?thesis
    using queue_issues [OF empty_iq_start small_run_used small_run_rings refl refl] by simp
qed

section \<open>A late group\<close>

lemma late_push:
  assumes "iq_start s" and "always iq_clk iq_used is s" and "always iq_clk rings_used is s"
    and "t = run iq_clk is s" and "head (cache_varray t) = tail (cache_varray t)" and "iq_used i t"
    and "q_re i" and "q_we i" and "in_instr_type i = INSTR_TYPE_LOAD_STORE"
    and "insert_varray_pos i t = varray_read_pos t + 1"
  shows "\<not> is_new_superscalar_group (cache_varray (iq_clk i t))"
    and "varr_dat_r INSTR_TYPE_LOAD_STORE (iq_clk i t) = varray_element INSTR_TYPE_LOAD_STORE i"
proof -
  let ?LS = INSTR_TYPE_LOAD_STORE and ?u = "iq_clk i t"
  let ?i = "varr_in ?LS i t"
  note used = assms(2,6)
  have inv: "iq_inv (trace iq_clk iq_pushes is s) t"
    using iq_inv_run [OF iq_start_inv [OF assms(1)] used(1)] by (simp add: assms(4))
  have rings: "always iq_clk (\<lambda>i s. ring_ok (varr_in ?LS i s) (varr ?LS s)) is s"
    using rings_always(1) [OF assms(3), of ?LS] varr_always [of ring_ok ?LS "is" s] by simp
  have "varray_start (varr ?LS s)" "varr_len s ?LS = 0" "varray_read_pos s = 0"
    using iq_start_varr [OF assms(1), of ?LS] assms(1) by (simp_all add: iq_start_def del: varr.simps)
  then obtain gs m where ring: "ring gs m (unat (varray_read_pos t)) (varr ?LS t)"
    and ok: "groups_ok (unat (varr_len t ?LS)) gs"
    using rings_run [OF iq_start_inv [OF assms(1)], of "[]" 0 ?LS "is"] varray_start_ring used(1) rings
    by (auto simp: assms(4) simp del: varr.simps)
  let ?p = "unat (varray_read_pos t)"
  have m: "m = length gs" using ring_words(3) [OF ring] assms(5) by simp
  have last: "\<not> last_of_group ?i (varr ?LS t)"
    using last_of_group_ring [OF ring, of ?i] m by (simp add: varr_in_def)
  have ring_i: "ring_ok ?i (varr ?LS t)" using last assms(5) by (simp add: ring_ok_def)
  note order = pushed_in_order [OF inv used(2), of ?LS]
  note step = ring_clk [OF ring ok order ring_i]
  have "unat (pos_start (varr ?LS t)) \<le> ?p" using ring_group(2) [OF ring m] by simp
  then show flag: "\<not> is_new_superscalar_group (cache_varray ?u)"
    using last assms(7) varr_clk [of ?LS i t]
    by (simp add: varray_clk_def varr_in_def word_less_nat_alt)
  have read: "unat (varray_read_pos ?u) = ?p + 1"
    using read_pos_clk [OF used(2), of ?LS] assms(7) by (simp add: pos_after_def varr_in_def)
  have pos: "unat (insert_varray_pos i t) = ?p + 1"
    using read assms(7,10) by (simp add: iq_clk_def Let_def)
  have w: "written ?i = [(?p + 1, unat (copy_count i), varray_element ?LS i)]"
    using assms(8,9) pos by (simp add: written_def varr_in_def)
  have "find (covers (?p + 1)) (gs @ written ?i) = Some (?p + 1, unat (copy_count i), varray_element ?LS i)"
  proof (rule find_covering [OF step(1)])
    have "0 < unat (copy_count i)" using used(2) assms(8) by (simp add: iq_used_def word_less_nat_alt)
    then show "covers (?p + 1) (?p + 1, unat (copy_count i), varray_element ?LS i)" by (simp add: covers_def)
  qed (simp add: w)
  then show "varr_dat_r ?LS ?u = varray_element ?LS i"
    using dat_r_element [OF step(2,1), of "varray_read_pos ?u" 30] read assms(7)
    by (simp add: varr_dat_r_def varr_clk pos_after_def varr_in_def element_def del: varr.simps varray_element.simps)
qed

text \<open>C34. A group that comes late loses its address: when the ring of the load and store instructions is
  empty, a place is popped, and in the same clock a load or store is pushed to the very next
  place, then the next pop hands out its first copy as if it followed another one: the address is the one
  handed out before plus the stride, whatever address was pushed.\<close>

theorem late_group_loses_address:
  assumes "iq_start s" and "always iq_clk iq_used (is @ [i, j]) s" and "always iq_clk rings_used is s"
    and "t = run iq_clk is s" and "head (cache_varray t) = tail (cache_varray t)"
    and "q_re i" and "q_we i" and "in_instr_type i = INSTR_TYPE_LOAD_STORE"
    and "insert_varray_pos i t = varray_read_pos t + 1" and "q_re j"
  shows "reg_valid (out_cache_instr (iq_clk j (iq_clk i t)))
     \<and> reg_cache_addr (out_cache_instr (iq_clk j (iq_clk i t)))
         = reg_cache_addr (out_cache_instr (iq_clk i t)) + d_cache_addr i"
proof -
  have used: "always iq_clk iq_used is s" "iq_used i t"
    using assms(2) unfolding assms(4) by (induction "is" arbitrary: s) simp_all
  note late = late_push [OF assms(1) used(1) assms(3-5) used(2) assms(6-9)]
  have "widths i" using used(2) assms(7) by (simp add: iq_used_def widths_def)
  then show ?thesis
    using late assms(10) cache_fields [of i]
    by (simp add: iq_clk_def [of j] Let_def cache_out_def del: varray_element.simps)
qed

text \<open>A ram instruction of sixteen copies keeps the queue busy, so that the load pushed six clocks later
  to address 40 is late.\<close>

definition late_run :: "iq_in list" where
  "late_run = (push_two False INSTR_TYPE_RAM)\<lparr>copy_count := 16\<rparr> # replicate 5 pop_only"

theorem late_group_loses_address_witness:
  "reg_valid (out_cache_instr (iq_clk pop_only (iq_clk (push_two True INSTR_TYPE_LOAD_STORE) (run iq_clk late_run empty_iq))))
   \<and> reg_cache_addr (out_cache_instr (iq_clk pop_only
         (iq_clk (push_two True INSTR_TYPE_LOAD_STORE) (run iq_clk late_run empty_iq)))) = 3"
proof -
  let ?t = "run iq_clk late_run empty_iq" and ?i = "push_two True INSTR_TYPE_LOAD_STORE"
  have used: "always iq_clk iq_used (late_run @ [?i, pop_only]) empty_iq" by code_simp
  have rings: "always iq_clk rings_used late_run empty_iq" by code_simp
  have late: "head (cache_varray ?t) = tail (cache_varray ?t) \<and> insert_varray_pos ?i ?t = varray_read_pos ?t + 1"
    by code_simp
  have "reg_cache_addr (out_cache_instr (iq_clk ?i ?t)) + d_cache_addr ?i = 3" by code_simp
  then show ?thesis
    using late_group_loses_address [OF empty_iq_start used rings refl conjunct1 [OF late] _ _ _ conjunct2 [OF late]]
    by (simp add: push_two_def pop_only_def)
qed

end
