(* ===== verification/Core.thy ===== *)
theory Core
  imports Device InstructionQueue
begin

text \<open>
  The control unit with the prefetch queue and the instruction queue behind it (core/top.sv): the
  queue's \<^verbatim>\<open>stall_push\<close> holds the control unit back, and the queue is popped whenever it is not
  empty and the pipelines are not frozen.
\<close>

record core =
  dev :: device
  queue :: iq

definition q_re_wire :: "bool \<Rightarrow> core \<Rightarrow> bool" where
  "q_re_wire freeze c \<longleftrightarrow> \<not> empty (queue c) \<and> \<not> freeze"

text \<open>The ports of the queue; addresses are cut to its eleven and seven bits.\<close>

definition queue_input :: "bool \<Rightarrow> core \<Rightarrow> iq_in" where
  "queue_input freeze c =
     (let u = control (dev c) in
      \<lparr>q_re = q_re_wire freeze c, q_we = queue_we u, in_instr_type = queue_instr_type u,
       copy_count = ucast (queue_copy_count u),
       iq_in.cache_addr = ucast (cu.cache_addr u), iq_in.d_cache_addr = ucast (cu.d_cache_addr u),
       iq_in.main_mem_addr = ucast (cu.main_mem_addr u), iq_in.d_main_mem_addr = ucast (cu.d_main_mem_addr u),
       in_arith_instr = queue_arith_instr u, in_ram_instr = queue_ram_instr u, in_ld_st_instr = queue_ld_st_instr u\<rparr>)"

text \<open>The inputs of a clock are \<^verbatim>\<open>freeze\<close> and the packet sender's read strobe.\<close>

definition core_clk :: "env \<Rightarrow> u18 \<Rightarrow> bool \<times> bool \<Rightarrow> core \<Rightarrow> core" where
  "core_clk E W i c =
     \<lparr>dev = device_clk E W (stall_push (queue c), snd i) (dev c),
      queue = iq_clk (queue_input (fst i) c) (queue c)\<rparr>"

section \<open>The rings never overflow\<close>

text \<open>The groups of a ring that are not finished.\<close>

definition ring_size :: "instr_type \<Rightarrow> core \<Rightarrow> nat" where
  "ring_size t c = unat (Varray.head (varr t (queue c)) - Varray.tail (varr t (queue c)))"

definition core_ok :: "core \<Rightarrow> bool" where
  "core_ok c \<longleftrightarrow> strobe_ok (control (dev c)) \<and> (queue_we (control (dev c)) \<longrightarrow> (\<forall>t. ring_size t c < 63))"

lemma push_not_stalled:
  assumes "queue_we (cu_clk E W stall u)" and "strobe_ok u"
  shows "\<not> stall \<and> \<not> queue_we u"
  using assms
  by (cases "S u") (auto simp: strobe_ok_def cu_clk_def cu_step_def cu_steps Let_def split: if_splits instr_type.splits)

lemma size_word: "(x :: 6 word) \<noteq> y \<Longrightarrow> unat (x - (y + 1)) < unat (x - y)"
proof -
  assume "x \<noteq> y"
  then have "x - y \<noteq> 0" by simp
  moreover have "x - (y + 1) = x - y - 1" by simp
  ultimately show ?thesis by (metis unat_minus_one unat_eq_0 diff_less zero_less_one unat_gt_0 less_le)
qed

lemma size_shrinks:
  assumes "\<not> we j"
  shows "unat (Varray.head (varray_clk j v) - Varray.tail (varray_clk j v)) \<le> unat (Varray.head v - Varray.tail v)"
  using assms size_word [of "Varray.head v" "Varray.tail v"] queue_size_0 [of v]
  by (auto simp: varray_clk_def)

lemma size_almost_full:
  assumes "\<not> queue_almost_full v"
  shows "unat (Varray.head v - Varray.tail v) < 63"
proof -
  have q: "unat (queue_size v) \<le> 61" using assms by (simp add: queue_almost_full_def word_less_nat_alt)
  show ?thesis
  proof (cases "Varray.tail v \<le> Varray.head v")
    case True
    then show ?thesis using q by (simp add: queue_size_def)
  next
    case False
    then have "Varray.head v - Varray.tail v = queue_size v + 1" by (simp add: queue_size_def)
    moreover have "unat (queue_size v + 1) = unat (queue_size v) + 1" using q by (simp add: unat_plus_if')
    ultimately show ?thesis using q by simp
  qed
qed

lemma core_ok_clk:
  assumes "core_ok c"
  shows "core_ok (core_clk E W i c)"
proof -
  let ?c = "core_clk E W i c" and ?u = "control (dev c)"
  have u: "control (dev ?c) = cu_clk E W (stall_push (queue c) \<or> fifo_full (prefetch (dev c))) ?u"
    by (simp add: core_clk_def device_clk_def device_stall_def)
  have strobe: "strobe_ok ?u" using assms by (simp add: core_ok_def)
  have "ring_size t ?c < 63" if we: "queue_we (control (dev ?c))" for t
  proof -
    have n: "\<not> stall_push (queue c)" "\<not> queue_we ?u"
      using push_not_stalled [OF we [unfolded u] strobe] by simp_all
    then have "\<not> queue_almost_full (varr t (queue c))" by (cases t) (simp_all add: stall_push_def)
    then have "ring_size t c < 63" unfolding ring_size_def by (rule size_almost_full)
    moreover have "ring_size t ?c \<le> ring_size t c"
      unfolding ring_size_def using n(2)
      by (simp add: core_clk_def varr_clk size_shrinks varr_in_def queue_input_def Let_def)
    ultimately show ?thesis by simp
  qed
  then show ?thesis using strobe_ok_clk [OF strobe] by (simp add: core_ok_def u)
qed

text \<open>C13. The stall works: whatever program runs and whenever the pipelines freeze and the sender reads,
  every push of the control unit finds fewer than 63 unfinished groups in each ring of the
  instruction queue, so that no group is overwritten before it is read.\<close>

theorem queue_never_overflows:
  assumes "device_start (dev c)"
  shows "always (core_clk E W)
     (\<lambda>i c. q_we (queue_input (fst i) c) \<longrightarrow> ring_size INSTR_TYPE_LOAD_STORE c < 63 \<and> ring_size INSTR_TYPE_RAM c < 63
        \<and> ring_size INSTR_TYPE_ARITHMETIC c < 63 \<and> ring_size INSTR_TYPE_PROG_END c < 63) is c"
proof -
  have "core_ok c" using assms by (simp add: core_ok_def strobe_ok_def device_start_def waiting_def)
  then show ?thesis
  proof (induction "is" arbitrary: c)
    case (Cons i "is")
    then show ?case using core_ok_clk [OF Cons.prems] by (simp add: core_ok_def queue_input_def Let_def)
  qed simp
qed

theorem queue_never_overflows_witness:
  "always (core_clk small_env 16)
     (\<lambda>i c. q_we (queue_input (fst i) c) \<longrightarrow> ring_size INSTR_TYPE_LOAD_STORE c < 63 \<and> ring_size INSTR_TYPE_RAM c < 63
        \<and> ring_size INSTR_TYPE_ARITHMETIC c < 63 \<and> ring_size INSTR_TYPE_PROG_END c < 63)
     (replicate 100 (False, False)) \<lparr>dev = idle_device, queue = empty_iq\<rparr>"
  by (rule queue_never_overflows) (simp add: idle_device_start)

end
