(* ===== verification/Schedule.thy ===== *)
theory Schedule
  imports InstructionQueue
begin

text \<open>
  Where the instruction queue puts the pushes of a program that stays ahead of the pops: the places
  follow from the pushes alone.  When the control unit is quick enough for that, and pushes fewer than 62
  instructions of each type, the hypotheses of the queue's theorems hold.
\<close>

section \<open>Places\<close>

text \<open>The queue's bookkeeping in natural numbers: when the last push's results are there, and for each
  type the next free place and the end of its array.\<close>

record book =
  ready :: nat
  free :: "nat list"
  ends :: "nat list"

definition new_book :: book where
  "new_book = \<lparr>ready = 0, free = replicate 4 0, ends = replicate 4 0\<rparr>"

abbreviation all_type_list :: "instr_type list" where
  "all_type_list \<equiv> [INSTR_TYPE_LOAD_STORE, INSTR_TYPE_RAM, INSTR_TYPE_ARITHMETIC, INSTR_TYPE_PROG_END]"

definition lat :: "instr_type \<Rightarrow> nat" where
  "lat t = unat (latency t)"

definition spot :: "instr_type \<Rightarrow> book \<Rightarrow> nat" where
  "spot t b =
     (if t = INSTR_TYPE_PROG_END then fold max (map (\<lambda>u. ends b ! type_num u + lat u) all_type_list) 0
      else max (ready b) (max (free b ! type_num t) 1))"

definition book_push :: "instr_type \<times> nat \<Rightarrow> book \<Rightarrow> book" where
  "book_push p b =
     (let t = fst p; c = (if t = INSTR_TYPE_PROG_END then 1 else snd p); s = spot t b in
      \<lparr>ready = s + lat t, free = (free b)[type_num t := s + 16], ends = (ends b)[type_num t := s + c]\<rparr>)"

fun places :: "(instr_type \<times> nat) list \<Rightarrow> book \<Rightarrow> nat list" where
  "places [] b = []"
| "places (p # ps) b = spot (fst p) b # places ps (book_push p b)"

definition book_of :: "(instr_type \<times> nat) list \<Rightarrow> book" where
  "book_of ps = fold book_push ps new_book"

lemma places_append: "places (ps @ qs) b = places ps b @ places qs (fold book_push ps b)"
  by (induction ps arbitrary: b) simp_all

lemma book_of_snoc: "book_of (ps @ [p]) = book_push p (book_of ps)"
  by (simp add: book_of_def)

lemma places_snoc: "places (ps @ [p]) new_book = places ps new_book @ [spot (fst p) (book_of ps)]"
  by (simp add: places_append book_of_def)

lemma length_places [simp]: "length (places ps b) = length ps"
  by (induction ps arbitrary: b) simp_all

text \<open>The queue agrees with the book.\<close>

definition agrees :: "book \<Rightarrow> iq \<Rightarrow> bool" where
  "agrees b s \<longleftrightarrow>
     length (free b) = 4 \<and> length (ends b) = 4
     \<and> unat (varray_pos_when_done s ! type_num (prev_instr_type s)) = ready b
     \<and> (\<forall>t. unat (next_free_spot_in_varray s ! type_num t) = free b ! type_num t \<and> unat (varr_len s t) = ends b ! type_num t
          \<and> varray_pos_when_done s ! type_num t \<le> next_free_spot_in_varray s ! type_num t)"

lemma agrees_start:
  assumes "iq_start s"
  shows "agrees new_book s"
proof -
  have "varr_len s t = 0" for t using iq_start_varr [OF assms] by simp
  moreover have "next_free_spot_in_varray s = replicate 4 0" "varray_pos_when_done s = replicate 4 0"
    using assms by (simp_all add: iq_start_def)
  ultimately show ?thesis by (simp add: agrees_def new_book_def)
qed

lemma unat_max3: "unat (max3 a b c) = max (unat a) (max (unat b) (unat c))"
  by (auto simp: max3_def word_less_nat_alt)

lemma unat_max4: "unat (max4 a b c d) = max (unat a) (max (unat b) (max (unat c) (unat d)))"
  by (auto simp: max4_def word_less_nat_alt)

lemma spot_agrees:
  assumes inv: "iq_inv ps s" and range: "in_range s" and agrees: "agrees b s"
    and ahead: "in_instr_type i \<noteq> INSTR_TYPE_PROG_END \<Longrightarrow> unat (varray_read_pos s) + 1 \<le> spot (in_instr_type i) b"
  shows "unat (insert_varray_pos i s) = spot (in_instr_type i) b"
proof (cases "in_instr_type i = INSTR_TYPE_PROG_END")
  case True
  have "unat (varr_len s t + latency t) = ends b ! type_num t + lat t" for t
  proof -
    have "varr_len s t < 65500" by (rule in_range_bounds(2) [OF range])
    then have "unat (varr_len s t + latency t) = unat (varr_len s t) + lat t"
      using latency_le(1) [of t] unfolding lat_def by (intro unat_add_small) (auto simp: word_le_nat_alt word_less_nat_alt)
    then show ?thesis using agrees by (simp add: agrees_def)
  qed
  from this [of INSTR_TYPE_LOAD_STORE] this [of INSTR_TYPE_RAM] this [of INSTR_TYPE_ARITHMETIC] this [of INSTR_TYPE_PROG_END]
  show ?thesis
    using True by (simp add: insert_varray_pos_def spot_def unat_max4 del: latency.simps type_num.simps)
next
  case False
  have "varray_read_pos s < 65500" by (rule in_range_bounds(1) [OF range])
  then have "unat (varray_read_pos s + 1) = unat (varray_read_pos s) + 1"
    using unat_add_small [of "varray_read_pos s" 1] by (simp add: word_le_nat_alt word_less_nat_alt)
  then show ?thesis
    using ahead [OF False] False agrees by (simp add: insert_varray_pos_def spot_def unat_max3 agrees_def)
qed

lemma agrees_clk:
  assumes inv: "iq_inv ps s" and i: "iq_used i s" and agrees: "agrees b s"
    and ahead: "q_we i \<Longrightarrow> in_instr_type i \<noteq> INSTR_TYPE_PROG_END \<Longrightarrow>
      unat (varray_read_pos s) + 1 \<le> spot (in_instr_type i) b"
  shows "agrees (if q_we i then book_push (in_instr_type i, unat (copy_count i)) b else b) (iq_clk i s)"
proof (cases "q_we i")
  case False
  then have "varr_len (iq_clk i s) t = varr_len s t" for t
    by (simp add: varr_len_def varr_clk) (simp add: varray_clk_def varr_in_def)
  then show ?thesis using False agrees by (simp add: agrees_def) (simp add: iq_clk_def Let_def)
next
  case True
  let ?t = "in_instr_type i" and ?pos = "insert_varray_pos i s"
  have range: "in_range s" using i by (simp add: iq_used_def)
  have lens: "length (next_free_spot_in_varray s) = 4" "length (varray_pos_when_done s) = 4"
    using inv by (simp_all add: iq_inv_def)
  have pos: "unat ?pos = spot ?t b" by (rule spot_agrees [OF inv range agrees ahead [OF True]])
  have "?pos \<le> 65510" by (rule insert_pos(1) [OF inv range])
  then have add: "unat (?pos + SUPERSCALAR_WIDTH) = spot ?t b + 16" "unat (?pos + latency ?t) = spot ?t b + lat ?t"
    using latency_le(1) [of ?t] order_trans [of "latency ?t" 10 16] pos
    by (simp_all add: unat_add_small SUPERSCALAR_WIDTH_def lat_def)
  have "unat (varr_len (iq_clk i s) t)
      = (if t = ?t then spot ?t b + copies i else unat (varr_len s t))" for t
    using True by (simp add: varr_len_clk [OF inv i] end_after_def varr_in_def copies_def pos)
  moreover have le: "?pos + latency ?t \<le> ?pos + SUPERSCALAR_WIDTH"
  proof -
    have "lat ?t \<le> 16" using latency_le(1) [of ?t] by (simp add: lat_def word_le_nat_alt)
    then show ?thesis by (simp add: word_le_nat_alt add)
  qed
  moreover have "next_free_spot_in_varray (iq_clk i s) = (next_free_spot_in_varray s)[type_num ?t := ?pos + SUPERSCALAR_WIDTH]"
    "varray_pos_when_done (iq_clk i s) = (varray_pos_when_done s)[type_num ?t := ?pos + latency ?t]"
    "prev_instr_type (iq_clk i s) = ?t"
    using True by (simp_all add: iq_clk_def Let_def)
  ultimately show ?thesis
    using True agrees le
    by (auto simp: agrees_def book_push_def Let_def add lens nth_list_update type_num_inj copies_def)
qed

section \<open>The hypotheses of the queue\<close>

definition book_small :: "book \<Rightarrow> bool" where
  "book_small b \<longleftrightarrow> list_all (\<lambda>x. x < 65000) (free b) \<and> list_all (\<lambda>x. x < 65000) (ends b)"

lemma agrees_in_range:
  assumes inv: "iq_inv ps s" and agrees: "agrees b s" and small: "book_small b"
  shows "in_range s"
proof -
  have b: "length (free b) = 4" "length (ends b) = 4" using agrees by (simp_all add: agrees_def)
  have lens: "length (next_free_spot_in_varray s) = 4" "length (varray_pos_when_done s) = 4"
    using inv by (simp_all add: iq_inv_def)
  have f: "free b ! type_num t < 65000" "ends b ! type_num t < 65000" for t
    using small b by (simp_all add: book_small_def list_all_length)
  have free: "next_free_spot_in_varray s ! type_num t < 65500 \<and> varray_pos_when_done s ! type_num t < 65500
      \<and> varr_len s t < 65500" for t
  proof -
    have "unat (next_free_spot_in_varray s ! type_num t) < 65000" "unat (varr_len s t) < 65000"
      "varray_pos_when_done s ! type_num t \<le> next_free_spot_in_varray s ! type_num t"
      using agrees f [of t] by (simp_all add: agrees_def)
    then show ?thesis by (simp add: word_less_nat_alt word_le_nat_alt)
  qed
  have four: "list_all (\<lambda>x. x < 65500) xs"
    if "length xs = 4" "\<And>t. xs ! type_num t < 65500" for xs :: "16 word list"
  proof -
    have "\<exists>t. k = type_num t" if "k < 4" for k
    proof -
      have "k = type_num INSTR_TYPE_LOAD_STORE \<or> k = type_num INSTR_TYPE_RAM \<or> k = type_num INSTR_TYPE_ARITHMETIC
          \<or> k = type_num INSTR_TYPE_PROG_END"
        using that by auto
      then show ?thesis by blast
    qed
    then show ?thesis using that by (metis list_all_length)
  qed
  obtain t where "unat (varray_read_pos s) \<le> unat (varr_len s t) + 1"
    using inv by (auto simp: iq_inv_def read_ok_def)
  moreover have "unat (varr_len s t) < 65000" using agrees f(2) [of t] by (simp add: agrees_def)
  ultimately have "varray_read_pos s < 65500" by (simp add: word_less_nat_alt)
  then show ?thesis
    using four [of "next_free_spot_in_varray s"] four [of "varray_pos_when_done s"] free lens by (simp add: in_range_def)
qed

lemma iq_rings:
  assumes start: "iq_start s" and used: "always iq_clk iq_used is s" and rings: "always iq_clk rings_used is s"
  obtains m where "ring (map push_group (of_type t (trace iq_clk iq_pushes is s))) m
      (unat (varray_read_pos (run iq_clk is s))) (varr t (run iq_clk is s))"
    and "groups_ok (unat (varr_len (run iq_clk is s) t)) (map push_group (of_type t (trace iq_clk iq_pushes is s)))"
proof -
  have v: "varray_start (varr t s)" "varr_len s t = 0" using iq_start_varr [OF start] by simp_all
  have "varray_read_pos s = 0" using start by (simp add: iq_start_def)
  moreover have "always iq_clk (\<lambda>i s. ring_ok (varr_in t i s) (varr t s)) is s"
    using rings_always(1) [OF rings] by (simp only: varr_always)
  ultimately show thesis
    using rings_run [OF iq_start_inv [OF start], of "[]" 0 t "is"] varray_start_ring [OF v(1)] used v(2) that
    by (auto simp: groups_of_type)
qed

lemma few_pushes:
  assumes start: "iq_start s" and used: "always iq_clk iq_used is s" and rings: "always iq_clk rings_used is s"
    and few: "length (of_type t (trace iq_clk iq_pushes is s)) < 62"
  defines "v \<equiv> varr t (run iq_clk is s)"
  shows "ring_ok i v" and "\<not> queue_almost_full v"
proof -
  let ?gs = "map push_group (of_type t (trace iq_clk iq_pushes is s))"
  obtain m where ring: "ring ?gs m (unat (varray_read_pos (run iq_clk is s))) v"
    using iq_rings [OF start used rings, of t] unfolding v_def by blast
  have m: "m \<le> length ?gs" using ring by (simp add: ring_def)
  have words: "unat (Varray.tail v) = m" "unat (Varray.head v) = length ?gs"
    "unat (Varray.head v - Varray.tail v) = length ?gs - m"
    using ring_words [OF ring] m few by simp_all
  then have "Varray.tail v \<noteq> 63" using m few by auto
  then show "ring_ok i v" using words few by (auto simp: ring_ok_def)
  have "Varray.tail v \<le> Varray.head v" using words m by (simp add: word_le_nat_alt)
  then show "\<not> queue_almost_full v"
    using words few by (simp add: queue_almost_full_def queue_size_def word_less_nat_alt)
qed

text \<open>A clock that keeps to the schedule.\<close>

lemma ahead_clock:
  assumes start: "iq_start s0" and used: "always iq_clk iq_used is s0" and rings: "always iq_clk rings_used is s0"
    and agrees: "agrees b (run iq_clk is s0)" and small: "book_small b"
    and few: "\<And>t. length (of_type t (trace iq_clk iq_pushes is s0)) < 62"
    and re: "q_re i \<Longrightarrow> \<not> empty (run iq_clk is s0)"
    and we: "q_we i \<Longrightarrow> 0 < copy_count i \<and> copy_count i \<le> 16 \<and> widths i"
    and ahead: "q_we i \<Longrightarrow> in_instr_type i \<noteq> INSTR_TYPE_PROG_END \<Longrightarrow>
      unat (varray_read_pos (run iq_clk is s0)) + (if q_re i then 2 else 1) \<le> spot (in_instr_type i) b"
  shows "iq_used i (run iq_clk is s0)" and "rings_used i (run iq_clk is s0)"
    and "agrees (if q_we i then book_push (in_instr_type i, unat (copy_count i)) b else b) (iq_clk i (run iq_clk is s0))"
    and "q_we i \<Longrightarrow> unat (insert_varray_pos i (run iq_clk is s0)) = spot (in_instr_type i) b"
proof -
  let ?s = "run iq_clk is s0"
  have inv: "iq_inv (trace iq_clk iq_pushes is s0) ?s"
    using iq_inv_run [OF iq_start_inv [OF start] used] by simp
  have range: "in_range ?s" by (rule agrees_in_range [OF inv agrees small])
  show i: "iq_used i ?s" using range re we by (auto simp: iq_used_def widths_def)
  have ahead': "q_we i \<Longrightarrow> in_instr_type i \<noteq> INSTR_TYPE_PROG_END \<Longrightarrow>
      unat (varray_read_pos ?s) + 1 \<le> spot (in_instr_type i) b"
    using ahead by (auto split: if_splits)
  show "agrees (if q_we i then book_push (in_instr_type i, unat (copy_count i)) b else b) (iq_clk i ?s)"
    by (rule agrees_clk [OF inv i agrees ahead'])
  show pos: "unat (insert_varray_pos i ?s) = spot (in_instr_type i) b" if "q_we i"
    by (rule spot_agrees [OF inv range agrees ahead' [OF that]])
  have "on_time (varr_in t i ?s) (varr t ?s)" if "t \<noteq> INSTR_TYPE_PROG_END" for t
    using that ahead pos by (auto simp: on_time_def varr_in_def pos_after_def split: if_splits)
  from this [of INSTR_TYPE_LOAD_STORE] this [of INSTR_TYPE_RAM] this [of INSTR_TYPE_ARITHMETIC]
  show "rings_used i ?s"
    using few_pushes(1) [OF start used rings few] by (simp add: rings_used_def del: varr.simps)
qed

section \<open>An empty queue has nothing to hand out\<close>

definition no_output :: "iq \<Rightarrow> bool" where
  "no_output s \<longleftrightarrow>
     \<not> reg_valid (out_cache_instr s) \<and> \<not> dma_valid (out_dma_instr s) \<and> \<not> math_valid (out_math_instr s)
     \<and> \<not> out_prog_end_valid s"

lemma always_snoc: "always step ok (is @ [i]) s \<longleftrightarrow> always step ok is s \<and> ok i (run step is s)"
  by (induction "is" arbitrary: s) simp_all

lemma run_snoc: "run step (is @ [i]) s = step i (run step is s)"
  by (induction "is" arbitrary: s) simp_all

lemma beyond_zero:
  assumes "iq_start s" and "always iq_clk iq_used is s" and "always iq_clk rings_used is s"
    and beyond: "beyond_all (run iq_clk is s)"
  shows "varr_dat_r t (run iq_clk is s) = replicate (element_width t) False"
proof -
  let ?s = "run iq_clk is s" and ?gs = "map push_group (of_type t (trace iq_clk iq_pushes is s))"
  obtain m where ring: "ring ?gs m (unat (varray_read_pos ?s)) (varr t ?s)" and ok: "groups_ok (unat (varr_len ?s t)) ?gs"
    using iq_rings [OF assms(1-3), of t] by blast
  have "varr_len ?s t \<le> varray_read_pos ?s" using beyond by (cases t) (simp_all add: beyond_all_def)
  then have "group_end g \<le> unat (varray_read_pos ?s)" if "g \<in> set ?gs" for g
    using ok that by (fastforce simp: groups_ok_def word_le_nat_alt)
  then have "find (covers (unat (varray_read_pos ?s))) ?gs = None"
    by (auto simp: find_None_iff covers_bounds leD)
  then show ?thesis
    using dat_r_element [OF ring ok refl] by (simp add: varr_dat_r_def element_def)
qed

lemma empty_is_quiet:
  "iq_start s \<Longrightarrow> no_output s \<Longrightarrow> always iq_clk iq_used is s \<Longrightarrow> always iq_clk rings_used is s \<Longrightarrow>
     empty (run iq_clk is s) \<Longrightarrow> no_output (run iq_clk is s)"
proof (induction "is" rule: rev_induct)
  case (snoc i "is")
  let ?s = "run iq_clk is s"
  have used: "always iq_clk iq_used is s" "always iq_clk rings_used is s" "iq_used i ?s"
    using snoc.prems(3,4) by (simp_all add: always_snoc)
  have empty: "empty_next i ?s" using snoc.prems(5) by (simp add: run_snoc) (simp add: iq_clk_def Let_def)
  have we: "\<not> q_we i"
    using empty used(3) by (auto simp: empty_next_def iq_used_def split: if_splits)
  show ?case
  proof (cases "q_re i")
    case True
    then have "beyond_all ?s" using empty we by (simp add: empty_next_def)
    note zero = beyond_zero [OF snoc.prems(1) used(1,2) this]
    show ?thesis
      using True
      by (simp add: run_snoc) (simp add: no_output_def iq_clk_def Let_def zero cache_out_def dma_out_def math_out_def)
  next
    case False
    then have "empty ?s" using empty we by (simp add: empty_next_def)
    then show ?thesis using False by (simp add: run_snoc) (simp add: no_output_def iq_clk_def Let_def)
  qed
qed simp

end
