(* ===== verification/Ahead.thy ===== *)
theory Ahead
  imports Core Schedule
begin

text \<open>
  A control unit that is never held back and pushes early enough keeps the instruction queue on its
  schedule, however the pipelines freeze: the queue's hypotheses hold at every clock, and its pushes are those
  of the control unit, at the places of \<open>Schedule\<close>.
\<close>

section \<open>The control unit's pushes, clock by clock\<close>

definition unit_at :: "env \<Rightarrow> u18 \<Rightarrow> cu \<Rightarrow> nat \<Rightarrow> cu" where
  "unit_at E W u t = snd (cu_run E W (replicate t False) u)"

definition pushes_by :: "env \<Rightarrow> u18 \<Rightarrow> cu \<Rightarrow> nat \<Rightarrow> push list" where
  "pushes_by E W u t = fst (cu_run E W (replicate t False) u)"

lemma unit_at_simps:
  "unit_at E W u 0 = u" "unit_at E W u (Suc t) = cu_clk E W False (unit_at E W u t)"
  "pushes_by E W u 0 = []" "pushes_by E W u (Suc t) = pushes_by E W u t @ pushed (unit_at E W u (Suc t))"
proof -
  have r: "replicate (Suc t) False = replicate t False @ [False]" by (simp add: replicate_append_same)
  show "unit_at E W u 0 = u" "unit_at E W u (Suc t) = cu_clk E W False (unit_at E W u t)" "pushes_by E W u 0 = []"
    by (simp_all add: unit_at_def pushes_by_def r cu_run_append Let_def del: replicate_Suc)
  then show "pushes_by E W u (Suc t) = pushes_by E W u t @ pushed (unit_at E W u (Suc t))"
    by (simp add: unit_at_def pushes_by_def r cu_run_append Let_def del: replicate_Suc)
qed

lemma pushes_by_mono: "s \<le> t \<Longrightarrow> \<exists>rest. pushes_by E W u t = pushes_by E W u s @ rest"
  by (induction t) (auto simp: unit_at_simps le_Suc_eq)

text \<open>What a push is to the queue.\<close>

fun entry_of :: "push \<Rightarrow> instr_type \<times> nat" where
  "entry_of (PushLoadStore c instr ca dca) = (INSTR_TYPE_LOAD_STORE, unat (ucast c :: 5 word))"
| "entry_of (PushRam c instr ca dca ma dma) = (INSTR_TYPE_RAM, unat (ucast c :: 5 word))"
| "entry_of (PushArith c instr) = (INSTR_TYPE_ARITHMETIC, unat (ucast c :: 5 word))"
| "entry_of PushProgEnd = (INSTR_TYPE_PROG_END, 1)"

fun same :: "push \<Rightarrow> iq_in \<Rightarrow> bool" where
  "same (PushLoadStore c instr ca dca) i \<longleftrightarrow>
     in_instr_type i = INSTR_TYPE_LOAD_STORE \<and> copy_count i = ucast c \<and> in_ld_st_instr i = instr
     \<and> iq_in.cache_addr i = ucast ca \<and> iq_in.d_cache_addr i = ucast dca"
| "same (PushRam c instr ca dca ma dma) i \<longleftrightarrow>
     in_instr_type i = INSTR_TYPE_RAM \<and> copy_count i = ucast c \<and> in_ram_instr i = instr
     \<and> iq_in.cache_addr i = ucast ca \<and> iq_in.d_cache_addr i = ucast dca
     \<and> iq_in.main_mem_addr i = ucast ma \<and> iq_in.d_main_mem_addr i = ucast dma"
| "same (PushArith c instr) i \<longleftrightarrow>
     in_instr_type i = INSTR_TYPE_ARITHMETIC \<and> copy_count i = ucast c \<and> in_arith_instr i = instr"
| "same PushProgEnd i \<longleftrightarrow> in_instr_type i = INSTR_TYPE_PROG_END"

lemma pushed_same:
  "list_all2 same (pushed (control (dev c))) (if q_we (queue_input f c) then [queue_input f c] else [])"
  by (cases "queue_instr_type (control (dev c))") (simp_all add: pushed_def queue_input_def Let_def)

lemma same_entry:
  "same p i \<Longrightarrow> in_instr_type i = fst (entry_of p)"
  "same p i \<Longrightarrow> book_push (fst (entry_of p), unat (copy_count i)) b = book_push (entry_of p) b"
  by (cases p; simp add: book_push_def)+

section \<open>Early enough\<close>

definition args_ok :: "cu \<Rightarrow> bool" where
  "args_ok u \<longleftrightarrow>
     0 < (ucast (queue_copy_count u) :: 5 word) \<and> (ucast (queue_copy_count u) :: 5 word) \<le> 16
     \<and> length (queue_ld_st_instr u) = 7 \<and> length (queue_ram_instr u) = 3 \<and> length (queue_arith_instr u) = 9"

text \<open>Nothing is pushed in the first nine clocks, so that the queue pops at most \<open>t - 11\<close> places in \<open>t\<close> clocks.\<close>

definition early :: "env \<Rightarrow> u18 \<Rightarrow> cu \<Rightarrow> bool" where
  "early E W u \<longleftrightarrow>
     pushes_by E W u 9 = []
     \<and> (\<forall>t. book_small (book_of (map entry_of (pushes_by E W u t))))
     \<and> (\<forall>t y. length (filter (\<lambda>p. fst (entry_of p) = y) (pushes_by E W u t)) < 62)
     \<and> (\<forall>t. queue_we (unit_at E W u t) \<longrightarrow> args_ok (unit_at E W u t))
     \<and> (\<forall>t p. pushed (unit_at E W u (Suc t)) = [p] \<and> pushes_by E W u t \<noteq> [] \<longrightarrow>
          fst (entry_of p) = INSTR_TYPE_PROG_END
          \<or> Suc t \<le> spot (fst (entry_of p)) (book_of (map entry_of (pushes_by E W u t))) + 9)"

lemma none_before:
  assumes "early E W u" and "k \<le> 9"
  shows "pushes_by E W u k = []"
proof -
  have "\<exists>rest. pushes_by E W u 9 = pushes_by E W u k @ rest" using assms(2) by (rule pushes_by_mono)
  then show ?thesis using assms(1) by (auto simp: early_def)
qed

definition never_full :: "env \<Rightarrow> u18 \<Rightarrow> device \<Rightarrow> bool" where
  "never_full E W d \<longleftrightarrow> (\<forall>js. trace (device_clk E W) (\<lambda>i d. [device_stall i d]) js d = map fst js)"

definition queue_ins :: "env \<Rightarrow> u18 \<Rightarrow> (bool \<times> bool) list \<Rightarrow> core \<Rightarrow> iq_in list" where
  "queue_ins E W is c = trace (core_clk E W) (\<lambda>i c. [queue_input (fst i) c]) is c"

definition device_ins :: "env \<Rightarrow> u18 \<Rightarrow> (bool \<times> bool) list \<Rightarrow> core \<Rightarrow> (bool \<times> bool) list" where
  "device_ins E W is c = trace (core_clk E W) (\<lambda>i c. [(stall_push (queue c), snd i)]) is c"

lemma core_parts:
  "queue (run (core_clk E W) is c) = run iq_clk (queue_ins E W is c) (queue c)"
  "dev (run (core_clk E W) is c) = run (device_clk E W) (device_ins E W is c) (dev c)"
  by (induction "is" arbitrary: c) (simp_all add: queue_ins_def device_ins_def core_clk_def)

lemma ins_snoc:
  "queue_ins E W (is @ [i]) c = queue_ins E W is c @ [queue_input (fst i) (run (core_clk E W) is c)]"
  "device_ins E W (is @ [i]) c = device_ins E W is c @ [(stall_push (queue (run (core_clk E W) is c)), snd i)]"
  by (simp_all add: queue_ins_def device_ins_def trace_snoc)

lemma length_device_ins [simp]: "length (device_ins E W is c) = length is"
  by (induction "is" arbitrary: c) (simp_all add: device_ins_def)

text \<open>What holds after every run of the core.\<close>

definition on_schedule :: "env \<Rightarrow> u18 \<Rightarrow> (bool \<times> bool) list \<Rightarrow> core \<Rightarrow> bool" where
  "on_schedule E W is c \<longleftrightarrow>
     (let t = length is; q = queue c; qs = queue_ins E W is c; r = run iq_clk qs q;
          ps = pushes_by E W (control (dev c)) (t - 1) in
      map fst (device_ins E W is c) = replicate t False
      \<and> always iq_clk iq_used qs q \<and> always iq_clk rings_used qs q
      \<and> agrees (book_of (map entry_of ps)) r
      \<and> list_all2 (\<lambda>p a. same p (snd a)) ps (trace iq_clk iq_pushes qs q)
      \<and> map fst (trace iq_clk iq_pushes qs q) = places (map entry_of ps) new_book
      \<and> unat (varray_read_pos r) \<le> t - 11
      \<and> (ps = [] \<longrightarrow> empty r \<and> varray_read_pos r = 0))"

lemma control_on_schedule:
  assumes "never_full E W (dev c)" and "map fst (device_ins E W is c) = replicate (length is) False"
  shows "control (dev (run (core_clk E W) is c)) = unit_at E W (control (dev c)) (length is)"
  using assms by (simp add: core_parts device_control(1) never_full_def unit_at_def)

lemma types_of_pushes:
  "list_all2 (\<lambda>p a. same p (snd a)) ps as \<Longrightarrow>
     length (of_type y as) = length (filter (\<lambda>p. fst (entry_of p) = y) ps)"
  by (induction ps as rule: list_all2_induct) (auto simp: of_type_def dest: same_entry(1))

lemma on_schedule_run:
  assumes start: "device_start (dev c)" "iq_start (queue c)"
    and early: "early E W (control (dev c))" and full: "never_full E W (dev c)"
  shows "on_schedule E W is c"
proof (induction "is" rule: rev_induct)
  case Nil
  then show ?case
    using start agrees_start [OF start(2)]
    by (simp add: on_schedule_def queue_ins_def device_ins_def unit_at_simps book_of_def iq_start_def)
next
  case (snoc i "is")
  let ?u = "control (dev c)" and ?q = "queue c" and ?qs = "queue_ins E W is c" and ?t = "length is"
  let ?r = "run iq_clk ?qs ?q" and ?c = "run (core_clk E W) is c" and ?ps = "pushes_by E W ?u (?t - 1)"
  let ?i = "queue_input (fst i) ?c" and ?b = "book_of (map entry_of ?ps)"
  have stalls: "map fst (device_ins E W is c) = replicate ?t False"
    and used: "always iq_clk iq_used ?qs ?q" "always iq_clk rings_used ?qs ?q"
    and agrees: "agrees ?b ?r" and ps: "list_all2 (\<lambda>p a. same p (snd a)) ?ps (trace iq_clk iq_pushes ?qs ?q)"
    and pos: "map fst (trace iq_clk iq_pushes ?qs ?q) = places (map entry_of ?ps) new_book"
    and read: "unat (varray_read_pos ?r) \<le> ?t - 11" and none: "?ps = [] \<Longrightarrow> empty ?r \<and> varray_read_pos ?r = 0"
    using snoc.IH by (simp_all add: on_schedule_def Let_def)
  have u: "control (dev ?c) = unit_at E W ?u ?t" by (rule control_on_schedule [OF full stalls])
  have q: "queue ?c = ?r" by (rule core_parts)
  note e = early [unfolded early_def]
  have few: "length (of_type y (trace iq_clk iq_pushes ?qs ?q)) < 62" for y
    using e by (simp add: types_of_pushes [OF ps])
  have "\<not> queue_almost_full (varr y ?r)" for y
    by (rule few_pushes(2) [OF start(2) used few])
  from this [of INSTR_TYPE_LOAD_STORE] this [of INSTR_TYPE_RAM] this [of INSTR_TYPE_ARITHMETIC] this [of INSTR_TYPE_PROG_END]
  have stall: "\<not> stall_push (queue ?c)" by (simp add: stall_push_def q)
  have now: "pushes_by E W ?u ?t = ?ps @ pushed (control (dev ?c))"
  proof (cases ?t)
    case 0
    then show ?thesis using start(1) u by (simp add: unit_at_simps device_start_def waiting_def pushed_def)
  next
    case (Suc k)
    then show ?thesis using u by (simp add: unit_at_simps)
  qed
  have pushed: "list_all2 same (pushed (control (dev ?c))) (if q_we ?i then [?i] else [])"
    by (rule pushed_same)
  have re: "q_re ?i \<Longrightarrow> \<not> empty ?r"
    by (simp add: queue_input_def Let_def q_re_wire_def q)
  have we: "0 < copy_count ?i \<and> copy_count ?i \<le> 16 \<and> widths ?i" if "q_we ?i"
  proof -
    have "queue_we (unit_at E W ?u ?t)" using that by (simp add: queue_input_def Let_def u)
    then have "args_ok (unit_at E W ?u ?t)" using e by blast
    then show ?thesis by (simp add: args_ok_def queue_input_def Let_def u widths_def)
  qed
  have ahead: "unat (varray_read_pos ?r) + (if q_re ?i then 2 else 1) \<le> spot (in_instr_type ?i) ?b"
    if w: "q_we ?i" and ne: "in_instr_type ?i \<noteq> INSTR_TYPE_PROG_END"
  proof (cases "?ps = []")
    case True
    then show ?thesis using none re ne by (auto simp: spot_def)
  next
    case False
    obtain p where p: "pushed (control (dev ?c)) = [p]" "same p ?i"
      using pushed w by (auto simp: list_all2_Cons2)
    have "?t \<noteq> 0" using False by (auto simp: unit_at_simps)
    then obtain k where k: "?t = Suc k" by (cases ?t) auto
    have "fst (entry_of p) \<noteq> INSTR_TYPE_PROG_END" using same_entry(1) [OF p(2)] ne by simp
    moreover have "pushed (unit_at E W ?u (Suc k)) = [p] \<and> pushes_by E W ?u k \<noteq> []"
      using p(1) False by (simp add: k u)
    ultimately have "Suc k \<le> spot (fst (entry_of p)) (book_of (map entry_of (pushes_by E W ?u k))) + 9"
      using e by blast
    moreover have "9 < k" using none_before [OF early, of k] False by (cases "k \<le> 9") (simp_all add: k)
    moreover have "unat (varray_read_pos ?r) \<le> Suc k - 11" using read by (simp only: k)
    ultimately have "unat (varray_read_pos ?r) + 2 \<le> spot (fst (entry_of p)) (book_of (map entry_of (pushes_by E W ?u k)))"
      by arith
    then show ?thesis using same_entry(1) [OF p(2)] by (simp add: k)
  qed
  note clock = ahead_clock [OF start(2) used agrees _ few re we ahead]
  have small: "book_small ?b" using e by blast
  have b: "(if q_we ?i then book_push (in_instr_type ?i, unat (copy_count ?i)) ?b else ?b)
      = book_of (map entry_of (pushes_by E W ?u ?t))"
    using pushed same_entry by (auto simp: now list_all2_Cons2 book_of_snoc split: if_splits)
  have ps': "list_all2 (\<lambda>p a. same p (snd a)) (pushes_by E W ?u ?t)
      (trace iq_clk iq_pushes ?qs ?q @ iq_pushes ?i ?r)"
    using ps pushed by (auto simp: now iq_pushes_def list_all2_Cons2 intro!: list_all2_appendI)
  have pos': "map fst (trace iq_clk iq_pushes ?qs ?q @ iq_pushes ?i ?r)
      = places (map entry_of (pushes_by E W ?u ?t)) new_book"
    using pushed pos clock(4) [OF small] same_entry
    by (auto simp: now iq_pushes_def list_all2_Cons2 places_snoc split: if_splits)
  have next_read: "varray_read_pos (iq_clk ?i ?r) = (if q_re ?i then varray_read_pos ?r + 1 else varray_read_pos ?r)"
    by (simp add: iq_clk_def Let_def)
  have idle: "?ps = [] \<Longrightarrow> \<not> q_re ?i" using none re by blast
  have read': "unat (varray_read_pos (iq_clk ?i ?r)) \<le> Suc ?t - 11"
  proof (cases "q_re ?i")
    case True
    have "10 < ?t" using none_before [OF early, of "?t - 1"] idle True by (cases "?t \<le> 10") simp_all
    moreover have "unat (varray_read_pos ?r + 1) \<le> unat (varray_read_pos ?r) + 1"
      using read_pos_clk [OF clock(1) [OF small], of INSTR_TYPE_RAM] True by (simp add: next_read pos_after_def varr_in_def)
    ultimately show ?thesis using read by (simp add: next_read True)
  next
    case False
    then show ?thesis using read by (simp add: next_read)
  qed
  have none': "empty (iq_clk ?i ?r) \<and> varray_read_pos (iq_clk ?i ?r) = 0" if "pushes_by E W ?u ?t = []"
  proof -
    have n: "?ps = []" "pushed (control (dev ?c)) = []" using that now by simp_all
    then have "\<not> q_we ?i" using pushed by (auto split: if_splits)
    then show ?thesis using none [OF n(1)] idle [OF n(1)] next_read by (simp add: iq_clk_def Let_def empty_next_def)
  qed
  have "map fst (device_ins E W (is @ [i]) c) = replicate (Suc ?t) False"
    using stalls stall by (simp add: ins_snoc replicate_append_same)
  then show ?case
    using used clock(1-3) [OF small] ps' pos' read' none'
    by (simp add: on_schedule_def Let_def ins_snoc always_snoc run_snoc trace_snoc b)
qed

end
