(* ===== verification/Execution.thy ===== *)
theory Execution
  imports InstructionQueue TileCodec
begin

text \<open>
  The pipelines behind the instruction queue, as core/top.sv joins them: the tile cache
  (core/Memory/dcache.sv), the register file (core/Memory/regfile.sv) and the arithmetic pipeline
  (core/Processing/pipeline.sv) with its relu (core/Processing/UnopALU.sv).  The inputs of a clock
  are what the queue hands out, the tile at the head of the queue of fetched tiles, and
  \<^verbatim>\<open>freeze\<close>.
\<close>

section \<open>State\<close>

record exec =
  cache_store_instr_stage_2 :: regfile_instruction
  dma_stage_2_instr :: dma_instruction
  dma_stage_2_dat :: bits
  single_tile_slot :: "bits list"
  cisa_load_instr_stage_2 :: regfile_instruction
  cisa_load_dat_stage_2 :: bits
  dma_stage_3_instr :: dma_instruction
  dma_stage_3_dat :: bits
  regfile_mem :: "bits list"
  port_a_out :: bits
  port_b_out :: bits
  instr_1 :: math_instr
  instr_2 :: math_instr
  instr_3 :: math_instr
  regfile_read_addr :: "6 word"
  stage_3_dat_reg :: bits
  regfile_write_addr :: "6 word"
  regfile_dat_w :: bits
  regfile_we :: bool

record exec_in =
  freeze :: bool
  cache_instr_stage_1 :: regfile_instruction
  dma_stage_1_instr :: dma_instruction
  m_instr :: math_instr
  L3_dat :: bits

section \<open>The parts\<close>

definition relu_lane_bits :: "bits \<Rightarrow> bits" where
  "relu_lane_bits a = (if a ! 0 then replicate 18 False else a)"

definition UnopALU :: "bits \<Rightarrow> bits" where
  "UnopALU v = concat (map relu_lane_bits (chunks 18 16 v))"

text \<open>A register's address is its thread and its number.\<close>

definition reg_addr :: "4 word \<Rightarrow> 2 word \<Rightarrow> 6 word" where
  "reg_addr thread r = word_cat thread r"

definition REG_MATMUL_INPUT :: "2 word" where "REG_MATMUL_INPUT = 0"
definition REG_MATMUL_OUTPUT :: "2 word" where "REG_MATMUL_OUTPUT = 2"

definition instr_reg :: "regfile_instruction \<Rightarrow> 6 word" where
  "instr_reg i = reg_addr (reg_superscalar_thread i) (word_of_int (bits_uint (reg_regfile_reg i)))"

text \<open>The cache has 32 tiles; reading beyond them gives the unknown \<open>X\<close>, writing there does nothing.
  It does not look at the slot number of an instruction.\<close>

definition read_tile :: "bits \<Rightarrow> 11 word \<Rightarrow> exec \<Rightarrow> bits" where
  "read_tile X a s = (if unat a < 32 then single_tile_slot s ! unat a else X)"

definition is_load :: "regfile_instruction \<Rightarrow> bool" where
  "is_load i \<longleftrightarrow> reg_valid i \<and> reg_is_load i"

definition is_store :: "regfile_instruction \<Rightarrow> bool" where
  "is_store i \<longleftrightarrow> reg_valid i \<and> \<not> reg_is_load i"

definition is_fetch :: "dma_instruction \<Rightarrow> bool" where
  "is_fetch i \<longleftrightarrow> dma_valid i \<and> \<not> dma_mem_we i"

definition is_write_back :: "dma_instruction \<Rightarrow> bool" where
  "is_write_back i \<longleftrightarrow> dma_valid i \<and> dma_mem_we i"

definition tiles_after :: "exec \<Rightarrow> bits list" where
  "tiles_after s =
     (let m = (if is_store (cache_store_instr_stage_2 s)
           then (single_tile_slot s)[unat (reg_cache_addr (cache_store_instr_stage_2 s)) := port_b_out s]
           else single_tile_slot s) in
      if is_fetch (dma_stage_2_instr s)
      then m[unat (dma_cache_addr (dma_stage_2_instr s)) := dma_stage_2_dat s] else m)"

definition regs_after :: "exec \<Rightarrow> bits list" where
  "regs_after s =
     (let m = (if regfile_we s then (regfile_mem s)[unat (regfile_write_addr s) := regfile_dat_w s] else regfile_mem s) in
      if is_load (cisa_load_instr_stage_2 s)
      then m[unat (instr_reg (cisa_load_instr_stage_2 s)) := cisa_load_dat_stage_2 s] else m)"

section \<open>One clock\<close>

definition exec_clk :: "bits \<Rightarrow> exec_in \<Rightarrow> exec \<Rightarrow> exec" where
  "exec_clk X i s =
     (if freeze i then s
      else
        \<lparr>cache_store_instr_stage_2 = cache_instr_stage_1 i,
         dma_stage_2_instr = dma_stage_1_instr i,
         dma_stage_2_dat = L3_dat i,
         single_tile_slot = tiles_after s,
         cisa_load_instr_stage_2 = cache_instr_stage_1 i,
         cisa_load_dat_stage_2 = (if is_load (cache_instr_stage_1 i)
           then read_tile X (reg_cache_addr (cache_instr_stage_1 i)) s else cisa_load_dat_stage_2 s),
         dma_stage_3_instr = dma_stage_2_instr s,
         dma_stage_3_dat = (if is_write_back (dma_stage_2_instr s)
           then read_tile X (dma_cache_addr (dma_stage_2_instr s)) s else dma_stage_3_dat s),
         regfile_mem = regs_after s,
         port_a_out = regfile_mem s ! unat (regfile_read_addr s),
         port_b_out = regfile_mem s ! unat (instr_reg (cache_instr_stage_1 i)),
         instr_1 = m_instr i,
         instr_2 = instr_1 s,
         instr_3 = instr_2 s,
         regfile_read_addr = (if math_valid (m_instr i)
           then reg_addr (math_superscalar_thread (m_instr i)) REG_MATMUL_INPUT else regfile_read_addr s),
         stage_3_dat_reg = (if math_valid (instr_2 s) then UnopALU (port_a_out s) else stage_3_dat_reg s),
         regfile_write_addr = reg_addr (math_superscalar_thread (instr_3 s)) REG_MATMUL_OUTPUT,
         regfile_dat_w = stage_3_dat_reg s,
         regfile_we = math_valid (instr_3 s)\<rparr>)"

text \<open>A clock under \<^verbatim>\<open>reset\<close>: its assignments come last, and the memories go on.\<close>

definition no_cache_instr :: regfile_instruction where
  "no_cache_instr =
     \<lparr>reg_valid = False, reg_is_load = False, reg_cache_slot = replicate 2 False, reg_cache_addr = 0,
      reg_superscalar_thread = 0, reg_regfile_reg = replicate 2 False\<rparr>"

definition no_dma_instr :: dma_instruction where
  "no_dma_instr =
     \<lparr>dma_valid = False, dma_mem_we = False, dma_main_mem_addr = 0, dma_cache_slot = replicate 2 False, dma_cache_addr = 0\<rparr>"

definition no_math_instr :: math_instr where
  "no_math_instr =
     \<lparr>math_valid = False, math_category = replicate 3 False, math_options = replicate 6 False, math_superscalar_thread = 0\<rparr>"

definition exec_reset :: "bits \<Rightarrow> exec_in \<Rightarrow> exec \<Rightarrow> exec" where
  "exec_reset X i s =
     (exec_clk X i s)\<lparr>cache_store_instr_stage_2 := no_cache_instr, dma_stage_2_instr := no_dma_instr, dma_stage_2_dat := replicate 288 False,
       cisa_load_dat_stage_2 := replicate 288 False, cisa_load_instr_stage_2 := no_cache_instr,
       dma_stage_3_instr := no_dma_instr, regfile_read_addr := 0, regfile_write_addr := 0,
       regfile_dat_w := replicate 288 False, regfile_we := False, instr_1 := no_math_instr, instr_2 := no_math_instr,
       instr_3 := no_math_instr, stage_3_dat_reg := replicate 288 False\<rparr>"

lemma run_unfrozen: "run (exec_clk X) is s = run (exec_clk X) (filter (\<lambda>i. \<not> freeze i) is) s"
  by (induction "is" arbitrary: s) (simp_all add: exec_clk_def)

section \<open>Clock by clock\<close>

definition after :: "bits \<Rightarrow> exec_in list \<Rightarrow> exec \<Rightarrow> nat \<Rightarrow> exec" where
  "after X is s n = run (exec_clk X) (take n is) s"

lemma run_append: "run step (is @ js) s = run step js (run step is s)"
  by (induction "is" arbitrary: s) simp_all

lemma after_Suc: "n < length is \<Longrightarrow> after X is s (Suc n) = exec_clk X (is ! n) (after X is s n)"
  by (simp add: after_def take_Suc_conv_app_nth run_append)

lemma reg_addr_eq: "reg_addr t r = reg_addr t' r' \<longleftrightarrow> t = t' \<and> r = r'"
proof
  assume "reg_addr t r = reg_addr t' r'"
  then have "word_split (reg_addr t r) = (word_split (reg_addr t' r') :: 4 word \<times> 2 word)" by simp
  moreover have "word_split (reg_addr t r) = (t, r)" for t r
    unfolding reg_addr_def by (rule word_split_cat_alt) (simp_all add: word_size)
  ultimately show "t = t' \<and> r = r'" by simp
qed simp

text \<open>What an input does, seen from a tile or a register.\<close>

definition fetches :: "nat \<Rightarrow> exec_in \<Rightarrow> bool" where
  "fetches a i \<longleftrightarrow> is_fetch (dma_stage_1_instr i) \<and> unat (dma_cache_addr (dma_stage_1_instr i)) = a"

definition stores :: "nat \<Rightarrow> exec_in \<Rightarrow> bool" where
  "stores a i \<longleftrightarrow> is_store (cache_instr_stage_1 i) \<and> unat (reg_cache_addr (cache_instr_stage_1 i)) = a"

definition loads :: "6 word \<Rightarrow> exec_in \<Rightarrow> bool" where
  "loads r i \<longleftrightarrow> is_load (cache_instr_stage_1 i) \<and> instr_reg (cache_instr_stage_1 i) = r"

definition computes :: "4 word \<Rightarrow> exec_in \<Rightarrow> bool" where
  "computes t i \<longleftrightarrow> math_valid (m_instr i) \<and> math_superscalar_thread (m_instr i) = t"

definition exec_ok :: "exec_in list \<Rightarrow> exec \<Rightarrow> bool" where
  "exec_ok is s \<longleftrightarrow>
     (\<forall>i \<in> set is. \<not> freeze i) \<and> length (single_tile_slot s) = 32 \<and> length (regfile_mem s) = 64"

lemma step: "exec_ok is s \<Longrightarrow> n < length is \<Longrightarrow> after X is s (Suc n) = exec_clk X (is ! n) (after X is s n) \<and> \<not> freeze (is ! n)"
  by (simp add: after_Suc exec_ok_def)

lemma lengths: "exec_ok is s \<Longrightarrow> n \<le> length is \<Longrightarrow> length (single_tile_slot (after X is s n)) = 32 \<and> length (regfile_mem (after X is s n)) = 64"
proof (induction n)
  case (Suc n)
  then show ?case using step [of "is" s n X] by (simp add: exec_clk_def tiles_after_def regs_after_def Let_def)
qed (simp add: after_def exec_ok_def)

text \<open>A tile two clocks after an instruction, and a register after it.\<close>

lemma tile_after:
  assumes ok: "exec_ok is s" and "Suc n < length is" and "a < 32"
  shows "single_tile_slot (after X is s (Suc (Suc n))) ! a
     = (if fetches a (is ! n) then L3_dat (is ! n)
        else if stores a (is ! n) then regfile_mem (after X is s n) ! unat (instr_reg (cache_instr_stage_1 (is ! n)))
        else single_tile_slot (after X is s (Suc n)) ! a)"
  using step [OF ok, of n X] step [OF ok, of "Suc n" X] lengths [OF ok, of "Suc n" X] assms
  by (auto simp: exec_clk_def tiles_after_def Let_def fetches_def stores_def nth_list_update)

lemma tile_stays:
  assumes ok: "exec_ok is s" and "a < 32" and "b < length is" and "\<And>x. n \<le> x \<Longrightarrow> x < b \<Longrightarrow> \<not> fetches a (is ! x) \<and> \<not> stores a (is ! x)"
  shows "n \<le> b \<Longrightarrow> single_tile_slot (after X is s (Suc b)) ! a = single_tile_slot (after X is s (Suc n)) ! a"
  using assms(3,4)
proof (induction b)
  case (Suc b)
  show ?case
  proof (cases "n = Suc b")
    case False
    then have "n \<le> b" using Suc.prems(1) by simp
    then show ?thesis
      using Suc tile_after [OF ok, of b a X] assms(2) by simp
  qed simp
qed simp

lemma math_next:
  assumes ok: "exec_ok is s" and "n < length is"
  shows "instr_1 (after X is s (Suc n)) = m_instr (is ! n)" "instr_2 (after X is s (Suc n)) = instr_1 (after X is s n)" "instr_3 (after X is s (Suc n)) = instr_2 (after X is s n)"
    "math_valid (m_instr (is ! n)) \<Longrightarrow>
      regfile_read_addr (after X is s (Suc n)) = reg_addr (math_superscalar_thread (m_instr (is ! n))) REG_MATMUL_INPUT"
    "port_a_out (after X is s (Suc n)) = regfile_mem (after X is s n) ! unat (regfile_read_addr (after X is s n))"
    "math_valid (instr_2 (after X is s n)) \<Longrightarrow> stage_3_dat_reg (after X is s (Suc n)) = UnopALU (port_a_out (after X is s n))"
    "regfile_we (after X is s (Suc n)) = math_valid (instr_3 (after X is s n))"
    "regfile_write_addr (after X is s (Suc n)) = reg_addr (math_superscalar_thread (instr_3 (after X is s n))) REG_MATMUL_OUTPUT"
    "regfile_dat_w (after X is s (Suc n)) = stage_3_dat_reg (after X is s n)"
  using step [OF assms] by (simp_all add: exec_clk_def)

lemma math_stages:
  assumes ok: "exec_ok is s" and "n + 3 < length is"
  shows "regfile_we (after X is s (Suc (n + 3))) = math_valid (m_instr (is ! n))"
    and "regfile_write_addr (after X is s (Suc (n + 3))) = reg_addr (math_superscalar_thread (m_instr (is ! n))) REG_MATMUL_OUTPUT"
    and "math_valid (m_instr (is ! n)) \<Longrightarrow>
      regfile_dat_w (after X is s (Suc (n + 3))) = UnopALU (regfile_mem (after X is s (Suc n))
        ! unat (reg_addr (math_superscalar_thread (m_instr (is ! n))) REG_MATMUL_INPUT))"
proof -
  have n: "n < length is" "Suc n < length is" "Suc (Suc n) < length is" "Suc (Suc (Suc n)) < length is"
    using assms by simp_all
  have i: "instr_3 (after X is s (Suc (Suc (Suc n)))) = m_instr (is ! n)" "instr_2 (after X is s (Suc (Suc n))) = m_instr (is ! n)"
    by (simp_all only: math_next(1-3) [OF ok] n)
  show "regfile_we (after X is s (Suc (n + 3))) = math_valid (m_instr (is ! n))"
    "regfile_write_addr (after X is s (Suc (n + 3))) = reg_addr (math_superscalar_thread (m_instr (is ! n))) REG_MATMUL_OUTPUT"
    using math_next(7,8) [OF ok n(4)] by (simp_all add: i numeral_3_eq_3)
  assume v: "math_valid (m_instr (is ! n))"
  show "regfile_dat_w (after X is s (Suc (n + 3))) = UnopALU (regfile_mem (after X is s (Suc n))
      ! unat (reg_addr (math_superscalar_thread (m_instr (is ! n))) REG_MATMUL_INPUT))"
    using math_next(9) [OF ok n(4)] math_next(6) [OF ok n(3)] math_next(5) [OF ok n(2)] math_next(4) [OF ok n(1) v] v
    by (simp add: i numeral_3_eq_3)
qed

lemma reg_next:
  assumes ok: "exec_ok is s" and "n < length is"
  shows "regfile_mem (after X is s (Suc n)) ! unat r
     = (if is_load (cisa_load_instr_stage_2 (after X is s n)) \<and> instr_reg (cisa_load_instr_stage_2 (after X is s n)) = r
        then cisa_load_dat_stage_2 (after X is s n)
        else if regfile_we (after X is s n) \<and> regfile_write_addr (after X is s n) = r then regfile_dat_w (after X is s n)
        else regfile_mem (after X is s n) ! unat r)"
proof -
  have r: "unat r < 64" using unsigned_less [of r] by simp
  have len: "length (regfile_mem (after X is s n)) = 64" using lengths [OF ok, of n X] assms by simp
  have "regfile_mem (after X is s (Suc n)) = regs_after (after X is s n)" using step [OF assms] by (simp add: exec_clk_def)
  then show ?thesis
    using r len by (simp add: regs_after_def Let_def nth_list_update word_unat_eq_iff)
qed

lemma load_next:
  assumes ok: "exec_ok is s" and "n < length is"
  shows "cisa_load_instr_stage_2 (after X is s (Suc n)) = cache_instr_stage_1 (is ! n)"
    and "is_load (cache_instr_stage_1 (is ! n)) \<Longrightarrow>
      cisa_load_dat_stage_2 (after X is s (Suc n)) = read_tile X (reg_cache_addr (cache_instr_stage_1 (is ! n))) (after X is s n)"
  using step [OF assms] by (simp_all add: exec_clk_def)

text \<open>A register between two clocks, once the arithmetic pipeline holds only what came in since the start.\<close>

lemma reg_stays:
  assumes ok: "exec_ok is s" and "b \<le> length is" and "4 \<le> a"
    and "\<And>x. a \<le> Suc x \<Longrightarrow> Suc x < b \<Longrightarrow> \<not> loads r (is ! x)"
    and "\<And>x. a \<le> x + 4 \<Longrightarrow> x + 4 < b \<Longrightarrow> math_valid (m_instr (is ! x)) \<Longrightarrow>
      reg_addr (math_superscalar_thread (m_instr (is ! x))) REG_MATMUL_OUTPUT \<noteq> r"
  shows "a \<le> b \<Longrightarrow> regfile_mem (after X is s b) ! unat r = regfile_mem (after X is s a) ! unat r"
  using assms(2-5)
proof (induction b)
  case (Suc b)
  show ?case
  proof (cases "a = Suc b")
    case False
    then obtain y where b: "b = y + 4" "a \<le> b" using Suc.prems(1,3) le_Suc_ex [of 4 b] by (auto simp: add.commute)
    have "\<not> loads r (is ! (y + 3))" using Suc.prems(4) [of "y + 3"] b by simp
    then have no_load: "\<not> (is_load (cisa_load_instr_stage_2 (after X is s b)) \<and> instr_reg (cisa_load_instr_stage_2 (after X is s b)) = r)"
      using load_next(1) [OF ok, of "y + 3" X] Suc.prems(2) b(1) by (simp add: loads_def numeral_eq_Suc)
    have no_math: "\<not> (regfile_we (after X is s b) \<and> regfile_write_addr (after X is s b) = r)"
      using math_stages(1,2) [OF ok, of y X] Suc.prems(2) Suc.prems(5) [of y] b by (auto simp: numeral_eq_Suc)
    have "b < length is" using Suc.prems(2) by simp
    then have "regfile_mem (after X is s (Suc b)) ! unat r = regfile_mem (after X is s b) ! unat r"
      by (simp only: reg_next [OF ok] no_load no_math if_False)
    then show ?thesis using Suc.IH b(2) Suc.prems by simp
  qed simp
qed simp

text \<open>A tile on its way: fetched, loaded, computed, stored and written back.\<close>

lemma tile_chain:
  assumes ok: "exec_ok is s" and c: "fetches A (is ! c)" and l: "loads (reg_addr T REG_MATMUL_INPUT) (is ! l)"
    "unat (reg_cache_addr (cache_instr_stage_1 (is ! l))) = A"
    and m: "computes T (is ! m)"
    and st: "stores B (is ! st)" "instr_reg (cache_instr_stage_1 (is ! st)) = reg_addr T REG_MATMUL_OUTPUT"
    and w: "is_write_back (dma_stage_1_instr (is ! w))" "unat (dma_cache_addr (dma_stage_1_instr (is ! w))) = B"
    and order: "c + 2 \<le> l" "l + 2 \<le> m" "m + 5 \<le> st" "st + 1 \<le> w" "w + 2 = length is" and addrs: "A < 32" "B < 32"
    and keep_A: "\<And>x. c < x \<Longrightarrow> x < l \<Longrightarrow> \<not> fetches A (is ! x) \<and> \<not> stores A (is ! x)"
    and keep_in: "\<And>x. l < x \<Longrightarrow> x < m \<Longrightarrow> \<not> loads (reg_addr T REG_MATMUL_INPUT) (is ! x)"
    and keep_out: "\<And>x. m < x \<Longrightarrow> x < st \<Longrightarrow> \<not> loads (reg_addr T REG_MATMUL_OUTPUT) (is ! x) \<and> \<not> computes T (is ! x)"
    and keep_B: "\<And>x. st \<le> x \<Longrightarrow> x < w \<Longrightarrow> \<not> fetches B (is ! x) \<and> (st < x \<longrightarrow> \<not> stores B (is ! x))"
  shows "dma_stage_3_instr (after X is s (w + 2)) = dma_stage_1_instr (is ! w)
     \<and> dma_stage_3_dat (after X is s (w + 2)) = UnopALU (L3_dat (is ! c))"
proof -
  let ?in = "reg_addr T REG_MATMUL_INPUT" and ?out = "reg_addr T REG_MATMUL_OUTPUT"
  have diff: "?out \<noteq> ?in" "reg_addr t REG_MATMUL_OUTPUT = ?out \<longleftrightarrow> t = T" "reg_addr t REG_MATMUL_OUTPUT \<noteq> ?in" for t
    by (simp_all add: reg_addr_eq REG_MATMUL_INPUT_def REG_MATMUL_OUTPUT_def)
  obtain l' where l': "l = Suc l'" "c < l'" using order(1) by (cases l) auto
  have "single_tile_slot (after X is s l) ! A = single_tile_slot (after X is s (Suc (Suc c))) ! A"
    using tile_stays [OF ok, of A l' "Suc c" X] keep_A l' order addrs(1) by simp
  also have "\<dots> = L3_dat (is ! c)" using tile_after [OF ok, of c A X] c order addrs(1) by simp
  finally have A: "read_tile X (reg_cache_addr (cache_instr_stage_1 (is ! l))) (after X is s l) = L3_dat (is ! c)"
    using l(2) addrs(1) by (simp add: read_tile_def)
  have "regfile_mem (after X is s (Suc m)) ! unat ?in = regfile_mem (after X is s (Suc (Suc l))) ! unat ?in"
    by (rule reg_stays [OF ok]) (use keep_in order diff in auto)
  also have "\<dots> = L3_dat (is ! c)"
    using reg_next [OF ok, of "Suc l" X ?in] load_next [OF ok, of l X] l(1) order A by (simp add: loads_def)
  finally have R: "regfile_mem (after X is s (Suc m)) ! unat ?in = L3_dat (is ! c)" .
  have mm: "math_valid (m_instr (is ! m))" "math_superscalar_thread (m_instr (is ! m)) = T"
    using m by (simp_all add: computes_def)
  have "\<not> loads ?out (is ! (m + 3))" using keep_out [of "m + 3"] order by simp
  then have no_load: "\<not> (is_load (cisa_load_instr_stage_2 (after X is s (Suc (m + 3)))) \<and> instr_reg (cisa_load_instr_stage_2 (after X is s (Suc (m + 3)))) = ?out)"
    using load_next(1) [OF ok, of "m + 3" X] order by (simp add: loads_def)
  have m3: "m + 3 < length is" "Suc (m + 3) < length is" using order by simp_all
  have "regfile_mem (after X is s st) ! unat ?out = regfile_mem (after X is s (Suc (Suc (m + 3)))) ! unat ?out"
    by (rule reg_stays [OF ok]) (use keep_out order diff in \<open>auto simp: computes_def\<close>)
  also have "\<dots> = regfile_dat_w (after X is s (Suc (m + 3)))"
    using math_stages(1,2) [OF ok m3(1)] mm by (simp only: reg_next [OF ok m3(2)] no_load if_False if_True simp_thms)
  also have "\<dots> = UnopALU (L3_dat (is ! c))"
    using math_stages(3) [OF ok m3(1) mm(1)] R by (simp add: mm(2))
  finally have out: "regfile_mem (after X is s st) ! unat ?out = UnopALU (L3_dat (is ! c))" .
  have "\<not> fetches B (is ! st)" using keep_B [of st] order by simp
  then have "single_tile_slot (after X is s (Suc (Suc st))) ! B = UnopALU (L3_dat (is ! c))"
    using tile_after [OF ok, of st B X] st order addrs(2) out by simp
  moreover have "single_tile_slot (after X is s (Suc w)) ! B = single_tile_slot (after X is s (Suc (Suc st))) ! B"
    using tile_stays [OF ok, of B w "Suc st" X] keep_B order addrs(2) by simp
  ultimately have B: "read_tile X (dma_cache_addr (dma_stage_1_instr (is ! w))) (after X is s (Suc w)) = UnopALU (L3_dat (is ! c))"
    using w(2) addrs(2) by (simp add: read_tile_def)
  have "dma_stage_2_instr (after X is s (Suc w)) = dma_stage_1_instr (is ! w)"
    using step [OF ok, of w X] order(5) by (simp add: exec_clk_def)
  then show ?thesis
    using step [OF ok, of "Suc w" X] order(5) w(1) B by (simp add: exec_clk_def)
qed

section \<open>Relu of a tile\<close>

lemma bits_uint_relu: "length a = 18 \<Longrightarrow> bits_uint (relu_lane_bits a) = relu_lane (bits_uint a)"
proof -
  assume len: "length a = 18"
  then obtain b c where a: "a = b # c" "length c = 17" by (cases a) auto
  have "0 \<le> bits_uint c" "bits_uint c < 2 ^ 17" using bits_uint_range [of c] a(2) by simp_all
  then show ?thesis
    by (cases b) (simp_all add: a relu_lane_bits_def relu_lane_def bits_uint_Cons bits_uint_zeros del: replicate.simps)
qed

lemma chunks_of_tile: "length t = 288 \<Longrightarrow> a \<in> set (chunks 18 16 t) \<Longrightarrow> length a = 18"
  using chunks_length [of t 16 18 a] by simp

lemma length_UnopALU:
  assumes "length t = 288"
  shows "length (UnopALU t) = 288"
proof -
  have "length (concat (map relu_lane_bits (chunks 18 16 t))) = length (map relu_lane_bits (chunks 18 16 t)) * 18"
    by (rule length_concat_same) (auto simp: relu_lane_bits_def chunks_of_tile [OF assms])
  then show ?thesis by (simp add: UnopALU_def)
qed

lemma lanes_UnopALU:
  assumes "length t = 288"
  shows "lanes (bits_bytes (UnopALU t)) = map relu_lane (lanes (bits_bytes t))"
proof -
  note c = chunks_of_tile [OF assms]
  have "chunks 18 16 (UnopALU t) = map relu_lane_bits (chunks 18 16 t)"
    unfolding UnopALU_def by (rule chunks_concat_eq) (auto simp: relu_lane_bits_def c)
  then show ?thesis
    using assms length_UnopALU [OF assms] c by (simp add: lanes_def bytes_bits_bits_bytes bits_uint_relu)
qed

text \<open>C7. The latencies suffice: when a tile is fetched into the cache, loaded by a thread at least the
  latency of a fetch later, computed on at least that of a load later, stored at least that of the
  arithmetic later and written back at least that of a store later, and nothing else touches its
  places meanwhile, what is handed to the packet sender, two unfrozen clocks after the write-back was
  issued and however the pipelines freeze in between, is relu of the fetched tile, lane by lane.\<close>

theorem tile_through_pipelines:
  assumes "filter (\<lambda>i. \<not> freeze i) js = is" and "length (single_tile_slot s) = 32" and "length (regfile_mem s) = 64"
    and "fetches A (is ! c)" and "length (L3_dat (is ! c)) = 288"
    and "loads (reg_addr T REG_MATMUL_INPUT) (is ! l)" and "unat (reg_cache_addr (cache_instr_stage_1 (is ! l))) = A"
    and "computes T (is ! m)"
    and "stores B (is ! st)" and "instr_reg (cache_instr_stage_1 (is ! st)) = reg_addr T REG_MATMUL_OUTPUT"
    and "is_write_back (dma_stage_1_instr (is ! w))" and "unat (dma_cache_addr (dma_stage_1_instr (is ! w))) = B"
    and "c + unat (latency INSTR_TYPE_RAM) \<le> l" and "l + unat (latency INSTR_TYPE_LOAD_STORE) \<le> m"
    and "m + unat (latency INSTR_TYPE_ARITHMETIC) \<le> st" and "st + unat (latency INSTR_TYPE_LOAD_STORE) \<le> w"
    and "w + 2 = length is" and "A < 32" and "B < 32"
    and "\<forall>x \<in> {c<..<l}. \<not> fetches A (is ! x) \<and> \<not> stores A (is ! x)"
    and "\<forall>x \<in> {l<..<m}. \<not> loads (reg_addr T REG_MATMUL_INPUT) (is ! x)"
    and "\<forall>x \<in> {m<..<st}. \<not> loads (reg_addr T REG_MATMUL_OUTPUT) (is ! x) \<and> \<not> computes T (is ! x)"
    and "\<forall>x \<in> {st..<w}. \<not> fetches B (is ! x) \<and> (st < x \<longrightarrow> \<not> stores B (is ! x))"
  shows "dma_stage_3_instr (run (exec_clk X) js s) = dma_stage_1_instr (is ! w)
     \<and> lanes (bits_bytes (dma_stage_3_dat (run (exec_clk X) js s))) = map relu_lane (lanes (bits_bytes (L3_dat (is ! c))))"
proof -
  have run: "run (exec_clk X) js s = after X is s (w + 2)"
    unfolding run_unfrozen [of X js s] assms(1) using assms(17) by (simp add: after_def)
  have ok: "exec_ok is s" using assms(1-3) by (auto simp: exec_ok_def)
  have "dma_stage_3_instr (after X is s (w + 2)) = dma_stage_1_instr (is ! w)
     \<and> dma_stage_3_dat (after X is s (w + 2)) = UnopALU (L3_dat (is ! c))"
    by (rule tile_chain [OF ok assms(4,6-12)]) (use assms(13-23) in simp_all)
  then show ?thesis using lanes_UnopALU [OF assms(5)] by (simp add: run)
qed

definition no_input :: exec_in where
  "no_input =
     \<lparr>freeze = False, cache_instr_stage_1 = no_cache_instr, dma_stage_1_instr = no_dma_instr, m_instr = no_math_instr,
      L3_dat = replicate 288 False\<rparr>"

definition cache_input :: "bool \<Rightarrow> bits \<Rightarrow> exec_in" where
  "cache_input load r =
     no_input\<lparr>cache_instr_stage_1 := \<lparr>reg_valid = True, reg_is_load = load, reg_cache_slot = [False, False],
       reg_cache_addr = 5, reg_superscalar_thread = 3, reg_regfile_reg = r\<rparr>\<rparr>"

definition dma_input :: "bool \<Rightarrow> exec_in" where
  "dma_input write =
     no_input\<lparr>dma_stage_1_instr := \<lparr>dma_valid = True, dma_mem_we = write, dma_main_mem_addr = 20,
         dma_cache_slot = [False, False], dma_cache_addr = 5\<rparr>,
       L3_dat := concat (replicate 8 (replicate 18 True @ False # replicate 17 True))\<rparr>"

definition math_input :: exec_in where
  "math_input =
     no_input\<lparr>m_instr := \<lparr>math_valid = True, math_category = replicate 3 False, math_options = replicate 6 False,
       math_superscalar_thread = 3\<rparr>\<rparr>"

definition one_tile :: "exec_in list" where
  "one_tile =
     dma_input False # replicate 3 no_input @ cache_input True [False, False] # replicate 2 no_input
     @ math_input # replicate 9 no_input @ cache_input False [True, False] # replicate 2 no_input
     @ [dma_input True, no_input]"

definition idle_exec :: exec where
  "idle_exec =
     \<lparr>cache_store_instr_stage_2 = no_cache_instr, dma_stage_2_instr = no_dma_instr, dma_stage_2_dat = [],
      single_tile_slot = replicate 32 [], cisa_load_instr_stage_2 = no_cache_instr, cisa_load_dat_stage_2 = [],
      dma_stage_3_instr = no_dma_instr, dma_stage_3_dat = [], regfile_mem = replicate 64 [], port_a_out = [], port_b_out = [],
      instr_1 = no_math_instr, instr_2 = no_math_instr, instr_3 = no_math_instr, regfile_read_addr = 0,
      stage_3_dat_reg = [], regfile_write_addr = 0, regfile_dat_w = [], regfile_we = False\<rparr>"

text \<open>Sixteen values, every other one negative, with the pipelines frozen for three clocks.\<close>

theorem tile_through_pipelines_witness:
  "lanes (bits_bytes (dma_stage_3_dat
     (run (exec_clk []) (take 6 one_tile @ replicate 3 (no_input\<lparr>freeze := True\<rparr>) @ drop 6 one_tile) idle_exec)))
   = concat (replicate 8 [0, 131071])"
proof -
  let ?js = "take 6 one_tile @ replicate 3 (no_input\<lparr>freeze := True\<rparr>) @ drop 6 one_tile" and ?is = one_tile
  have unfrozen: "filter (\<lambda>i. \<not> freeze i) ?js = ?is" by code_simp
  have a: "fetches 5 (?is ! 0) \<and> length (L3_dat (?is ! 0)) = 288 \<and> loads (reg_addr 3 REG_MATMUL_INPUT) (?is ! 4)
      \<and> unat (reg_cache_addr (cache_instr_stage_1 (?is ! 4))) = 5 \<and> computes 3 (?is ! 7) \<and> stores 5 (?is ! 17)
      \<and> instr_reg (cache_instr_stage_1 (?is ! 17)) = reg_addr 3 REG_MATMUL_OUTPUT
      \<and> is_write_back (dma_stage_1_instr (?is ! 20)) \<and> unat (dma_cache_addr (dma_stage_1_instr (?is ! 20))) = 5
      \<and> length ?is = 22"
    by code_simp
  have k: "(\<forall>x \<in> {0<..<4}. \<not> fetches 5 (?is ! x) \<and> \<not> stores 5 (?is ! x))
      \<and> (\<forall>x \<in> {4<..<7}. \<not> loads (reg_addr 3 REG_MATMUL_INPUT) (?is ! x))
      \<and> (\<forall>x \<in> {7<..<17}. \<not> loads (reg_addr 3 REG_MATMUL_OUTPUT) (?is ! x) \<and> \<not> computes 3 (?is ! x))
      \<and> (\<forall>x \<in> {17..<20}. \<not> fetches 5 (?is ! x) \<and> (17 < x \<longrightarrow> \<not> stores 5 (?is ! x)))"
    by code_simp
  have "map relu_lane (lanes (bits_bytes (L3_dat (?is ! 0)))) = concat (replicate 8 [0, 131071])" by code_simp
  then show ?thesis
    using tile_through_pipelines [OF unfrozen, of idle_exec 5 0 3 4 7 5 17 20 "[]"] a k by (simp add: idle_exec_def)
qed

end
