(* ===== verification/Top.thy ===== *)
theory Top
  imports Ahead Execution
begin

text \<open>
  The device between its queues (core/top.sv): the control unit, the prefetch queue and the instruction
  queue in front, the pipelines behind, and \<^verbatim>\<open>freeze\<close>, which holds all but the control unit back
  while a fetched tile is missing or the packet sender's queues are full.  The state of these queues
  is a free input of each clock.
\<close>

section \<open>One clock\<close>

record top =
  front :: core
  pipes :: exec

record top_in =
  L3_not_empty :: bool
  L3_head :: bits
  send_write_packet_queue_full :: bool
  send_prog_complete_packet_queue_full :: bool
  dma_send_read_queue_re :: bool

definition L3_cache_read_enable :: "top \<Rightarrow> bool" where
  "L3_cache_read_enable s \<longleftrightarrow> is_fetch (out_dma_instr (queue (front s)))"

definition packet_send_fifo_mem_write_command_we :: "top \<Rightarrow> bool" where
  "packet_send_fifo_mem_write_command_we s \<longleftrightarrow> is_write_back (dma_stage_3_instr (pipes s))"

definition prog_end_instr_valid :: "top \<Rightarrow> bool" where
  "prog_end_instr_valid s = out_prog_end_valid (queue (front s))"

definition dma_busy :: "top_in \<Rightarrow> top \<Rightarrow> bool" where
  "dma_busy i s \<longleftrightarrow>
     (\<not> L3_not_empty i \<and> L3_cache_read_enable s)
     \<or> (send_write_packet_queue_full i \<and> packet_send_fifo_mem_write_command_we s)
     \<or> (send_prog_complete_packet_queue_full i \<and> prog_end_instr_valid s)"

definition pipeline_input :: "top_in \<Rightarrow> top \<Rightarrow> exec_in" where
  "pipeline_input i s =
     \<lparr>freeze = dma_busy i s, cache_instr_stage_1 = out_cache_instr (queue (front s)),
      dma_stage_1_instr = out_dma_instr (queue (front s)), m_instr = out_math_instr (queue (front s)), L3_dat = L3_head i\<rparr>"

definition top_clk :: "env \<Rightarrow> u18 \<Rightarrow> bits \<Rightarrow> top_in \<Rightarrow> top \<Rightarrow> top" where
  "top_clk E W X i s =
     \<lparr>front = core_clk E W (dma_busy i s, dma_send_read_queue_re i) (front s),
      pipes = exec_clk X (pipeline_input i s) (pipes s)\<rparr>"

text \<open>The tiles it takes from the queue of fetched tiles, the tiles it hands to the packet sender with their
  addresses, and the ends of programs.\<close>

definition fetched :: "top_in \<Rightarrow> top \<Rightarrow> bits list" where
  "fetched i s = (if \<not> dma_busy i s \<and> L3_not_empty i \<and> L3_cache_read_enable s then [L3_head i] else [])"

definition written_back :: "top_in \<Rightarrow> top \<Rightarrow> (7 word \<times> bits) list" where
  "written_back i s =
     (if \<not> dma_busy i s \<and> \<not> send_write_packet_queue_full i \<and> packet_send_fifo_mem_write_command_we s
      then [(dma_main_mem_addr (dma_stage_3_instr (pipes s)), dma_stage_3_dat (pipes s))] else [])"

definition program_ends :: "top_in \<Rightarrow> top \<Rightarrow> unit list" where
  "program_ends i s =
     (if \<not> dma_busy i s \<and> \<not> send_write_packet_queue_full i \<and> prog_end_instr_valid s then [()] else [])"

section \<open>The pipelines see every pop once\<close>

definition core_ins :: "env \<Rightarrow> u18 \<Rightarrow> bits \<Rightarrow> top_in list \<Rightarrow> top \<Rightarrow> (bool \<times> bool) list" where
  "core_ins E W X is s = trace (top_clk E W X) (\<lambda>i s. [(dma_busy i s, dma_send_read_queue_re i)]) is s"

lemma core_run: "front (run (top_clk E W X) is s) = run (core_clk E W) (core_ins E W X is s) (front s)"
  by (induction "is" arbitrary: s) (simp_all add: core_ins_def top_clk_def)

text \<open>The inputs of the pipelines in the clocks that are not frozen.\<close>

definition unfrozen_ins :: "env \<Rightarrow> u18 \<Rightarrow> bits \<Rightarrow> top_in list \<Rightarrow> top \<Rightarrow> exec_in list" where
  "unfrozen_ins E W X is s = trace (top_clk E W X) (\<lambda>i s. if dma_busy i s then [] else [pipeline_input i s]) is s"

lemma back_run: "pipes (run (top_clk E W X) is s) = run (exec_clk X) (unfrozen_ins E W X is s) (pipes s)"
  by (induction "is" arbitrary: s) (simp_all add: unfrozen_ins_def top_clk_def, simp add: exec_clk_def pipeline_input_def)

lemma unfrozen: "\<forall>i \<in> set (unfrozen_ins E W X is s). \<not> freeze i"
  by (induction "is" arbitrary: s) (simp_all add: unfrozen_ins_def pipeline_input_def)

text \<open>What is handed out, as options.\<close>

type_synonym handed = "regfile_instruction option \<times> dma_instruction option \<times> math_instr option \<times> bool"

definition handed :: "iq \<Rightarrow> handed" where
  "handed q =
     (if reg_valid (out_cache_instr q) then Some (out_cache_instr q) else None,
      if dma_valid (out_dma_instr q) then Some (out_dma_instr q) else None,
      if math_valid (out_math_instr q) then Some (out_math_instr q) else None, out_prog_end_valid q)"

text \<open>The handed instructions in the clocks that are not frozen, before and after the clock, and those of
  the pops.\<close>

definition seen :: "env \<Rightarrow> u18 \<Rightarrow> (bool \<times> bool) list \<Rightarrow> core \<Rightarrow> handed list" where
  "seen E W is c = trace (core_clk E W) (\<lambda>i c. if fst i then [] else [handed (queue c)]) is c"

definition seen_after :: "env \<Rightarrow> u18 \<Rightarrow> (bool \<times> bool) list \<Rightarrow> core \<Rightarrow> handed list" where
  "seen_after E W is c = trace (core_clk E W) (\<lambda>i c. if fst i then [] else [handed (queue (core_clk E W i c))]) is c"

definition popped :: "env \<Rightarrow> u18 \<Rightarrow> (bool \<times> bool) list \<Rightarrow> core \<Rightarrow> bool list" where
  "popped E W is c = trace (core_clk E W) (\<lambda>i c. if fst i then [] else [\<not> empty (queue c)]) is c"

definition pop_outs :: "iq_in list \<Rightarrow> iq \<Rightarrow> handed list" where
  "pop_outs js q = trace iq_clk (\<lambda>i q. if q_re i then [handed (iq_clk i q)] else []) js q"

definition quiet_when_empty :: "core \<Rightarrow> bool" where
  "quiet_when_empty c \<longleftrightarrow> (empty (queue c) \<longrightarrow> no_output (queue c))"

abbreviation nothing :: handed where
  "nothing \<equiv> (None, None, None, False)"

lemma handed_nothing: "no_output q \<Longrightarrow> handed q = nothing"
  by (simp add: handed_def no_output_def)

lemma not_popped:
  assumes "\<not> q_re i" and "empty q \<longrightarrow> no_output q"
  shows "handed (iq_clk i q) = handed q"
  using assms by (auto simp: handed_def iq_clk_def Let_def no_output_def)

lemma seen_shift:
  "always (core_clk E W) (\<lambda>i c. quiet_when_empty c) is c \<Longrightarrow>
     seen E W is c @ [handed (queue (run (core_clk E W) is c))] = handed (queue c) # seen_after E W is c"
proof (induction "is" arbitrary: c)
  case (Cons i "is")
  let ?c = "core_clk E W i c"
  have IH: "seen E W is ?c @ [handed (queue (run (core_clk E W) is ?c))] = handed (queue ?c) # seen_after E W is ?c"
    using Cons by simp
  show ?case
  proof (cases "fst i")
    case True
    have "\<not> q_re (queue_input (fst i) c)" using True by (simp add: queue_input_def Let_def q_re_wire_def)
    then have "handed (queue ?c) = handed (queue c)"
      using Cons.prems by (simp add: core_clk_def not_popped quiet_when_empty_def)
    then show ?thesis using IH True by (simp add: seen_def seen_after_def)
  next
    case False
    then show ?thesis using IH by (simp add: seen_def seen_after_def)
  qed
qed (simp add: seen_def seen_after_def)

text \<open>Between the pops there is nothing.\<close>

fun spread :: "bool list \<Rightarrow> handed list \<Rightarrow> handed list" where
  "spread [] xs = []"
| "spread (True # fl) xs = (case xs of [] \<Rightarrow> [] | x # xs \<Rightarrow> x # spread fl xs)"
| "spread (False # fl) xs = nothing # spread fl xs"

lemma seen_spread:
  "always (core_clk E W) (\<lambda>i c. quiet_when_empty c) is c \<Longrightarrow> quiet_when_empty (run (core_clk E W) is c) \<Longrightarrow>
     seen_after E W is c = spread (popped E W is c) (pop_outs (queue_ins E W is c) (queue c))"
proof (induction "is" arbitrary: c)
  case (Cons i "is")
  let ?c = "core_clk E W i c" and ?i = "queue_input (fst i) c"
  have IH: "seen_after E W is ?c = spread (popped E W is ?c) (pop_outs (queue_ins E W is ?c) (queue ?c))"
    using Cons by simp
  have q: "queue ?c = iq_clk ?i (queue c)" and re: "q_re ?i \<longleftrightarrow> \<not> empty (queue c) \<and> \<not> fst i"
    by (simp_all add: core_clk_def) (simp add: queue_input_def Let_def q_re_wire_def)
  have idle: "handed (queue ?c) = nothing" if "empty (queue c)"
  proof -
    have "no_output (queue c)" using Cons.prems(1) that by (simp add: quiet_when_empty_def)
    moreover have "\<not> q_re ?i" using re that by simp
    ultimately show ?thesis by (simp add: q not_popped handed_nothing)
  qed
  show ?case
    using IH re idle by (auto simp: seen_after_def popped_def pop_outs_def queue_ins_def q)
qed (simp add: seen_after_def popped_def pop_outs_def)

text \<open>So there is an increasing numbering of the pops by the clocks after them.\<close>

definition numbers :: "(nat \<Rightarrow> nat) \<Rightarrow> bool list \<Rightarrow> handed list \<Rightarrow> bool" where
  "numbers g fl xs \<longleftrightarrow>
     length (spread fl xs) = length fl
     \<and> (\<forall>k < count_list fl True. g k < length fl \<and> spread fl xs ! g k = xs ! k \<and> (\<forall>k' < k. g k' < g k)
         \<and> count_list (take (g k) fl) True = k)
     \<and> (\<forall>j < length fl. spread fl xs ! j \<noteq> nothing \<longrightarrow> (\<exists>k < count_list fl True. j = g k))"

lemma numbers_True:
  assumes "numbers g fl xs"
  shows "numbers (case_nat 0 (\<lambda>k. Suc (g k))) (True # fl) (x # xs)"
proof -
  let ?h = "case_nat 0 (\<lambda>k. Suc (g k))" and ?n = "count_list fl True"
  have g: "length (spread fl xs) = length fl"
    "\<And>k. k < ?n \<Longrightarrow> g k < length fl \<and> spread fl xs ! g k = xs ! k \<and> (\<forall>k' < k. g k' < g k)
      \<and> count_list (take (g k) fl) True = k"
    "\<And>j. j < length fl \<Longrightarrow> spread fl xs ! j \<noteq> nothing \<Longrightarrow> \<exists>k < ?n. j = g k"
    using assms by (simp_all add: numbers_def)
  have "?h k < Suc (length fl) \<and> (x # spread fl xs) ! ?h k = (x # xs) ! k \<and> (\<forall>k' < k. ?h k' < ?h k)
      \<and> count_list (take (?h k) (True # fl)) True = k"
    if "k < Suc ?n" for k
    using that g(2) by (cases k) (auto split: nat.split)
  moreover have "\<exists>k < Suc ?n. j = ?h k" if j: "j < Suc (length fl)" "(x # spread fl xs) ! j \<noteq> nothing" for j
  proof (cases j)
    case 0
    then show ?thesis by (intro exI [of _ 0]) simp
  next
    case (Suc l)
    then obtain k where "k < ?n" "l = g k" using g(3) [of l] j by auto
    then show ?thesis using Suc by (intro exI [of _ "Suc k"]) simp
  qed
  ultimately show ?thesis using g(1) by (simp add: numbers_def)
qed

lemma numbers_False:
  assumes "numbers g fl xs"
  shows "numbers (\<lambda>k. Suc (g k)) (False # fl) xs"
proof -
  have "\<exists>k < count_list fl True. j = Suc (g k)" if "j < Suc (length fl)" "(nothing # spread fl xs) ! j \<noteq> nothing" for j
    using that assms by (cases j) (auto simp: numbers_def)
  then show ?thesis using assms by (simp add: numbers_def)
qed

lemma spread_index: "count_list fl True \<le> length xs \<Longrightarrow> \<exists>g. numbers g fl xs"
proof (induction fl xs rule: spread.induct)
  case (2 fl xs)
  then obtain x ys where xs: "xs = x # ys" by (cases xs) auto
  then have "\<exists>g. numbers g fl ys" using 2(1) [OF xs] 2(2) by simp
  then show ?case unfolding xs using numbers_True by blast
next
  case (3 fl xs)
  then have "\<exists>g. numbers g fl xs" by simp
  then show ?case using numbers_False by blast
qed (simp add: numbers_def)

section \<open>What the pipelines see and do\<close>

definition view :: "exec_in \<Rightarrow> regfile_instruction option \<times> dma_instruction option \<times> math_instr option" where
  "view i =
     (if reg_valid (cache_instr_stage_1 i) then Some (cache_instr_stage_1 i) else None,
      if dma_valid (dma_stage_1_instr i) then Some (dma_stage_1_instr i) else None,
      if math_valid (m_instr i) then Some (m_instr i) else None)"

definition instrs :: "handed \<Rightarrow> regfile_instruction option \<times> dma_instruction option \<times> math_instr option" where
  "instrs h = (case h of (a, b, c, d) \<Rightarrow> (a, b, c))"

lemma view_seen: "map view (unfrozen_ins E W X is s) = map instrs (seen E W (core_ins E W X is s) (front s))"
  by (induction "is" arbitrary: s)
    (simp_all add: unfrozen_ins_def seen_def core_ins_def top_clk_def pipeline_input_def view_def handed_def instrs_def)

lemma fetched_trace:
  "trace (top_clk E W X) fetched is s
     = concat (map (\<lambda>i. if is_fetch (dma_stage_1_instr i) then [L3_dat i] else []) (unfrozen_ins E W X is s))"
  by (induction "is" arbitrary: s)
    (auto simp: unfrozen_ins_def fetched_def pipeline_input_def L3_cache_read_enable_def dma_busy_def)

lemma after_snoc: "u \<le> length is \<Longrightarrow> after X (is @ js) s u = after X is s u"
  by (simp add: after_def)

definition tile_out :: "exec \<Rightarrow> (7 word \<times> bits) list" where
  "tile_out e =
     (if is_write_back (dma_stage_3_instr e) then [(dma_main_mem_addr (dma_stage_3_instr e), dma_stage_3_dat e)] else [])"

lemma written_trace:
  "trace (top_clk E W X) written_back is s
     = concat (map (\<lambda>u. tile_out (after X (unfrozen_ins E W X is s) (pipes s) u)) [0..<length (unfrozen_ins E W X is s)])"
proof (induction "is" rule: rev_induct)
  case (snoc i "is")
  let ?es = "unfrozen_ins E W X is s" and ?s = "run (top_clk E W X) is s"
  have es: "unfrozen_ins E W X (is @ [i]) s = ?es @ (if dma_busy i ?s then [] else [pipeline_input i ?s])"
    by (simp add: unfrozen_ins_def trace_snoc)
  have b: "after X ?es (pipes s) (length ?es) = pipes ?s" by (simp add: after_def back_run)
  have w: "written_back i ?s = (if dma_busy i ?s then [] else tile_out (pipes ?s))"
    by (auto simp: written_back_def tile_out_def packet_send_fifo_mem_write_command_we_def dma_busy_def)
  show ?case
  proof (cases "dma_busy i ?s")
    case True
    then show ?thesis by (simp add: es trace_snoc w snoc.IH)
  next
    case False
    then have e: "unfrozen_ins E W X (is @ [i]) s = ?es @ [pipeline_input i ?s]" by (simp add: es)
    have m: "map (\<lambda>u. tile_out (after X (?es @ [pipeline_input i ?s]) (pipes s) u)) [0..<length ?es]
        = map (\<lambda>u. tile_out (after X ?es (pipes s) u)) [0..<length ?es]"
      by (rule map_cong) (simp_all add: after_snoc)
    have "tile_out (after X (?es @ [pipeline_input i ?s]) (pipes s) (length ?es)) = written_back i ?s"
      using False by (simp add: after_snoc b w)
    then show ?thesis
      unfolding e trace_snoc snoc.IH length_append_singleton by (simp only: upt_Suc le0 if_True m map_append concat_append) simp
  qed
qed (simp add: unfrozen_ins_def)

end
