(* ===== verification/LoopTiming.thy ===== *)
theory LoopTiming
  imports Ahead
begin

text \<open>
  When the control unit pushes the instructions of a program that is one loop, and a check on the
  program's pushes alone that it is early enough for the schedule of the instruction queue.
\<close>

lemma pushes_by_add:
  "pushes_by E W u (p + q) = pushes_by E W u p @ pushes_by E W (unit_at E W u p) q"
  "unit_at E W u (p + q) = unit_at E W (unit_at E W u p) q"
  by (simp_all only: pushes_by_def unit_at_def runs_add)

text \<open>All pushes of the program.\<close>

definition loop_pushes :: "env \<Rightarrow> nat \<Rightarrow> nat \<Rightarrow> bool \<Rightarrow> nat \<Rightarrow> nat \<Rightarrow> nat \<Rightarrow> nat \<Rightarrow> push list" where
  "loop_pushes E a m ind j n w r =
     concat (map (\<lambda>r. round_pushes E a m ind j n w (header_formulas E) (header_registers E) (r * loop_step ind w)) [0..<r])"

definition all_pushes :: "env \<Rightarrow> nat \<Rightarrow> nat \<Rightarrow> bool \<Rightarrow> nat \<Rightarrow> nat \<Rightarrow> nat \<Rightarrow> push list" where
  "all_pushes E a m ind j n w = loop_pushes E a m ind j n w (rounds n (loop_step ind w)) @ [PushProgEnd]"

lemma loop_pushes_Suc:
  "loop_pushes E a m ind j n w (Suc r) = loop_pushes E a m ind j n w r
     @ round_pushes E a m ind j n w (header_formulas E) (header_registers E) (r * loop_step ind w)"
  by (simp add: loop_pushes_def)

lemma length_loop_pushes: "length (loop_pushes E a m ind j n w r) = r * m"
  by (induction r) (simp_all add: loop_pushes_Suc round_pushes_def loop_pushes_def)

lemma round_timing:
  assumes u: "waiting u" and E: "one_loop_program E a m ind j n" and "n < 262144" and "w < 262144" and "0 < w"
  defines "W \<equiv> of_nat w" and "step \<equiv> loop_step ind w"
  shows "r < rounds n step \<Longrightarrow>
      pushes_by E W u (8 + r * (3 * m + 4)) = loop_pushes E a m ind j n w r
    \<and> at_body a m ind j n (header_formulas E) (header_registers E) 0 (r * step) (unit_at E W u (8 + r * (3 * m + 4)))"
proof (induction r)
  case 0
  show ?case
    using reaches_body [OF u E, of W] by (simp add: pushes_by_def unit_at_def loop_pushes_def)
next
  case (Suc r)
  have code: "loop_code E a m ind j" using E by (simp add: one_loop_program_def Let_def)
  have step: "0 < step" using assms(5) by (simp add: step_def loop_step_def)
  have v: "r * step < n" using Suc.prems less_rounds [OF step, of r n] by simp
  have "Suc r * step < n" using Suc.prems less_rounds [OF step, of "Suc r" n] by simp
  then have more: "\<not> n - r * step \<le> loop_step ind w" by (simp add: step_def)
  have IH: "pushes_by E W u (8 + r * (3 * m + 4)) = loop_pushes E a m ind j n w r"
    "at_body a m ind j n (header_formulas E) (header_registers E) 0 (r * step) (unit_at E W u (8 + r * (3 * m + 4)))"
    using Suc by simp_all
  note one = one_round [OF IH(2) code v assms(3-5), folded W_def, folded pushes_by_def unit_at_def]
  have t: "8 + Suc r * (3 * m + 4) = (8 + r * (3 * m + 4)) + (3 * m + 4)" by simp
  have v': "Suc r * step = r * step + loop_step ind w" by (simp add: step_def)
  show ?case
    unfolding t v' pushes_by_add [of E W u "8 + r * (3 * m + 4)"] IH(1) one(1) loop_pushes_Suc
    using one(3) [OF more] by (simp only: step_def)
qed

lemma push_timing:
  assumes u: "waiting u" and E: "one_loop_program E a m ind j n" and "n < 262144" and "w < 262144" and "0 < w"
    and r: "r < rounds n (loop_step ind w)"
  shows "k \<le> m \<Longrightarrow>
      pushes_by E (of_nat w) u (8 + r * (3 * m + 4) + 3 * k) = loop_pushes E a m ind j n w r
         @ take k (round_pushes E a m ind j n w (header_formulas E) (header_registers E) (r * loop_step ind w))
    \<and> at_body a m ind j n (header_formulas E) (header_registers E) k (r * loop_step ind w)
        (unit_at E (of_nat w) u (8 + r * (3 * m + 4) + 3 * k))"
proof (induction k)
  case 0
  then show ?case using round_timing [OF u E assms(3-5), of r] r by simp
next
  case (Suc k)
  let ?W = "of_nat w" and ?t = "8 + r * (3 * m + 4) + 3 * k" and ?v = "r * loop_step ind w"
  let ?round = "round_pushes E a m ind j n w (header_formulas E) (header_registers E) ?v"
  have code: "loop_code E a m ind j" using E by (simp add: one_loop_program_def Let_def)
  have step: "0 < loop_step ind w" using assms(5) by (simp add: loop_step_def)
  have v: "?v < n" using r less_rounds [OF step, of r n] by simp
  have k: "k < m" using Suc.prems by simp
  have IH: "pushes_by E ?W u ?t = loop_pushes E a m ind j n w r @ take k ?round"
    "at_body a m ind j n (header_formulas E) (header_registers E) k ?v (unit_at E ?W u ?t)"
    using Suc by simp_all
  note one = body_instruction [OF IH(2) code k v assms(3,4), folded pushes_by_def unit_at_def]
  have "take (Suc k) ?round = take k ?round
      @ [body_push (header_formulas E) (shifted (header_formulas E) j ?v (header_registers E))
          (of_nat (min (loop_step ind w) (n - ?v))) (icache E (of_nat (a + 1 + k)))]"
    using k by (simp add: round_pushes_def take_Suc_conv_app_nth del: of_nat_add)
  moreover have t: "8 + r * (3 * m + 4) + 3 * Suc k = ?t + 3" by simp
  ultimately show ?case
    unfolding t pushes_by_add [of E ?W u ?t] IH(1) one(1) using one(2) by (simp only: append_assoc Suc_eq_plus1)
qed

lemma first_push_waits:
  assumes "waiting u" and "one_loop_program E a m ind j n" and "n < 262144" and "w < 262144" and "0 < w" and "0 < n"
  shows "pushes_by E (of_nat w) u 9 = []"
proof -
  have step: "0 < loop_step ind w" using assms(5) by (simp add: loop_step_def)
  then have "0 < rounds n (loop_step ind w)" using less_rounds [of _ 0 n] assms(6) by simp
  then have s: "pushes_by E (of_nat w) u 8 = []"
    "at_body a m ind j n (header_formulas E) (header_registers E) 0 0 (unit_at E (of_nat w) u 8)"
    using round_timing [OF assms(1-5), of 0] by (simp_all add: loop_pushes_def)
  have "pushed (cu_clk E (of_nat w) False (unit_at E (of_nat w) u 8)) = []"
    using s(2) by (simp add: at_body_def cu_clk_def cu_step_def decode_step_def Let_def pushed_def)
  moreover have "pushes_by E (of_nat w) u (Suc 8)
      = pushes_by E (of_nat w) u 8 @ pushed (cu_clk E (of_nat w) False (unit_at E (of_nat w) u 8))"
    by (simp only: unit_at_simps)
  ultimately show ?thesis using s(1) by simp
qed

text \<open>The pushes up to any clock are the first of them all.\<close>

lemma pushes_prefix:
  assumes "waiting u" and "one_loop_program E a m ind j n" and "0 < n" and "n < 262144" and "w < 262144" and "0 < w"
  shows "\<exists>rest. all_pushes E a m ind j n w = pushes_by E (of_nat w) u t @ rest"
  using one_loop_prefix [OF assms, of "replicate t False"]
  by (simp add: all_pushes_def loop_pushes_def pushes_by_def)

section \<open>The operands\<close>

lemmas kept_steps = cu_clk_def cu_step_def prepare_program_0_def prepare_program_1_def prepare_program_2_def
  decode_step_def start_new_loop_def increment_loop_def update_apu_step_def update_pc_def Let_def

lemma kept_registers:
  assumes "S s \<noteq> INSERT_TO_QUEUE"
  shows "queue_copy_count (cu_clk E W stall s) = queue_copy_count s"
    "queue_ld_st_instr (cu_clk E W stall s) = queue_ld_st_instr s"
    "queue_ram_instr (cu_clk E W stall s) = queue_ram_instr s"
    "queue_arith_instr (cu_clk E W stall s) = queue_arith_instr s"
  using assms by (cases "S s"; simp add: kept_steps del: upt_rec_numeral upt.simps)+

lemma kept_strobe:
  "S s \<noteq> INSERT_TO_QUEUE \<Longrightarrow> queue_we (cu_clk E W stall s) \<Longrightarrow> queue_we s \<or> S s = FINISH_PROGRAM_1"
  by (cases "S s") (simp_all add: kept_steps del: upt_rec_numeral upt.simps split: if_split_asm)

definition insert_ok :: "env \<Rightarrow> cu \<Rightarrow> bool" where
  "insert_ok E s \<longleftrightarrow> (S s = INSERT_TO_QUEUE \<longrightarrow> instruction_type (icache E (pc s)) \<noteq> INSTR_TYPE_LOOP)"

lemma insert_ok_clk: "insert_ok E s \<Longrightarrow> insert_ok E (cu_clk E W stall s)"
  by (cases "S s") (auto simp: insert_ok_def kept_steps split: instr_type.split if_splits)

lemma inserted:
  assumes "S s = INSERT_TO_QUEUE" and "insert_ok E s" and "length (icache E (pc s)) = 16"
  shows "\<exists>p. pushed (cu_clk E W False s) = [p] \<and> p \<noteq> PushProgEnd
     \<and> snd (entry_of p) = unat (ucast (queue_copy_count (cu_clk E W False s)) :: 5 word)"
    and "length (queue_ld_st_instr (cu_clk E W False s)) = 7" "length (queue_ram_instr (cu_clk E W False s)) = 3"
    and "length (queue_arith_instr (cu_clk E W False s)) = 9"
  using assms
  by (cases "instruction_type (icache E (pc s))";
      simp add: cu_clk_def cu_step_def insert_to_queue_def Let_def pushed_def insert_ok_def slice_def)+

lemma loop_push_counts:
  assumes "one_loop_program E a m ind j n" and "w \<le> 16" and "0 < w" and "n < 262144"
    and "p \<in> set (loop_pushes E a m ind j n w (rounds n (loop_step ind w)))"
  shows "p \<noteq> PushProgEnd" and "0 < snd (entry_of p)" and "snd (entry_of p) \<le> 16"
proof -
  have step: "0 < loop_step ind w" "loop_step ind w \<le> 16" using assms(2,3) by (simp_all add: loop_step_def)
  obtain r k where r: "r < rounds n (loop_step ind w)" "k < m"
    and p: "p = body_push (header_formulas E) (shifted (header_formulas E) j (r * loop_step ind w) (header_registers E))
          (of_nat (min (loop_step ind w) (n - r * loop_step ind w))) (icache E (of_nat (a + 1 + k)))"
    using assms(5) by (auto simp: loop_pushes_def round_pushes_def)
  have "r * loop_step ind w < n" using r(1) less_rounds [OF step(1)] by simp
  then obtain c where c: "c = min (loop_step ind w) (n - r * loop_step ind w)" "0 < c" "c \<le> 16"
    using step by simp
  have "instruction_type (icache E (of_nat (a + 1 + k))) \<noteq> INSTR_TYPE_LOOP"
    using assms(1) r(2) by (simp add: one_loop_program_def Let_def loop_code_def list_all_length)
  moreover have "unat (ucast (of_nat c :: u18) :: 5 word) = c"
    using c(2,3) by (simp add: unsigned_ucast_eq unat_of_nat take_bit_nat_eq_self)
  ultimately show "p \<noteq> PushProgEnd" "0 < snd (entry_of p)" "snd (entry_of p) \<le> 16"
    using c unfolding p c(1) [symmetric]
    by (cases "instruction_type (icache E (of_nat (a + 1 + k)))"; simp add: body_push_def Let_def)+
qed

lemma insert_ok_run: "waiting u \<Longrightarrow> insert_ok E (unit_at E W u t)"
proof (induction t)
  case (Suc t)
  then show ?case using insert_ok_clk by (simp add: unit_at_simps)
qed (simp add: unit_at_simps insert_ok_def waiting_def)

lemma args_run:
  assumes u: "waiting u" and E: "one_loop_program E a m ind j n" and n: "0 < n" "n < 262144" and w: "w \<le> 16" "0 < w"
    and "0 < m" and words: "\<And>pc. length (icache E pc) = 16"
  shows "pushes_by E (of_nat w) u t = [] \<and> \<not> queue_we (unit_at E (of_nat w) u t) \<or> args_ok (unit_at E (of_nat w) u t)"
proof (induction t)
  case 0
  then show ?case using u by (simp add: unit_at_simps waiting_def)
next
  case (Suc t)
  let ?s = "unit_at E (of_nat w) u t" and ?s' = "cu_clk E (of_nat w) False (unit_at E (of_nat w) u t)"
  let ?loop = "loop_pushes E a m ind j n w (rounds n (loop_step ind w))"
  have by_Suc: "pushes_by E (of_nat w) u (Suc t) = pushes_by E (of_nat w) u t @ pushed ?s'"
    by (simp add: unit_at_simps)
  obtain rest where rest: "?loop @ [PushProgEnd] = pushes_by E (of_nat w) u (Suc t) @ rest"
    using pushes_prefix [OF u E n, of w "Suc t"] w by (auto simp: all_pushes_def)
  note counts = loop_push_counts [OF E w n(2)]
  show ?case
  proof (cases "S ?s = INSERT_TO_QUEUE")
    case True
    note ins = inserted [OF True insert_ok_run [OF u] words]
    obtain p where p: "pushed ?s' = [p]" "p \<noteq> PushProgEnd"
      "snd (entry_of p) = unat (ucast (queue_copy_count ?s') :: 5 word)"
      using ins(1) by blast
    have "p \<in> set (?loop @ [PushProgEnd])" unfolding rest by_Suc p(1) by simp
    then have "p \<in> set ?loop" using p(2) by simp
    from counts(2,3) [OF this] have "args_ok ?s'"
      using ins(2-4) by (simp add: args_ok_def p(3) word_less_nat_alt word_le_nat_alt)
    then show ?thesis by (simp add: unit_at_simps)
  next
    case False
    note kept = kept_registers [OF False, of E "of_nat w" False]
    show ?thesis
    proof (cases "args_ok ?s")
      case True
      then have "args_ok ?s'" by (simp add: args_ok_def kept)
      then show ?thesis by (simp add: unit_at_simps)
    next
      case no_args: False
      then have none: "pushes_by E (of_nat w) u t = []" "\<not> queue_we ?s" using Suc by simp_all
      have "\<not> queue_we ?s'"
      proof
        assume "queue_we ?s'"
        then have "S ?s = FINISH_PROGRAM_1" using kept_strobe [OF False] none(2) by blast
        then have "pushed ?s' = [PushProgEnd]" by (simp add: cu_clk_def cu_step_def pushed_def)
        moreover have "0 < rounds n (loop_step ind w)"
          using less_rounds [of "loop_step ind w" 0 n] n w by (simp add: loop_step_def)
        then have "?loop \<noteq> []" using length_loop_pushes [of E a m ind j n w "rounds n (loop_step ind w)"] assms(7) by auto
        ultimately have "PushProgEnd \<in> set ?loop"
          using rest by (cases ?loop) (auto simp: by_Suc none(1))
        then show False using counts(1) by blast
      qed
      then show ?thesis using none(1) by (simp add: unit_at_simps pushed_def)
    qed
  qed
qed

section \<open>The check\<close>

lemma places_nth: "places (ps @ p # qs) new_book ! length ps = spot (fst p) (book_of ps)"
  by (simp add: places_append nth_append book_of_def)

lemma loop_early:
  assumes u: "waiting u" and E: "one_loop_program E a m ind j n" and n: "0 < n" "n < 262144" and w: "w \<le> 16" "0 < w"
    and m: "0 < m" and words: "\<And>pc. length (icache E pc) = 16"
    and es: "es = map entry_of (all_pushes E a m ind j n w)"
    and ahead: "\<And>N. 0 < N \<Longrightarrow> N < rounds n (loop_step ind w) * m \<Longrightarrow>
      N div m * (3 * m + 4) + 3 * (N mod m) + 2 \<le> places es new_book ! N"
    and small: "\<And>k. book_small (book_of (take k es))"
    and few: "\<And>y. length (filter (\<lambda>p. fst p = y) es) < 62"
  shows "early E (of_nat w) u"
  unfolding early_def
proof (intro conjI allI impI)
  let ?W = "of_nat w" and ?rs = "rounds n (loop_step ind w)"
  have prefix: "\<exists>rest. all_pushes E a m ind j n w = pushes_by E ?W u t @ rest" for t
    using pushes_prefix [OF u E n] w by simp
  show "pushes_by E ?W u 9 = []" using first_push_waits [OF u E n(2)] n(1) w by simp
  fix t
  obtain rest where rest: "all_pushes E a m ind j n w = pushes_by E ?W u t @ rest" using prefix by blast
  have "take (length (pushes_by E ?W u t)) es = map entry_of (pushes_by E ?W u t)" by (simp add: es rest)
  then show "book_small (book_of (map entry_of (pushes_by E ?W u t)))" using small by metis
  have "filter (\<lambda>p. fst p = y) es = map entry_of (filter (\<lambda>p. fst (entry_of p) = y) (pushes_by E ?W u t @ rest))" for y
    by (simp add: es rest filter_map o_def)
  then show "length (filter (\<lambda>p. fst (entry_of p) = y) (pushes_by E ?W u t)) < 62" for y
    using few [of y] by simp
  show "args_ok (unit_at E ?W u t)" if "queue_we (unit_at E ?W u t)"
  proof -
    have "pushes_by E ?W u t = [] \<Longrightarrow> \<not> queue_we (unit_at E ?W u t)"
    proof (cases t)
      case 0
      then show ?thesis using u by (simp add: unit_at_simps waiting_def)
    next
      case (Suc k)
      then show "pushes_by E ?W u t = [] \<Longrightarrow> \<not> queue_we (unit_at E ?W u t)"
        by (simp add: unit_at_simps) (simp add: pushed_def split: if_splits)
    qed
    then show ?thesis using args_run [OF u E n w m words, of t] that by blast
  qed
  fix p
  assume p: "pushed (unit_at E ?W u (Suc t)) = [p] \<and> pushes_by E ?W u t \<noteq> []"
  let ?N = "length (pushes_by E ?W u t)"
  obtain rest' where "all_pushes E a m ind j n w = pushes_by E ?W u (Suc t) @ rest'" using prefix by blast
  then have all: "all_pushes E a m ind j n w = pushes_by E ?W u t @ p # rest'" using p by (simp add: unit_at_simps)
  show "fst (entry_of p) = INSTR_TYPE_PROG_END
      \<or> Suc t \<le> spot (fst (entry_of p)) (book_of (map entry_of (pushes_by E ?W u t))) + 9"
  proof (cases "?N < ?rs * m")
    case False
    have len: "length (all_pushes E a m ind j n w) = Suc (?rs * m)" by (simp add: all_pushes_def length_loop_pushes)
    then have "?N + length rest' = ?rs * m" by (simp add: all)
    then have "length rest' = 0" using False by linarith
    then have "rest' = []" by simp
    then have "p = PushProgEnd" using all by (simp add: all_pushes_def)
    then show ?thesis by simp
  next
    case True
    let ?r = "?N div m" and ?k = "?N mod m"
    have r: "?r < ?rs" "?k < m" using True m by (simp_all add: div_less_iff_less_mult mult.commute)
    let ?T = "8 + ?r * (3 * m + 4) + 3 * Suc ?k"
    have "length (pushes_by E ?W u ?T) = ?r * m + Suc ?k"
      using push_timing [OF u E n(2) _ w(2) r(1), of "Suc ?k"] r(2) w
      by (simp add: length_loop_pushes round_pushes_def)
    also have "\<dots> = Suc ?N" by simp
    finally have more: "length (pushes_by E ?W u ?T) = Suc ?N" .
    have "length (pushes_by E ?W u ?T) \<le> length (pushes_by E ?W u t)" if le: "?T \<le> t"
    proof -
      obtain rest where "pushes_by E ?W u t = pushes_by E ?W u ?T @ rest" using pushes_by_mono [OF le] by blast
      then show ?thesis by (metis length_append le_add1)
    qed
    then have "t < ?T" unfolding more by linarith
    moreover have "spot (fst (entry_of p)) (book_of (map entry_of (pushes_by E ?W u t))) = places es new_book ! ?N"
      using places_nth [of "map entry_of (pushes_by E ?W u t)" "entry_of p" "map entry_of rest'"] by (simp add: es all)
    moreover have "0 < ?N" using p by simp
    then have "?r * (3 * m + 4) + 3 * ?k + 2 \<le> places es new_book ! ?N" using True by (rule ahead)
    ultimately show ?thesis by simp
  qed
qed

end
