(* ===== verification/Views.thy ===== *)
theory Views
  imports Top LoopTiming
begin

text \<open>
  What the pipelines of the joined device see: at the clock after each pop of the instruction queue the
  copies issued at that place, and nothing at any other clock.
\<close>

section \<open>The pops\<close>

definition handed_at :: "(nat \<times> iq_in) list \<Rightarrow> nat \<Rightarrow> handed" where
  "handed_at ps k =
     (map_option (\<lambda>a. cache_copy (snd a) (k - fst a)) (issued INSTR_TYPE_LOAD_STORE ps k),
      map_option (\<lambda>a. dma_copy (snd a) (k - fst a)) (issued INSTR_TYPE_RAM ps k),
      map_option (\<lambda>a. math_copy (snd a) (k - fst a)) (issued INSTR_TYPE_ARITHMETIC ps k),
      issued INSTR_TYPE_PROG_END ps k \<noteq> None)"

lemma pop_outs_parts:
  "map fst (pop_outs js q) = map (\<lambda>r. if reg_valid r then Some r else None) (trace iq_clk cache_outs js q)
   \<and> map (fst \<circ> snd) (pop_outs js q) = map (\<lambda>r. if dma_valid r then Some r else None) (trace iq_clk dma_outs js q)
   \<and> map (fst \<circ> snd \<circ> snd) (pop_outs js q) = map (\<lambda>r. if math_valid r then Some r else None) (trace iq_clk math_outs js q)
   \<and> map (snd \<circ> snd \<circ> snd) (pop_outs js q) = trace iq_clk prog_end_outs js q"
proof (induction js arbitrary: q)
  case (Cons j js)
  then show ?case
    by (auto simp: pop_outs_def handed_def cache_outs_def dma_outs_def math_outs_def prog_end_outs_def)
qed (simp add: pop_outs_def)

lemma map_parts_eq:
  assumes "map fst xs = map (fst \<circ> f) ns" and "map (fst \<circ> snd) xs = map (fst \<circ> snd \<circ> f) ns"
    and "map (fst \<circ> snd \<circ> snd) xs = map (fst \<circ> snd \<circ> snd \<circ> f) ns"
    and "map (snd \<circ> snd \<circ> snd) xs = map (snd \<circ> snd \<circ> snd \<circ> f) ns"
  shows "xs = map f ns"
proof (rule nth_equalityI)
  show len: "length xs = length (map f ns)" using assms(1) map_eq_imp_length_eq by fastforce
  fix k
  assume k: "k < length xs"
  have "map g xs ! k = map (g \<circ> f) ns ! k \<Longrightarrow> g (xs ! k) = g (f (ns ! k))" for g :: "_ \<Rightarrow> 'z"
    using k len by simp
  then show "xs ! k = map f ns ! k"
    using assms k len by (auto simp: prod_eq_iff o_def dest!: arg_cong [where f = "\<lambda>l. l ! k"])
qed

lemma pop_outs_issued:
  assumes "iq_start q" and "always iq_clk iq_used js q" and "always iq_clk rings_used js q"
  shows "pop_outs js q = map (handed_at (trace iq_clk iq_pushes js q)) [0..<length (filter q_re js)]"
proof (rule map_parts_eq)
  note copies = issued_copies [OF assms refl refl] and parts = pop_outs_parts [of js q]
  show "map fst (pop_outs js q) = map (fst \<circ> handed_at (trace iq_clk iq_pushes js q)) [0..<length (filter q_re js)]"
    unfolding parts [THEN conjunct1] copies [THEN conjunct1] by (simp add: handed_at_def)
  show "map (fst \<circ> snd) (pop_outs js q)
      = map (fst \<circ> snd \<circ> handed_at (trace iq_clk iq_pushes js q)) [0..<length (filter q_re js)]"
    unfolding parts [THEN conjunct2, THEN conjunct1] copies [THEN conjunct2, THEN conjunct1] by (simp add: handed_at_def)
  show "map (fst \<circ> snd \<circ> snd) (pop_outs js q)
      = map (fst \<circ> snd \<circ> snd \<circ> handed_at (trace iq_clk iq_pushes js q)) [0..<length (filter q_re js)]"
    unfolding parts [THEN conjunct2, THEN conjunct2, THEN conjunct1] copies [THEN conjunct2, THEN conjunct2, THEN conjunct1]
    by (simp add: handed_at_def)
  show "map (snd \<circ> snd \<circ> snd) (pop_outs js q)
      = map (snd \<circ> snd \<circ> snd \<circ> handed_at (trace iq_clk iq_pushes js q)) [0..<length (filter q_re js)]"
    unfolding parts [THEN conjunct2, THEN conjunct2, THEN conjunct2] copies [THEN conjunct2, THEN conjunct2, THEN conjunct2]
    by (simp add: handed_at_def)
qed

text \<open>The push that covers a place is the one issued there.\<close>

lemma apart_unique:
  "sorted_wrt apart ps \<Longrightarrow> a \<in> set ps \<Longrightarrow> b \<in> set ps \<Longrightarrow> in_instr_type (snd a) = in_instr_type (snd b) \<Longrightarrow>
     fst a \<le> k \<Longrightarrow> k < fst a + copies (snd a) \<Longrightarrow> fst b \<le> k \<Longrightarrow> k < fst b + copies (snd b) \<Longrightarrow> a = b"
  by (induction ps) (auto simp: apart_def)

lemma issued_iff:
  assumes "sorted_wrt apart ps"
  shows "issued t ps k = Some a
     \<longleftrightarrow> a \<in> set ps \<and> in_instr_type (snd a) = t \<and> fst a \<le> k \<and> k < fst a + copies (snd a)"
proof
  assume a: "a \<in> set ps \<and> in_instr_type (snd a) = t \<and> fst a \<le> k \<and> k < fst a + copies (snd a)"
  then obtain b where b: "issued t ps k = Some b" by (cases "issued t ps k") (auto simp: issued_def find_None_iff)
  then have "b \<in> set ps \<and> in_instr_type (snd b) = t \<and> fst b \<le> k \<and> k < fst b + copies (snd b)"
    by (auto simp: issued_def find_Some_iff)
  then have "b = a" using a by (intro apart_unique [OF assms]) auto
  then show "issued t ps k = Some a" using b by simp
qed (auto simp: issued_def find_Some_iff)

section \<open>The pipelines\<close>

text \<open>The numbering of the pops by the unfrozen clocks at which their copies are there: the clock after the
  one before which that many pops were made.\<close>

definition shows_copies :: "(nat \<times> iq_in) list \<Rightarrow> nat \<Rightarrow> (nat \<Rightarrow> nat) \<Rightarrow> handed list \<Rightarrow> bool" where
  "shows_copies ps n h hs \<longleftrightarrow>
     (\<forall>k < n. (\<forall>k' < k. h k' < h k) \<and> (h k < length hs \<longrightarrow> hs ! h k = handed_at ps k))
     \<and> (\<forall>x < length hs. hs ! x \<noteq> nothing \<longrightarrow> (\<exists>k < n. x = h k))"

definition counts_pops :: "bool list \<Rightarrow> nat \<Rightarrow> (nat \<Rightarrow> nat) \<Rightarrow> bool" where
  "counts_pops fl n h \<longleftrightarrow> n = count_list fl True
     \<and> (\<forall>k < n. \<exists>y < length fl. h k = Suc y \<and> count_list (take y fl) True = k)"

lemma count_popped:
  "count_list (popped E W is c) True = length (filter q_re (queue_ins E W is c))"
  by (induction "is" arbitrary: c) (simp_all add: popped_def queue_ins_def, simp add: queue_input_def Let_def q_re_wire_def)

lemma always_of_runs: "(\<And>js. P (run step js s)) \<Longrightarrow> always step (\<lambda>i s. P s) is s"
proof (induction "is" arbitrary: s)
  case (Cons i "is")
  have "P (run step js (step i s))" for js using Cons.prems [of "i # js"] by simp
  then show ?case using Cons.IH Cons.prems [of "[]"] by simp
qed simp

lemma pop_outs_append: "pop_outs (is @ js) q = pop_outs is q @ pop_outs js (run iq_clk is q)"
  by (induction "is" arbitrary: q) (simp_all add: pop_outs_def)

lemma length_pop_outs: "length (pop_outs is q) = length (filter q_re is)"
  by (induction "is" arbitrary: q) (simp_all add: pop_outs_def)

lemma queue_ins_append: "queue_ins E W (is @ js) c = queue_ins E W is c @ queue_ins E W js (run (core_clk E W) is c)"
  by (induction "is" arbitrary: c) (simp_all add: queue_ins_def)

lemma quiet_core:
  assumes "device_start (dev c)" and "iq_start (queue c)" and "early E W (control (dev c))" and "never_full E W (dev c)"
    and "no_output (queue c)"
  shows "quiet_when_empty (run (core_clk E W) is c)"
proof -
  have "on_schedule E W is c" by (rule on_schedule_run [OF assms(1-4)])
  then show ?thesis
    using empty_is_quiet [OF assms(2,5)] by (simp add: on_schedule_def Let_def quiet_when_empty_def core_parts)
qed

text \<open>The pushes may be those of any longer run.\<close>

lemma pops_issued:
  assumes "device_start (dev c)" and "iq_start (queue c)" and "early E W (control (dev c))" and "never_full E W (dev c)"
    and k: "k < length (filter q_re (queue_ins E W is c))"
  shows "pop_outs (queue_ins E W is c) (queue c) ! k
     = handed_at (trace iq_clk iq_pushes (queue_ins E W (is @ js) c) (queue c)) k"
proof -
  let ?all = "queue_ins E W (is @ js) c"
  have "on_schedule E W (is @ js) c" by (rule on_schedule_run [OF assms(1-4)])
  then have "pop_outs ?all (queue c) = map (handed_at (trace iq_clk iq_pushes ?all (queue c))) [0..<length (filter q_re ?all)]"
    by (intro pop_outs_issued [OF assms(2)]) (simp_all add: on_schedule_def Let_def)
  moreover have "pop_outs (queue_ins E W is c) (queue c) ! k = pop_outs ?all (queue c) ! k"
    using k by (simp add: queue_ins_append pop_outs_append nth_append length_pop_outs)
  moreover have "k < length (filter q_re ?all)" using k by (simp add: queue_ins_append)
  ultimately show ?thesis by simp
qed

lemma length_seen: "length (seen E W is c) = length (popped E W is c)"
  by (induction "is" arbitrary: c) (simp_all add: seen_def popped_def)

lemma handed_view:
  assumes "device_start (dev c)" and "iq_start (queue c)"
    and "early E W (control (dev c))" and "never_full E W (dev c)" and "no_output (queue c)"
  shows "\<exists>h. shows_copies (trace iq_clk iq_pushes (queue_ins E W (is @ js) c) (queue c))
       (length (filter q_re (queue_ins E W is c))) h (seen E W is c)
     \<and> counts_pops (popped E W is c) (length (filter q_re (queue_ins E W is c))) h"
proof -
  let ?hs = "seen E W is c" and ?n = "length (filter q_re (queue_ins E W is c))"
  let ?fl = "popped E W is c" and ?xs = "pop_outs (queue_ins E W is c) (queue c)"
  let ?ps = "trace iq_clk iq_pushes (queue_ins E W (is @ js) c) (queue c)"
  have quiet: "quiet_when_empty (run (core_clk E W) is c)" for "is" by (rule quiet_core [OF assms(1-5)])
  then have always: "always (core_clk E W) (\<lambda>i c. quiet_when_empty c) is c" by (rule always_of_runs)
  have shift: "?hs @ [handed (queue (run (core_clk E W) is c))] = nothing # spread ?fl ?xs"
    using seen_shift [OF always] seen_spread [OF always quiet] assms(5) by (simp add: handed_nothing)
  have hs: "?hs ! x = (nothing # spread ?fl ?xs) ! x" if "x < length ?hs" for x
    using that by (simp add: shift [symmetric] nth_append)
  have len: "length ?hs = length ?fl" by (rule length_seen)
  obtain g where g: "numbers g ?fl ?xs" using spread_index [of ?fl ?xs] by (auto simp: count_popped length_pop_outs)
  have "(\<forall>k' < k. Suc (g k') < Suc (g k)) \<and> (Suc (g k) < length ?hs \<longrightarrow> ?hs ! Suc (g k) = handed_at ?ps k)"
    if k: "k < ?n" for k
    using g k hs [of "Suc (g k)"] pops_issued [OF assms(1-4) k, of js] by (simp add: numbers_def count_popped)
  moreover have "\<exists>k < ?n. x = Suc (g k)" if x: "x < length ?hs" "?hs ! x \<noteq> nothing" for x
  proof (cases x)
    case 0
    then show ?thesis using x hs [of x] by simp
  next
    case (Suc y)
    then have "spread ?fl ?xs ! y \<noteq> nothing" using x hs [of x] by auto
    then show ?thesis using g Suc x(1) len by (auto simp: numbers_def count_popped)
  qed
  moreover have "counts_pops ?fl ?n (\<lambda>k. Suc (g k))"
    using g by (auto simp: numbers_def counts_pops_def count_popped)
  ultimately show ?thesis unfolding shows_copies_def by (intro exI [of _ "\<lambda>k. Suc (g k)"]) simp
qed

text \<open>Enough clocks for all pushes.\<close>

lemma all_pushes_in:
  assumes "device_start (dev c)" and "iq_start (queue c)" and "early E W (control (dev c))" and "never_full E W (dev c)"
    and ps_def: "ps = trace iq_clk iq_pushes (queue_ins E W is c) (queue c)"
  shows "list_all2 (\<lambda>p a. same p (snd a)) (pushes_by E W (control (dev c)) (length is - 1)) ps"
    and "map fst ps = places (map entry_of (pushes_by E W (control (dev c)) (length is - 1))) new_book"
    and "sorted_wrt apart ps"
proof -
  have s: "on_schedule E W is c" by (rule on_schedule_run [OF assms(1-4)])
  then show "list_all2 (\<lambda>p a. same p (snd a)) (pushes_by E W (control (dev c)) (length is - 1)) ps"
    "map fst ps = places (map entry_of (pushes_by E W (control (dev c)) (length is - 1))) new_book"
    by (simp_all add: on_schedule_def Let_def ps_def)
  have "iq_inv ([] @ ps) (run iq_clk (queue_ins E W is c) (queue c))"
    unfolding ps_def using s by (intro iq_inv_run iq_start_inv assms(2)) (simp add: on_schedule_def Let_def)
  then show "sorted_wrt apart ps" by (simp add: iq_inv_def)
qed

end
