(* ===== verification/Assembler.thy ===== *)
theory Assembler
  imports Bitstring Sympy Decoder
begin

text \<open>
  experiments/compiler/assembler.py: the bit packing of the Cherry instruction set, one
  definition per \<^verbatim>\<open>bit_pack_*\<close> function, over the interface of bitstring (\<open>pk\<close>
  is \<^verbatim>\<open>pack\<close>) and, for the address formulas of the program header, of sympy.  An
  IntEnum is a datatype with its integer value; an \<^verbatim>\<open>assert\<close> that fails is
  AssertionError, a comparison with None is TypeError, and a value that does not fit its
  field is the CreationError of \<^verbatim>\<open>pack\<close>.  The lemmas give, for each instruction, exactly
  when it assembles and what the control unit's decoder reads from the word.
\<close>

section \<open>Enumerations\<close>

definition LOOP_CNT_MAX :: int where
  "LOOP_CNT_MAX = 8"

definition APU_CNT_MAX :: int where
  "APU_CNT_MAX = 8"

datatype Category = MEMORY | RAM | PROCESSING | LOOP

fun category_value :: "Category \<Rightarrow> int" where
  "category_value MEMORY = 0"
| "category_value RAM = 1"
| "category_value PROCESSING = 2"
| "category_value LOOP = 3"

datatype Reg = MATMUL_INPUT | MATMUL_WEIGHTS | MATMUL_OUTPUT | MATMUL_ACC

fun reg_value :: "Reg \<Rightarrow> int" where
  "reg_value MATMUL_INPUT = 0"
| "reg_value MATMUL_WEIGHTS = 1"
| "reg_value MATMUL_OUTPUT = 2"
| "reg_value MATMUL_ACC = 3"

datatype UnaryOps = RELU | EXP | LOG | GT0

fun unary_value :: "UnaryOps \<Rightarrow> int" where
  "unary_value RELU = 0"
| "unary_value EXP = 1"
| "unary_value LOG = 2"
| "unary_value GT0 = 3"

datatype BinaryOps = ADD | SUB | MUL | DIV | MULACC | POW

fun binary_value :: "BinaryOps \<Rightarrow> int" where
  "binary_value ADD = 0"
| "binary_value SUB = 1"
| "binary_value MUL = 2"
| "binary_value DIV = 3"
| "binary_value MULACC = 4"
| "binary_value POW = 5"

datatype ReduceOps = SUM_op | MAX_op

fun reduce_value :: "ReduceOps \<Rightarrow> int" where
  "reduce_value SUM_op = 0"
| "reduce_value MAX_op = 1"

text \<open>What \<^verbatim>\<open>get_processing_category\<close> is called with: an enum member or a string.
  A value of no listed kind falls off the end and returns None.\<close>

datatype processing_op =
    UnaryOp UnaryOps
  | BinaryOp BinaryOps
  | ReduceOp ReduceOps
  | NamedOp string

definition get_processing_category :: "processing_op \<Rightarrow> int option" where
  "get_processing_category op =
     (case op of
        UnaryOp _ \<Rightarrow> Some 0
      | BinaryOp _ \<Rightarrow> Some 1
      | NamedOp s \<Rightarrow>
          if s = ''matmul'' then Some 2 else if s = ''mulacc'' then Some 3 else None
      | ReduceOp _ \<Rightarrow> Some 4)"

text \<open>A None among the values is refused by \<^verbatim>\<open>pack\<close>.\<close>

definition with_category :: "processing_op \<Rightarrow> (int \<Rightarrow> bits res) \<Rightarrow> bits res" where
  "with_category op f =
     (case get_processing_category op of None \<Rightarrow> Inl CreationError | Some c \<Rightarrow> f c)"

section \<open>Instructions\<close>

definition bit_pack_unop_instruction :: "packer \<Rightarrow> UnaryOps \<Rightarrow> bits res" where
  "bit_pack_unop_instruction pk op =
     with_category (UnaryOp op) (\<lambda>c.
       pk [UInt 2, UInt 3, UInt 2, UInt 9] [category_value PROCESSING, c, unary_value op, 0])"

definition bit_pack_binop_instruction :: "packer \<Rightarrow> BinaryOps \<Rightarrow> bool \<Rightarrow> bits res" where
  "bit_pack_binop_instruction pk op use_acc =
     with_category (BinaryOp op) (\<lambda>c.
       pk [UInt 2, UInt 3, UInt 3, UInt 1, UInt 7]
          [category_value PROCESSING, c, binary_value op, of_bool use_acc, 0])"

definition bit_pack_matmul_instruction :: "packer \<Rightarrow> bits res" where
  "bit_pack_matmul_instruction pk =
     with_category (NamedOp ''matmul'') (\<lambda>c.
       pk [UInt 2, UInt 3, UInt 11] [category_value PROCESSING, c, 0])"

definition bit_pack_mulacc_instruction :: "packer \<Rightarrow> bits res" where
  "bit_pack_mulacc_instruction pk =
     with_category (NamedOp ''mulacc'') (\<lambda>c.
       pk [UInt 2, UInt 3, UInt 11] [category_value PROCESSING, c, 0])"

definition bit_pack_reduce_instruction ::
    "packer \<Rightarrow> ReduceOps \<Rightarrow> bool \<Rightarrow> int \<Rightarrow> int \<Rightarrow> bits res" where
  "bit_pack_reduce_instruction pk op use_acc axis count =
     with_category (ReduceOp op) (\<lambda>c.
       pk [UInt 2, UInt 3, UInt 1, UInt 1, UInt 2, UInt 2, UInt 5]
          [category_value PROCESSING, c, reduce_value op, of_bool use_acc, axis, count, 0])"

definition bit_pack_copy_acc_to_output :: "bits res" where
  "bit_pack_copy_acc_to_output = Inl NotImplementedError"

definition bit_pack_zero_acc :: "bits res" where
  "bit_pack_zero_acc = Inl NotImplementedError"

text \<open>\<open>x < n\<close> on an argument that may be None.\<close>

definition none_less :: "int option \<Rightarrow> int \<Rightarrow> bool res" where
  "none_less x n = (case x of None \<Rightarrow> Inl TypeError | Some v \<Rightarrow> Inr (v < n))"

definition bit_pack_loop_instruction ::
    "packer \<Rightarrow> bool \<Rightarrow> bool option \<Rightarrow> int option \<Rightarrow> bits res" where
  "bit_pack_loop_instruction pk is_start_loop independent loop_address =
     (let word = pk [UInt 2, UInt 1, UInt 1, UInt 3, UInt 9]
                    [category_value LOOP,
                     (case independent of Some True \<Rightarrow> 1 | _ \<Rightarrow> 0),
                     of_bool is_start_loop,
                     (case loop_address of Some a \<Rightarrow> a | None \<Rightarrow> 0), 0] in
      if is_start_loop
      then bind_res (none_less loop_address LOOP_CNT_MAX) (\<lambda>ok.
             assert_res ok (assert_res (independent \<noteq> None) word))
      else assert_res (loop_address = None) (assert_res (independent = None) word))"

definition bit_pack_cache_instruction ::
    "packer \<Rightarrow> bool \<Rightarrow> int \<Rightarrow> int \<Rightarrow> Reg \<Rightarrow> bool \<Rightarrow> bool \<Rightarrow> bits res" where
  "bit_pack_cache_instruction pk is_load apu_address cache_slot target zero_flag skip_flag =
     assert_res (apu_address < APU_CNT_MAX)
       (assert_res (cache_slot < 4)
         (pk ([UInt 2, UInt 1, UInt 3, UInt 2, UInt 2] @ replicate 2 (UInt 1) @ [UInt 4])
             [category_value MEMORY, of_bool is_load, apu_address, cache_slot,
              reg_value target, of_bool zero_flag, of_bool skip_flag, 0]))"

definition bit_pack_ram_instruction ::
    "packer \<Rightarrow> bool \<Rightarrow> int \<Rightarrow> int \<Rightarrow> int \<Rightarrow> bits res" where
  "bit_pack_ram_instruction pk is_write cache_apu_address main_memory_apu_address cache_slot =
     assert_res (cache_slot < 4)
       (assert_res (cache_apu_address < APU_CNT_MAX)
         (assert_res (main_memory_apu_address < APU_CNT_MAX)
           (pk ([UInt 2, UInt 1] @ replicate 2 (UInt 3) @ [UInt 2, UInt 5])
               [category_value RAM, of_bool is_write, cache_apu_address,
                main_memory_apu_address, cache_slot, 0])))"

section \<open>The program header\<close>

text \<open>The formula of an address unit is an expression or None.\<close>

definition sympy_vars :: "string list" where
  "sympy_vars = [''i'', ''j'', ''k'', ''l'', ''m'', ''n'', ''o'', ''p'']"

definition sympy_to_list ::
    "expander \<Rightarrow> poly_coeff \<Rightarrow> poly_const \<Rightarrow> (expr \<Rightarrow> bool) \<Rightarrow> expr option \<Rightarrow> int list" where
  "sympy_to_list expand coeff nth0 truthy formula_opt =
     (case formula_opt of
        None \<Rightarrow> replicate 9 0
      | Some e \<Rightarrow>
          if \<not> truthy e then replicate 9 0
          else let f = expand e
               in map (coeff f sympy_vars) sympy_vars @ [nth0 f sympy_vars])"

definition pack_loop_entry :: "packer \<Rightarrow> int \<times> int \<Rightarrow> bits res" where
  "pack_loop_entry pk entry =
     (case entry of (iterations, jump) \<Rightarrow>
        assert_res (iterations < 262143)
          (assert_res (jump < 64) (pk [UInt 18, UInt 6] [iterations, jump])))"

definition pack_formula :: "packer \<Rightarrow> int list \<Rightarrow> bits res" where
  "pack_formula pk coefficients = pk (replicate 9 (SInt 18)) coefficients"

definition bit_pack_program_header ::
    "packer \<Rightarrow> (expr option \<Rightarrow> int list) \<Rightarrow> int list \<Rightarrow> int list \<Rightarrow> expr option list \<Rightarrow> bits res" where
  "bit_pack_program_header pk to_list loop_iteration_count loop_jump_amount apu_formulas =
     assert_res (length loop_iteration_count = 8)
      (assert_res (length loop_jump_amount = 8)
       (assert_res (length apu_formulas = 8)
        (bind_res (map_res (pack_loop_entry pk) (zip loop_iteration_count loop_jump_amount))
          (\<lambda>loops. let loop_ro_data = concat loops in
           assert_res (length loop_ro_data = 24 * 8)
            (bind_res (map_res (\<lambda>f. pack_formula pk (to_list f)) apu_formulas)
              (\<lambda>apus. let apu_ro_data = concat apus in
               assert_res (length apu_ro_data = 8 * 9 * 18)
                (let ro_data = loop_ro_data @ apu_ro_data in
                 assert_res (length ro_data = 24 * 8 + 8 * 9 * 18) (Inr ro_data))))))))"

definition bit_pack_entire_program :: "bits \<Rightarrow> bits \<Rightarrow> bits res" where
  "bit_pack_entire_program header instructions =
     assert_res (length header = 186 * 8)
      (assert_res (length instructions < 256) (Inr (header @ instructions)))"

section \<open>Every instruction, and what the hardware reads from it\<close>

text \<open>One constructor per call a program can make; the end of a loop takes no operands.\<close>

datatype instr =
    Unop UnaryOps
  | Binop BinaryOps bool
  | Matmul
  | Mulacc
  | Reduce ReduceOps bool int int
  | LoopStart bool int
  | LoopEnd
  | Cache bool int int Reg bool bool
  | Ram bool int int int

fun assemble :: "packer \<Rightarrow> instr \<Rightarrow> bits res" where
  "assemble pk (Unop op) = bit_pack_unop_instruction pk op"
| "assemble pk (Binop op acc) = bit_pack_binop_instruction pk op acc"
| "assemble pk Matmul = bit_pack_matmul_instruction pk"
| "assemble pk Mulacc = bit_pack_mulacc_instruction pk"
| "assemble pk (Reduce op acc axis count) = bit_pack_reduce_instruction pk op acc axis count"
| "assemble pk (LoopStart ind a) = bit_pack_loop_instruction pk True (Some ind) (Some a)"
| "assemble pk LoopEnd = bit_pack_loop_instruction pk False None None"
| "assemble pk (Cache ld apu slot reg z sk) = bit_pack_cache_instruction pk ld apu slot reg z sk"
| "assemble pk (Ram wr capu mapu slot) = bit_pack_ram_instruction pk wr capu mapu slot"

text \<open>The exception an out-of-range operand raises: too large an address unit, slot or loop is
  caught by an assertion; a negative one, and a reduce operand, only by \<^verbatim>\<open>pack\<close>.\<close>

fun operand_error :: "instr \<Rightarrow> py_error option" where
  "operand_error (Reduce op acc axis count) =
     (if 0 \<le> axis \<and> axis < 4 \<and> 0 \<le> count \<and> count < 4 then None else Some CreationError)"
| "operand_error (LoopStart ind a) =
     (if 8 \<le> a then Some AssertionError else if a < 0 then Some CreationError else None)"
| "operand_error (Cache ld apu slot reg z sk) =
     (if 8 \<le> apu \<or> 4 \<le> slot then Some AssertionError
      else if apu < 0 \<or> slot < 0 then Some CreationError else None)"
| "operand_error (Ram wr capu mapu slot) =
     (if 8 \<le> capu \<or> 8 \<le> mapu \<or> 4 \<le> slot then Some AssertionError
      else if capu < 0 \<or> mapu < 0 \<or> slot < 0 then Some CreationError else None)"
| "operand_error _ = None"

text \<open>What the decoder of the control unit is meant to read.\<close>

fun meaning :: "bits \<Rightarrow> instr \<Rightarrow> decoded" where
  "meaning ro (Unop op) = DArith 0 (uint_bits 2 (unary_value op) @ uint_bits 4 0)"
| "meaning ro (Binop op acc) = DArith 1 (uint_bits 3 (binary_value op) @ [acc] @ uint_bits 2 0)"
| "meaning ro Matmul = DArith 2 (uint_bits 6 0)"
| "meaning ro Mulacc = DArith 3 (uint_bits 6 0)"
| "meaning ro (Reduce op acc axis count) =
     DArith 4 (uint_bits 1 (reduce_value op) @ [acc] @ uint_bits 2 axis @ uint_bits 2 count)"
| "meaning ro (LoopStart ind a) = DLoop (loopmux a ro ind True)"
| "meaning ro LoopEnd = DLoop (loopmux 0 ro False False)"
| "meaning ro (Cache ld apu slot reg z sk) = DLoadStore ld apu slot (reg_value reg) z sk"
| "meaning ro (Ram wr capu mapu slot) = DRam wr capu mapu slot"

lemma reg_value_range [simp]: "0 \<le> reg_value r" "reg_value r < 4"
  by (cases r; simp)+

lemma unary_value_range [simp]: "0 \<le> unary_value u" "unary_value u < 4"
  by (cases u; simp)+

lemma binary_value_range [simp]: "0 \<le> binary_value b" "binary_value b < 8"
  by (cases b; simp)+

lemma reduce_value_range [simp]: "0 \<le> reduce_value d" "reduce_value d < 2"
  by (cases d; simp)+

lemma reg_value_inj: "reg_value r = reg_value r' \<longleftrightarrow> r = r'"
  by (cases r; cases r'; simp)

lemma unary_value_inj: "unary_value u = unary_value u' \<longleftrightarrow> u = u'"
  by (cases u; cases u'; simp)

lemma binary_value_inj: "binary_value b = binary_value b' \<longleftrightarrow> b = b'"
  by (cases b; cases b'; simp)

lemma reduce_value_inj: "reduce_value d = reduce_value d' \<longleftrightarrow> d = d'"
  by (cases d; cases d'; simp)

lemmas enum_inj = reg_value_inj unary_value_inj binary_value_inj reduce_value_inj

lemmas bit_pack_defs =
  bit_pack_unop_instruction_def bit_pack_binop_instruction_def bit_pack_matmul_instruction_def
  bit_pack_mulacc_instruction_def bit_pack_reduce_instruction_def bit_pack_loop_instruction_def
  bit_pack_cache_instruction_def bit_pack_ram_instruction_def with_category_def
  get_processing_category_def none_less_def LOOP_CNT_MAX_def APU_CNT_MAX_def assert_res_def Let_def

text \<open>The fields of the word of each instruction, as one list of tokens and values.\<close>

fun word_fields :: "instr \<Rightarrow> (nat \<times> int) list" where
  "word_fields (Unop op) = [(2, 2), (3, 0), (2, unary_value op), (9, 0)]"
| "word_fields (Binop op acc) = [(2, 2), (3, 1), (3, binary_value op), (1, of_bool acc), (7, 0)]"
| "word_fields Matmul = [(2, 2), (3, 2), (11, 0)]"
| "word_fields Mulacc = [(2, 2), (3, 3), (11, 0)]"
| "word_fields (Reduce op acc axis count) =
     [(2, 2), (3, 4), (1, reduce_value op), (1, of_bool acc), (2, axis), (2, count), (5, 0)]"
| "word_fields (LoopStart ind a) = [(2, 3), (1, of_bool ind), (1, 1), (3, a), (9, 0)]"
| "word_fields LoopEnd = [(2, 3), (1, 0), (1, 0), (3, 0), (9, 0)]"
| "word_fields (Cache ld apu slot reg z sk) =
     [(2, 0), (1, of_bool ld), (3, apu), (2, slot), (2, reg_value reg), (1, of_bool z),
      (1, of_bool sk), (4, 0)]"
| "word_fields (Ram wr capu mapu slot) =
     [(2, 1), (1, of_bool wr), (3, capu), (3, mapu), (2, slot), (5, 0)]"

definition word_of :: "instr \<Rightarrow> bits" where
  "word_of i = concat (map (\<lambda>(w, v). uint_bits w v) (word_fields i))"

lemma length_word_of: "length (word_of i) = 16"
  by (cases i) (simp_all add: word_of_def)

context bitstring_lib
begin

lemma assemble_eq:
  "assemble pack i =
     (case operand_error i of Some e \<Rightarrow> Inl e | None \<Rightarrow> Inr (word_of i))"
  by (cases i)
    (auto simp: bit_pack_defs pack_eq word_of_def numeral_2_eq_2 split: bool.split)

end


text \<open>The decoder reads back the operands of every instruction that assembles.\<close>

lemma decode_word_of:
  assumes "operand_error i = None"
  shows "decode ro (word_of i) = meaning ro i"
  using assms
  by (cases i)
    (simp_all add: word_of_def decode_def instruction_type_def slice_simps bits_uint_small
      nth_append nth_Cons' split: if_splits)

lemma meaning_inj:
  assumes "operand_error i = None" and "operand_error j = None"
    and "meaning ro i = meaning ro j"
  shows "i = j"
  using assms
  by (cases i; cases j)
    (auto simp: enum_inj uint_bits_inj_iff loopmux_def Let_def split: if_splits)


section \<open>The program header\<close>

definition loop_entry_ok :: "int \<times> int \<Rightarrow> bool" where
  "loop_entry_ok x \<longleftrightarrow> 0 \<le> fst x \<and> fst x < 262143 \<and> 0 \<le> snd x \<and> snd x < 64"

definition coefficient_ok :: "int \<Rightarrow> bool" where
  "coefficient_ok c \<longleftrightarrow> - 131072 \<le> c \<and> c < 131072"

definition loop_entry_bits :: "int \<times> int \<Rightarrow> bits" where
  "loop_entry_bits x = uint_bits 18 (fst x) @ uint_bits 6 (snd x)"

definition formula_bits :: "int list \<Rightarrow> bits" where
  "formula_bits cs = concat (map (uint_bits 18) cs)"

definition header_bits :: "(int \<times> int) list \<Rightarrow> int list list \<Rightarrow> bits" where
  "header_bits loops formulas =
     concat (map loop_entry_bits loops) @ concat (map formula_bits formulas)"

lemma length_loop_entry_bits [simp, codec_simps]: "length (loop_entry_bits x) = 24"
  by (simp add: loop_entry_bits_def)

lemma length_formula_bits [simp, codec_simps]: "length (formula_bits cs) = length cs * 18"
  by (induction cs) (simp_all add: formula_bits_def)

lemma length_sympy_to_list [simp, codec_simps]: "length (sympy_to_list ex co n0 tr f) = 9"
  by (auto simp: sympy_to_list_def sympy_vars_def Let_def split: option.split)

lemma length_loop_bits: "length (concat (map loop_entry_bits xs)) = 24 * length xs"
  by (induction xs) simp_all

lemma length_formulas_bits:
  "\<forall>cs\<in>set css. length cs = 9 \<Longrightarrow> length (concat (map formula_bits css)) = 162 * length css"
  by (induction css) simp_all

context bitstring_lib
begin

lemma pack_loop_entry_Inr_iff:
  "pack_loop_entry pack x = Inr bs \<longleftrightarrow> loop_entry_ok x \<and> bs = loop_entry_bits x"
  by (cases x) (auto simp: pack_loop_entry_def assert_res_Inr_iff pack_Inr_iff loop_entry_ok_def
      loop_entry_bits_def)

lemma pack_formula_Inr_iff:
  "length cs = 9 \<Longrightarrow>
     pack_formula pack cs = Inr bs \<longleftrightarrow> list_all coefficient_ok cs \<and> bs = formula_bits cs"
proof -
  have "token_fits (SInt 18) = coefficient_ok"
    by (auto simp: fun_eq_iff coefficient_ok_def)
  then show "length cs = 9 \<Longrightarrow> ?thesis"
    using fits_replicate [of cs "SInt 18"] layout_replicate(2) [of cs 18]
    by (simp add: pack_formula_def pack_Inr_iff formula_bits_def)
qed

lemma map_res_pack_loop_entry:
  "map_res (pack_loop_entry pack) xs = Inr bss \<longleftrightarrow>
     list_all loop_entry_ok xs \<and> bss = map loop_entry_bits xs"
  by (induction xs arbitrary: bss) (auto simp: bind_res_Inr_iff pack_loop_entry_Inr_iff)

lemma map_res_pack_formula:
  "(\<And>f. length (to_list f) = 9) \<Longrightarrow>
     map_res (\<lambda>f. pack_formula pack (to_list f)) fs = Inr bss \<longleftrightarrow>
       (\<forall>f\<in>set fs. list_all coefficient_ok (to_list f)) \<and>
       bss = map (\<lambda>f. formula_bits (to_list f)) fs"
  by (induction fs arbitrary: bss) (auto simp: bind_res_Inr_iff pack_formula_Inr_iff)

text \<open>Exactly which headers assemble, and to what bits.\<close>

lemma header_Inr_iff:
  assumes to_list: "\<And>f. length (to_list f) = 9"
  shows "bit_pack_program_header pack to_list its jumps fs = Inr h \<longleftrightarrow>
     length its = 8 \<and> length jumps = 8 \<and> length fs = 8 \<and>
     list_all loop_entry_ok (zip its jumps) \<and>
     (\<forall>f\<in>set fs. list_all coefficient_ok (to_list f)) \<and>
     h = header_bits (zip its jumps) (map to_list fs)"
  using to_list length_loop_bits [of "zip its jumps"] length_formulas_bits [of "map to_list fs"]
  by (auto simp: bit_pack_program_header_def res_Inr_iffs map_res_pack_loop_entry Let_def
      map_res_pack_formula [OF to_list] header_bits_def comp_def)

end

text \<open>The pieces of a header.\<close>

lemma header_loop_piece:
  assumes "length loops = 8" and "k < 8"
  shows "part (k * 24) 24 (ro_loops (header_bits loops fs)) = loop_entry_bits (loops ! k)"
proof -
  have "take 192 (header_bits loops fs) = concat (map loop_entry_bits loops)"
    using assms length_loop_bits [of loops] by (simp add: header_bits_def)
  then show ?thesis
    using piece_concat_map [of loops loop_entry_bits 24 k] assms
    by (simp add: ro_loops_def part_def)
qed

lemma header_formula_piece:
  assumes "length loops = 8" and "\<forall>cs\<in>set fs. length cs = 9" and "k < length fs"
  shows "part (192 + k * 162) 162 (header_bits loops fs) = formula_bits (fs ! k)"
proof -
  have "drop (192 + k * 162) (header_bits loops fs) = drop (k * 162) (concat (map formula_bits fs))"
    using assms length_loop_bits [of loops] by (simp add: header_bits_def)
  then show ?thesis
    using piece_concat_map [of fs formula_bits 162 k] assms
    by (simp add: part_def)
qed

lemma formula_coefficient:
  "v < length cs \<Longrightarrow> part (v * 18) 18 (formula_bits cs) = uint_bits 18 (cs ! v)"
  using piece_concat_map [of cs "uint_bits 18" 18 v] by (simp add: part_def formula_bits_def)

lemma word_of_field: "(word_of_int (bits_uint (uint_bits 18 c)) :: u18) = word_of_int c"
  by (simp add: bits_uint_uint_bits word_of_int_eq_iff)

text \<open>What the control unit loads from a header: the constant and the coefficients.\<close>

lemma header_registers:
  assumes "length loops = 8" and "length fs = 8" and "\<forall>cs\<in>set fs. length cs = 9" and "k < 8"
  shows "apu_address_registers (header_bits loops fs) ! k = word_of_int (fs ! k ! 8)"
    and "v < 8 \<Longrightarrow> daddr_di (apu_linear_formulas (header_bits loops fs) ! k) v = word_of_int (fs ! k ! v)"
proof -
  let ?h = "header_bits loops fs"
  have len: "length (fs ! k) = 9" using assms by simp
  have f: "part (192 + k * 162) 162 ?h = formula_bits (fs ! k)"
    using assms by (intro header_formula_piece) auto
  have "part (192 + k * 162 + 144) 18 ?h = part 144 18 (part (192 + k * 162) 162 ?h)"
    by (simp add: part_part add.commute add.left_commute)
  also have "\<dots> = uint_bits 18 (fs ! k ! 8)"
    using formula_coefficient [of 8 "fs ! k"] len by (simp add: f)
  finally show "apu_address_registers ?h ! k = word_of_int (fs ! k ! 8)"
    using assms(4) by (simp add: apu_registers_nth word_of_field)
  assume v: "v < 8"
  have "part (v * 18) 18 (apu_linear_formulas ?h ! k) = part (v * 18 + (192 + k * 162)) 18 ?h"
    using assms(4) v by (simp add: apu_registers_nth part_part)
  also have "\<dots> = part (v * 18) 18 (part (192 + k * 162) 162 ?h)"
    using v by (simp add: part_part)
  also have "\<dots> = uint_bits 18 (fs ! k ! v)"
    using formula_coefficient [of v "fs ! k"] len v by (simp add: f)
  finally show "daddr_di (apu_linear_formulas ?h ! k) v = word_of_int (fs ! k ! v)"
    by (simp add: daddr_di_def word_of_field)
qed

text \<open>The coefficient list of a formula over the loop variables.\<close>

lemma length_sympy_vars [simp]: "length sympy_vars = 8" "distinct sympy_vars"
  by (simp_all add: sympy_vars_def)

context sympy_lib
begin

lemma sympy_to_list_nth:
  assumes "set (syms e) \<subseteq> set sympy_vars"
  shows "v < 8 \<Longrightarrow>
           sympy_to_list expand coeff_monomial nth_zero truthy (Some e) ! v = coef1 (sympy_vars ! v) e"
    and "sympy_to_list expand coeff_monomial nth_zero truthy (Some e) ! 8 = coef0 e"
proof -
  have s: "set (syms (expand e)) \<subseteq> set sympy_vars"
    using assms expand_syms [of e] by blast
  show "v < 8 \<Longrightarrow>
          sympy_to_list expand coeff_monomial nth_zero truthy (Some e) ! v = coef1 (sympy_vars ! v) e"
    using truthy_zero [of e] coeff_monomial [OF s]
    by (auto simp: sympy_to_list_def Let_def nth_append expand_coef1)
  show "sympy_to_list expand coeff_monomial nth_zero truthy (Some e) ! 8 = coef0 e"
    using truthy_zero [of e] nth_zero [OF s]
    by (auto simp: sympy_to_list_def Let_def nth_append expand_coef0)
qed

end


section \<open>Properties\<close>

lemmas std_axioms = std.bitstring_lib_axioms std_sympy.sympy_lib_axioms

text \<open>C23. Every instruction the assembler accepts is one 16-bit word, and the decoder of the
  control unit reads back from it exactly the operands the instruction was assembled from.\<close>

theorem assembled_word_decodes:
  assumes "bitstring_lib pk un bv" and "assemble pk i = Inr w"
  shows "length w = 16 \<and> decode ro w = meaning ro i"
  using assms bitstring_lib.assemble_eq [OF assms(1), of i]
  by (auto simp: length_word_of decode_word_of split: option.splits)

theorem assembled_word_decodes_witness:
  "\<exists>w. assemble std_pack (Ram True 0 2 1) = Inr w \<and> length w = 16 \<and> decode [] w = DRam True 0 2 1"
proof -
  have "assemble std_pack (Ram True 0 2 1) = Inr (word_of (Ram True 0 2 1))"
    using std.assemble_eq [of "Ram True 0 2 1"] by simp
  then show ?thesis
    using assembled_word_decodes [OF std_axioms(1), of "Ram True 0 2 1" _ "[]"] by auto
qed

text \<open>C24. An instruction assembles exactly when its operands are in range.  An address unit, cache slot
  or loop number that is too large fails an assertion; otherwise a negative one is refused by the field width, and
  so is a reduce operand that does not fit, which no assertion checks.\<close>

theorem assemble_outcome:
  assumes "bitstring_lib pk un bv"
  shows "case operand_error i of
           Some e \<Rightarrow> assemble pk i = Inl e
         | None \<Rightarrow> \<exists>w. assemble pk i = Inr w \<and> length w = 16"
  using bitstring_lib.assemble_eq [OF assms, of i]
  by (auto simp: length_word_of split: option.split)

theorem assemble_outcome_witness:
  "assemble std_pack (Cache True 8 0 MATMUL_ACC False False) = Inl AssertionError
   \<and> assemble std_pack (Cache True (- 1) 0 MATMUL_ACC False False) = Inl CreationError
   \<and> (\<forall>op. assemble std_pack (Reduce op False 4 0) = Inl CreationError)"
  using assemble_outcome [OF std_axioms(1), of "Cache True 8 0 MATMUL_ACC False False"]
    assemble_outcome [OF std_axioms(1), of "Cache True (- 1) 0 MATMUL_ACC False False"]
    assemble_outcome [OF std_axioms(1), of "Reduce _ False 4 0"]
  by simp

lemma length_header_bits:
  "length loops = 8 \<Longrightarrow> length fs = 8 \<Longrightarrow> \<forall>cs\<in>set fs. length cs = 9 \<Longrightarrow>
     length (header_bits loops fs) = 186 * 8"
  by (simp add: header_bits_def length_loop_bits length_formulas_bits)

text \<open>C25. A header assembles exactly when it has eight loops and eight formulas, every iteration
  count is below 262143, every jump below 64, none of them is negative, and every coefficient
  fits 18 bits signed; it is then 186 bytes long.\<close>

theorem header_accepted_iff:
  assumes "bitstring_lib pk un bv"
  shows "(\<exists>h. bit_pack_program_header pk (sympy_to_list ex co n0 tr) its jumps fs = Inr h
              \<and> length h = 186 * 8)
     \<longleftrightarrow> length its = 8 \<and> length jumps = 8 \<and> length fs = 8
         \<and> list_all loop_entry_ok (zip its jumps)
         \<and> list_all (\<lambda>f. list_all coefficient_ok (sympy_to_list ex co n0 tr f)) fs"
  using bitstring_lib.header_Inr_iff [OF assms, of "sympy_to_list ex co n0 tr" its jumps fs]
    length_header_bits [of "zip its jumps" "map (sympy_to_list ex co n0 tr) fs"]
  by (auto simp: list_all_iff)

theorem header_accepted_iff_witness:
  "(\<nexists>h. bit_pack_program_header std_pack (sympy_to_list id (\<lambda>e gens v. coef1 v e) (\<lambda>e gens. coef0 e) std_truthy)
        (replicate 8 262143) (replicate 8 0) (replicate 8 None) = Inr h \<and> length h = 186 * 8)"
  using header_accepted_iff [OF std_axioms(1), of id "\<lambda>e gens v. coef1 v e" "\<lambda>e gens. coef0 e"
      std_truthy "replicate 8 262143" "replicate 8 0" "replicate 8 None"]
  by (simp add: list_all_iff loop_entry_ok_def)

text \<open>C26. The hardware reads from an assembled header, for each of the eight loops, the iteration
  count and the jump amount that were given for it.\<close>

theorem header_loop_roundtrip:
  assumes "bitstring_lib pk un bv"
    and "bit_pack_program_header pk (sympy_to_list ex co n0 tr) its jumps fs = Inr h"
    and "k < 8"
  shows "loopmux (int k) (ro_loops h) ind new =
           \<lparr>is_new_loop = new, iteration_count = its ! k, jump_amount = jumps ! k,
            is_independent = ind, loop_name = int k\<rparr>"
proof -
  have h: "h = header_bits (zip its jumps) (map (sympy_to_list ex co n0 tr) fs)"
    and ok: "list_all loop_entry_ok (zip its jumps)" "length its = 8" "length jumps = 8"
    using assms(2) bitstring_lib.header_Inr_iff [OF assms(1)] by simp_all
  have "loop_entry_ok (its ! k, jumps ! k)"
    using ok assms(3) by (auto simp: list_all_length)
  then show ?thesis
    using header_loop_piece [of "zip its jumps" k] ok assms(3)
    by (simp add: h loopmux_def loop_entry_bits_def loop_entry_ok_def bits_uint_small Let_def)
qed

text \<open>C27. Whatever loop updates the control unit performs, the address register of an affine formula
  holds the value of that formula, modulo \<open>2 ^ 18\<close>, at the current loop variables.\<close>

theorem apu_tracks_formula:
  assumes "bitstring_lib pk un bv" and "sympy_lib ex co n0 tr"
    and "bit_pack_program_header pk (sympy_to_list ex co n0 tr) its jumps fs = Inr h"
    and "k < 8" and "fs ! k = Some e" and "affine e" and "set (syms e) \<subseteq> set sympy_vars"
    and "\<forall>u\<in>set us. fst u < 8"
    and "\<forall>v<8. word_of_int (env (sympy_vars ! v)) = moved us v"
  shows "update_apus (apu_linear_formulas h) us (apu_address_registers h) ! k
           = word_of_int (eval env e)"
proof -
  let ?l = "sympy_to_list ex co n0 tr"
  have h: "h = header_bits (zip its jumps) (map ?l fs)"
    and len: "length its = 8" "length jumps = 8" "length fs = 8"
    using assms(3) bitstring_lib.header_Inr_iff [OF assms(1)] by simp_all
  note regs = header_registers [of "zip its jumps" "map ?l fs" k]
  note coeffs = sympy_lib.sympy_to_list_nth [OF assms(2,7)]
  have "update_apus (apu_linear_formulas h) us (apu_address_registers h) ! k =
      word_of_int (coef0 e) + (\<Sum>v\<leftarrow>[0..<8]. moved us v * daddr_di (apu_linear_formulas h ! k) v)"
    using update_apus_nth [of "apu_address_registers h" "apu_linear_formulas h" k us] regs(1)
      assms(4,5,8) len coeffs(2)
    by (simp add: h)
  also have "(\<Sum>v\<leftarrow>[0..<8]. moved us v * daddr_di (apu_linear_formulas h ! k) v) =
      (\<Sum>v\<leftarrow>[0..<8]. word_of_int (coef1 (sympy_vars ! v) e * env (sympy_vars ! v)))"
    using regs(2) assms(4,5,9) len coeffs(1)
    by (intro arg_cong [where f = sum_list] map_cong) (auto simp: h mult.commute)
  also have "\<dots> = word_of_int (\<Sum>v\<leftarrow>sympy_vars. coef1 v e * env v)"
    by (simp add: sympy_vars_def upt_rec)
  finally show ?thesis
    using affine_eval [OF assms(6,7), of env] by (simp add: add.commute)
qed


definition example_formulas :: "expr option list" where
  "example_formulas = Some (Add (Const 256) (Sym ''i'')) # replicate 7 None"

abbreviation std_to_list :: "expr option \<Rightarrow> int list" where
  "std_to_list \<equiv> sympy_to_list id (\<lambda>e gens v. coef1 v e) (\<lambda>e gens. coef0 e) std_truthy"

lemma example_header:
  "\<exists>h. bit_pack_program_header std_pack std_to_list (256 # replicate 7 0) (6 # replicate 7 0)
          example_formulas = Inr h \<and> length h = 186 * 8"
proof -
  have "header_bits (zip (256 # replicate 7 0) (6 # replicate 7 0)) (map std_to_list example_formulas)
      \<in> {h. bit_pack_program_header std_pack std_to_list (256 # replicate 7 0) (6 # replicate 7 0)
              example_formulas = Inr h}"
    unfolding mem_Collect_eq
    by (subst std.header_Inr_iff [OF length_sympy_to_list])
      (simp_all add: example_formulas_def list_all_iff loop_entry_ok_def coefficient_ok_def
        sympy_to_list_def sympy_vars_def std_truthy_def Let_def)
  then show ?thesis
    using length_header_bits [of "zip (256 # replicate 7 0) (6 # replicate 7 0)"
        "map std_to_list example_formulas"]
    by (auto simp: example_formulas_def)
qed

theorem apu_tracks_formula_witness:
  "\<exists>h. bit_pack_program_header std_pack std_to_list (256 # replicate 7 0) (6 # replicate 7 0)
          example_formulas = Inr h
       \<and> update_apus (apu_linear_formulas h) [(0, 1), (0, 1)] (apu_address_registers h) ! 0 = 258"
proof -
  obtain h where h: "bit_pack_program_header std_pack std_to_list (256 # replicate 7 0)
      (6 # replicate 7 0) example_formulas = Inr h"
    using example_header by blast
  let ?env = "\<lambda>v. if v = ''i'' then 2 else (0::int)"
  have "\<forall>v<8. word_of_int (?env (sympy_vars ! v)) = moved [(0, 1), (0, 1)] v"
    by (simp add: sympy_vars_def moved_def nth_Cons' less_Suc_eq numeral_eq_Suc)
  then have "update_apus (apu_linear_formulas h) [(0, 1), (0, 1)] (apu_address_registers h) ! 0
      = word_of_int (eval ?env (Add (Const 256) (Sym ''i'')))"
    using apu_tracks_formula [OF std_axioms h, of 0 _ "[(0, 1), (0, 1)]" ?env]
    by (simp add: example_formulas_def sympy_vars_def)
  with h show ?thesis by auto
qed

theorem header_loop_roundtrip_witness:
  "\<exists>h. bit_pack_program_header std_pack std_to_list (256 # replicate 7 0) (6 # replicate 7 0)
          example_formulas = Inr h
       \<and> loopmux 0 (ro_loops h) True True =
           \<lparr>is_new_loop = True, iteration_count = 256, jump_amount = 6, is_independent = True,
            loop_name = 0\<rparr>"
proof -
  obtain h where h: "bit_pack_program_header std_pack std_to_list (256 # replicate 7 0)
      (6 # replicate 7 0) example_formulas = Inr h"
    using example_header by blast
  then show ?thesis
    using header_loop_roundtrip [OF std_axioms(1) h, of 0 True True] by simp
qed

text \<open>The assembler never checks that a formula is affine: the product of two loop variables
  contributes nothing to the packed coefficients, so a formula with such a term assembles to the
  same header as the formula without it.\<close>

theorem nonlinear_terms_dropped:
  assumes "sympy_lib ex co n0 tr" and "set (syms e) \<subseteq> set sympy_vars"
    and "u \<in> set sympy_vars" and "v \<in> set sympy_vars"
  shows "sympy_to_list ex co n0 tr (Some (Add e (Mul (Sym u) (Sym v))))
           = sympy_to_list ex co n0 tr (Some e)"
proof (rule nth_equalityI)
  let ?p = "Add e (Mul (Sym u) (Sym v))"
  have p: "set (syms ?p) \<subseteq> set sympy_vars" using assms by auto
  fix n assume "n < length (sympy_to_list ex co n0 tr (Some ?p))"
  then have "n < 8 \<or> n = 8" by auto
  then show "sympy_to_list ex co n0 tr (Some ?p) ! n = sympy_to_list ex co n0 tr (Some e) ! n"
    using sympy_lib.sympy_to_list_nth [OF assms(1) p] sympy_lib.sympy_to_list_nth [OF assms(1,2)]
    by auto
qed simp

theorem nonlinear_terms_dropped_witness:
  "std_to_list (Some (Add (Sym ''i'') (Mul (Sym ''i'') (Sym ''j'')))) = std_to_list (Some (Sym ''i''))"
  by (rule nonlinear_terms_dropped [OF std_axioms(2)]) (simp_all add: sympy_vars_def)

text \<open>A program of whole instructions is accepted exactly when it has at most fifteen of them:
  the length that the last assertion compares with 256 is a number of bits, not the number of
  instructions its message speaks of.\<close>

theorem entire_program_limit:
  assumes "bitstring_lib pk un bv" and "length h = 186 * 8"
    and "map_res (assemble pk) is = Inr ws"
  shows "bit_pack_entire_program h (concat ws) =
           (if length is \<le> 15 then Inr (h @ concat ws) else Inl AssertionError)"
proof -
  have "length w = 16" if "w \<in> set ws" for w
  proof -
    from that obtain n where "n < length ws" "w = ws ! n" by (auto simp: in_set_conv_nth)
    then have "w = word_of (is ! n)"
      using map_res_nth [OF assms(3), of n] map_res_length [OF assms(3)]
        bitstring_lib.assemble_eq [OF assms(1)]
      by (auto split: option.splits)
    then show ?thesis by (simp add: length_word_of)
  qed
  then have "length (concat ws) = length is * 16"
    using length_concat_same [of ws 16] map_res_length [OF assms(3)] by simp
  then show ?thesis
    using assms(2) by (auto simp: bit_pack_entire_program_def assert_res_def)
qed

theorem entire_program_limit_witness:
  "bit_pack_entire_program (replicate 1488 False) (concat (replicate 16 (word_of Matmul)))
     = Inl AssertionError"
proof -
  have "map_res (assemble std_pack) (replicate 16 Matmul) = Inr (map word_of (replicate 16 Matmul))"
    using std.assemble_eq [of Matmul] by (intro map_res_Inr) simp
  then show ?thesis
    using entire_program_limit [OF std_axioms(1), of "replicate 1488 False" "replicate 16 Matmul"]
    by simp
qed

end
