(* ===== verification/PacketReceiver.thy ===== *)
theory PacketReceiver
  imports Prelude
begin

text \<open>
  core/Dma/PacketReceiver.sv: the state machine of the device that takes the host's packets, one
  byte at a time.  \<open>clk s rx\<close> is one edge of the clock; \<open>rx\<close> is the byte that
  \<^verbatim>\<open>rx_interrupt\<close> announces, or None.  Right-hand sides read the registers before the
  edge, and the last assignment to a register wins.  The strobes after the edge are the events
  that the rest of the device sees.  The two shift registers are bit lists, most significant bit
  first.
\<close>

section \<open>Devices that ignore an idle clock\<close>

text \<open>
  A device whose idle clock only clears its strobes: what it reports depends on the bytes, not on
  when they come.
\<close>

fun feed :: "('s \<Rightarrow> byte option \<Rightarrow> 's) \<Rightarrow> ('s \<Rightarrow> 'e list) \<Rightarrow> 's \<Rightarrow> byte option list \<Rightarrow> 'e list \<times> 's" where
  "feed step out s [] = ([], s)"
| "feed step out s (rx # rxs) =
     (let s1 = step s rx in (out s1 @ fst (feed step out s1 rxs), snd (feed step out s1 rxs)))"

locale byte_sink =
  fixes step :: "'s \<Rightarrow> byte option \<Rightarrow> 's" and clear :: "'s \<Rightarrow> 's" and out :: "'s \<Rightarrow> 'e list"
  assumes idle: "step s None = clear s"
    and step_clear: "step (clear s) rx = step s rx"
    and out_clear: "out (clear s) = []"
begin

lemma clear_clear: "clear (clear s) = clear s"
  using idle [of "clear s"] step_clear [of s None] idle [of s] by simp

lemma feed_append:
  "feed step out s (xs @ ys) =
     (fst (feed step out s xs) @ fst (feed step out (snd (feed step out s xs)) ys),
      snd (feed step out (snd (feed step out s xs)) ys))"
  by (induction xs arbitrary: s) (simp_all add: Let_def)

lemma feed_clear:
  "fst (feed step out (clear s) xs) = fst (feed step out s xs)"
  "clear (snd (feed step out (clear s) xs)) = clear (snd (feed step out s xs))"
  by (cases xs; simp add: step_clear clear_clear)+

text \<open>Idle clocks between the bytes change neither the events nor, up to the strobes, the state.\<close>

lemma feed_gaps:
  "fst (feed step out s xs) = fst (feed step out s (map Some (List.map_filter (\<lambda>x. x) xs)))
   \<and> clear (snd (feed step out s xs)) = clear (snd (feed step out s (map Some (List.map_filter (\<lambda>x. x) xs))))"
proof (induction xs arbitrary: s)
  case (Cons rx xs)
  show ?case
    using Cons.IH [of "step s rx"] feed_clear [of s "map Some (List.map_filter (\<lambda>x. x) xs)"]
    by (cases rx) (simp_all add: map_filter_simps idle out_clear Let_def)
qed (simp add: map_filter_simps)

end

section \<open>The receiver\<close>

datatype receiver_state = IDLE | UPLOAD_PROG_PACKET | ENQUEUE_PROG_PACKET | DATA_READ_RESULT_PACKET

record receiver =
  S :: receiver_state
  instr_MSB :: bool
  counter :: "16 word"
  packet_instr_count :: "6 word"
  mem_read_result_stb :: bool
  mem_read_result_matrix_tile :: bits
  upload_program_ro_data_stb :: bool
  upload_program_instr_stb :: bool
  upload_program_instr_addr :: "16 word"
  upload_program_instr_dat :: "16 word"
  enqueue_program_stb :: bool
  enqueue_program_dat :: bits

text \<open>Assignments to the halves \<^verbatim>\<open>[15:8]\<close> and \<^verbatim>\<open>[7:0]\<close> of a 16-bit register.\<close>

definition set_high :: "byte \<Rightarrow> 16 word \<Rightarrow> 16 word" where
  "set_high b w = word_cat b (ucast w :: byte)"

definition set_low :: "byte \<Rightarrow> 16 word \<Rightarrow> 16 word" where
  "set_low b w = word_cat (ucast (drop_bit 8 w) :: byte) b"

definition clear_strobes :: "receiver \<Rightarrow> receiver" where
  "clear_strobes s = s\<lparr>enqueue_program_stb := False, upload_program_instr_stb := False,
     upload_program_ro_data_stb := False, mem_read_result_stb := False\<rparr>"

definition receive_idle :: "byte \<Rightarrow> receiver \<Rightarrow> receiver" where
  "receive_idle rx_data s =
     s\<lparr>counter := 0, packet_instr_count := ucast (drop_bit 2 rx_data),
       S := (let kind = take_bit 2 rx_data in
             if kind = 1 then UPLOAD_PROG_PACKET
             else if kind = 2 then ENQUEUE_PROG_PACKET
             else if kind = 3 then DATA_READ_RESULT_PACKET
             else S s)\<rparr>"

definition receive_upload :: "byte \<Rightarrow> receiver \<Rightarrow> receiver" where
  "receive_upload rx_data s =
     (if counter s = 0 then
        s\<lparr>counter := counter s + 1,
          upload_program_instr_addr := set_high rx_data (upload_program_instr_addr s)\<rparr>
      else if counter s = 1 then
        s\<lparr>counter := counter s + 1,
          upload_program_instr_addr := set_low rx_data (upload_program_instr_addr s),
          instr_MSB := True\<rparr>
      else
        let s1 = (if counter s = 2
                  then s\<lparr>upload_program_instr_addr := upload_program_instr_addr s - 1\<rparr> else s);
            s2 = s1\<lparr>instr_MSB := \<not> instr_MSB s\<rparr> in
        if instr_MSB s
        then s2\<lparr>upload_program_instr_dat := set_high rx_data (upload_program_instr_dat s)\<rparr>
        else s2\<lparr>upload_program_instr_dat := set_low rx_data (upload_program_instr_dat s),
                upload_program_instr_stb := True,
                upload_program_instr_addr := upload_program_instr_addr s + 1,
                counter := counter s + 1,
                S := (if uint (counter s) - 1 = uint (packet_instr_count s) then IDLE else S s)\<rparr>)"

definition receive_enqueue :: "byte \<Rightarrow> receiver \<Rightarrow> receiver" where
  "receive_enqueue rx_data s =
     s\<lparr>counter := counter s + 1,
       S := (if counter s = 4 then IDLE else S s),
       enqueue_program_stb := (counter s = 4),
       enqueue_program_dat := drop 8 (enqueue_program_dat s) @ byte_bits rx_data\<rparr>"

definition receive_read_result :: "byte \<Rightarrow> receiver \<Rightarrow> receiver" where
  "receive_read_result rx_data s =
     s\<lparr>counter := counter s + 1,
       S := (if counter s = 35 then IDLE else S s),
       mem_read_result_stb := (counter s = 35),
       mem_read_result_matrix_tile := drop 8 (mem_read_result_matrix_tile s) @ byte_bits rx_data\<rparr>"

definition clk :: "receiver \<Rightarrow> byte option \<Rightarrow> receiver" where
  "clk s rx =
     (case rx of
        None \<Rightarrow> clear_strobes s
      | Some rx_data \<Rightarrow>
          (case S s of
             IDLE \<Rightarrow> receive_idle rx_data (clear_strobes s)
           | UPLOAD_PROG_PACKET \<Rightarrow> receive_upload rx_data (clear_strobes s)
           | ENQUEUE_PROG_PACKET \<Rightarrow> receive_enqueue rx_data (clear_strobes s)
           | DATA_READ_RESULT_PACKET \<Rightarrow> receive_read_result rx_data (clear_strobes s)))"

text \<open>What the strobes tell the rest of the device.\<close>

datatype event =
    WriteInstr "16 word" "16 word"
  | EnqueueProgram bits
  | ReadResult bits

definition strobed :: "receiver \<Rightarrow> event list" where
  "strobed s =
     (if upload_program_instr_stb s
      then [WriteInstr (upload_program_instr_addr s) (upload_program_instr_dat s)] else [])
     @ (if enqueue_program_stb s then [EnqueueProgram (enqueue_program_dat s)] else [])
     @ (if mem_read_result_stb s then [ReadResult (mem_read_result_matrix_tile s)] else [])"

lemmas receive_defs = receive_idle_def receive_upload_def receive_enqueue_def receive_read_result_def
  clear_strobes_def

interpretation rx: byte_sink clk clear_strobes strobed
proof unfold_locales
  have "clear_strobes (clear_strobes s) = clear_strobes s" "S (clear_strobes s) = S s" for s :: receiver
    by (simp_all add: clear_strobes_def)
  then show "clk (clear_strobes s) rx = clk s rx" for s rx
    by (cases rx; cases "S s") (simp_all add: clk_def)
qed (simp_all add: clk_def strobed_def clear_strobes_def)


section \<open>Receiving packets\<close>

text \<open>The receiver with gaps allowed between the bytes, and the events of a packet without gaps.\<close>

definition receive :: "receiver \<Rightarrow> byte option list \<Rightarrow> event list \<times> receiver" where
  "receive s rxs = feed clk strobed s rxs"

definition bytes_of_line :: "byte option list \<Rightarrow> byte list" where
  "bytes_of_line rxs = List.map_filter (\<lambda>x. x) rxs"

lemma receive_gaps:
  assumes "bytes_of_line rxs = bs"
  shows "fst (receive s rxs) = fst (receive s (map Some bs))"
    and "clear_strobes (snd (receive s rxs)) = clear_strobes (snd (receive s (map Some bs)))"
  using rx.feed_gaps [of s rxs] assms by (simp_all add: receive_def bytes_of_line_def)

lemma receive_state:
  "clear_strobes s = clear_strobes s' \<Longrightarrow> S s = S s'"
  by (drule arg_cong [where f = S]) (simp add: clear_strobes_def)

lemma receive_simps [simp]:
  "receive s [] = ([], s)"
  "receive s (rx # rxs) = (let s1 = clk s rx in (strobed s1 @ fst (receive s1 rxs), snd (receive s1 rxs)))"
  by (simp_all add: receive_def)

text \<open>The 16-bit words of a list of bytes, two by two.\<close>

fun words_of :: "byte list \<Rightarrow> 16 word list" where
  "words_of (h # l # bs) = word_cat h l # words_of bs"
| "words_of _ = []"

lemma set_low_high: "set_low l (set_high h w) = word_cat h l"
  by (rule bit_word_eqI)
    (auto simp: set_low_def set_high_def bit_word_cat_iff bit_simps)

text \<open>The receiver after the two address bytes and \<open>k\<close> of the \<open>n\<close> instructions of an upload to
  \<open>a\<close>: the address register holds the last address written, and before the first write the
  address itself.\<close>

definition uploading :: "16 word \<Rightarrow> nat \<Rightarrow> nat \<Rightarrow> receiver \<Rightarrow> bool" where
  "uploading a n k s \<longleftrightarrow> S s = UPLOAD_PROG_PACKET \<and> instr_MSB s \<and> counter s = of_nat (k + 2)
     \<and> uint (packet_instr_count s) = int n \<and> k < n \<and> n < 64
     \<and> upload_program_instr_addr s = (if k = 0 then a else a + of_nat k - 1)"

lemma counter_values:
  assumes "k < 64"
  shows "(of_nat (k + 2) :: 16 word) \<noteq> 0" "(of_nat (k + 2) :: 16 word) \<noteq> 1"
    "(of_nat (k + 2) :: 16 word) = 2 \<longleftrightarrow> k = 0" "uint (of_nat (k + 2) :: 16 word) = int k + 2"
proof -
  show v: "uint (of_nat (k + 2) :: 16 word) = int k + 2"
    using assms by (simp only: uint_nat unat_of_nat) simp
  show "(of_nat (k + 2) :: 16 word) \<noteq> 0" "(of_nat (k + 2) :: 16 word) \<noteq> 1"
    "(of_nat (k + 2) :: 16 word) = 2 \<longleftrightarrow> k = 0"
    by (simp_all only: word_uint_eq_iff v) simp_all
qed

lemma upload_word:
  fixes s :: receiver and h l :: byte
  assumes "uploading a n k s"
  defines "s2 \<equiv> clk (clk s (Some h)) (Some l)"
  shows "strobed (clk s (Some h)) = []"
    and "strobed s2 = [WriteInstr (a + of_nat k) (word_cat h l)]"
    and "if k + 1 < n then uploading a n (k + 1) s2 else S s2 = IDLE"
proof -
  have s: "S s = UPLOAD_PROG_PACKET" "instr_MSB s" "counter s = of_nat (k + 2)" "k < n" "n < 64"
      "uint (packet_instr_count s) = int n"
      "upload_program_instr_addr s = (if k = 0 then a else a + of_nat k - 1)"
    using assms(1) by (simp_all add: uploading_def)
  have k: "k < 64" using s by simp
  show "strobed (clk s (Some h)) = []" 
    using s counter_values [OF k] by (simp add: clk_def receive_defs strobed_def Let_def)
  show "strobed s2 = [WriteInstr (a + of_nat k) (word_cat h l)]"
    using s counter_values [OF k]
    by (simp add: s2_def clk_def receive_defs strobed_def set_low_high Let_def)
  show "if k + 1 < n then uploading a n (k + 1) s2 else S s2 = IDLE"
    using s counter_values [OF k]
    by (simp add: s2_def uploading_def clk_def receive_defs Let_def)
qed

lemma length_words_of [simp]: "length (words_of bs) = length bs div 2"
  by (induction bs rule: words_of.induct) auto

lemma receive_words:
  "uploading a n k s \<Longrightarrow> length bs = 2 * (n - k) \<Longrightarrow>
     fst (receive s (map Some bs)) = map (\<lambda>j. WriteInstr (a + of_nat (k + j)) (words_of bs ! j)) [0..<n - k]
     \<and> S (snd (receive s (map Some bs))) = IDLE"
proof (induction bs arbitrary: k s rule: words_of.induct)
  case (1 h l bs)
  let ?s2 = "clk (clk s (Some h)) (Some l)"
  note word = upload_word(1) [OF "1.prems"(1), of h] upload_word(2,3) [OF "1.prems"(1), of h l]
  have nk: "n - k = Suc (n - (k + 1))" and len: "length bs = 2 * (n - (k + 1))"
    using "1.prems" by (auto simp: uploading_def)
  show ?case
  proof (cases "k + 1 < n")
    case True
    then have "uploading a n (k + 1) ?s2" using word(3) by simp
    from "1.IH" [OF this len] show ?thesis
      using word(1,2) unfolding nk
      by (simp add: Let_def upt_conv_Cons map_Suc_upt [symmetric] del: upt_Suc)
  next
    case False
    then have "bs = []" and "S ?s2 = IDLE" and "n - k = 1" using word(3) len nk by auto
    then show ?thesis using word(1,2) by (simp add: Let_def)
  qed
qed (auto simp: uploading_def)

lemma receive_upload_packet:
  assumes "S s = IDLE" and "take_bit 2 (h :: byte) = 1" and "uint (drop_bit 2 h) = int n" and "0 < n" and "n < 64"
    and "length bs = 2 * n"
  shows "fst (receive s (map Some (h # ah # al # bs))) =
           map (\<lambda>j. WriteInstr (word_cat ah al + of_nat j) (words_of bs ! j)) [0..<n]"
    and "S (snd (receive s (map Some (h # ah # al # bs)))) = IDLE"
proof -
  let ?s1 = "clk s (Some h)" and ?s3 = "clk (clk (clk s (Some h)) (Some ah)) (Some al)"
  have c: "uint (ucast (drop_bit 2 h) :: 6 word) = int n"
    using assms(3,5) by (simp add: unsigned_ucast_eq take_bit_int_eq_self)
  have quiet: "strobed ?s1 = []" "strobed (clk ?s1 (Some ah)) = []" "strobed ?s3 = []"
    using assms(1,2) by (simp_all add: clk_def receive_defs strobed_def Let_def)
  have "uploading (word_cat ah al) n 0 ?s3"
    using assms(1,2,4,5) c
    by (simp add: uploading_def clk_def receive_defs set_low_high Let_def)
  from receive_words [OF this, of bs] assms(6) quiet
  show "fst (receive s (map Some (h # ah # al # bs))) =
           map (\<lambda>j. WriteInstr (word_cat ah al + of_nat j) (words_of bs ! j)) [0..<n]"
    and "S (snd (receive s (map Some (h # ah # al # bs)))) = IDLE"
    by (simp_all add: Let_def)
qed

text \<open>The two shift registers: after the last byte they hold the packet's bytes.\<close>

lemma receive_enqueue_bytes:
  "S s = ENQUEUE_PROG_PACKET \<Longrightarrow> counter s = of_nat (5 - length bs) \<Longrightarrow> bs \<noteq> [] \<Longrightarrow> length bs \<le> 5 \<Longrightarrow>
   length (enqueue_program_dat s) = 40 \<Longrightarrow>
     fst (receive s (map Some bs)) =
       [EnqueueProgram (drop (8 * length bs) (enqueue_program_dat s) @ bytes_bits bs)]
     \<and> S (snd (receive s (map Some bs))) = IDLE"
proof (induction bs arbitrary: s)
  case (Cons b bs)
  let ?s1 = "clk s (Some b)"
  show ?case
  proof (cases "bs = []")
    case True
    with Cons.prems show ?thesis
      by (simp add: clk_def receive_defs strobed_def Let_def)
  next
    case False
    then have "0 < length bs" "length bs < 5" using Cons.prems by auto
    then have len: "length bs \<in> {1, 2, 3, 4}" unfolding insert_iff empty_iff by arith
    then have c: "counter s \<noteq> 4" "counter s + 1 = of_nat (5 - length bs)"
      using Cons.prems(2) by auto
    then have "S ?s1 = ENQUEUE_PROG_PACKET" "counter ?s1 = of_nat (5 - length bs)" "strobed ?s1 = []"
      "enqueue_program_dat ?s1 = drop 8 (enqueue_program_dat s) @ byte_bits b"
      using Cons.prems(1) by (simp_all add: clk_def receive_defs strobed_def)
    then show ?thesis
      using Cons.IH [of ?s1] Cons.prems False len by (auto simp: Let_def add.commute)
  qed
qed simp

lemma receive_read_bytes:
  "S s = DATA_READ_RESULT_PACKET \<Longrightarrow> counter s = of_nat (36 - length bs) \<Longrightarrow> bs \<noteq> [] \<Longrightarrow> length bs \<le> 36 \<Longrightarrow>
   length (mem_read_result_matrix_tile s) = 288 \<Longrightarrow>
     fst (receive s (map Some bs)) =
       [ReadResult (drop (8 * length bs) (mem_read_result_matrix_tile s) @ bytes_bits bs)]
     \<and> S (snd (receive s (map Some bs))) = IDLE"
proof (induction bs arbitrary: s)
  case (Cons b bs)
  let ?s1 = "clk s (Some b)"
  show ?case
  proof (cases "bs = []")
    case True
    with Cons.prems show ?thesis
      by (simp add: clk_def receive_defs strobed_def Let_def)
  next
    case False
    then have len: "0 < length bs" "length bs < 36" using Cons.prems by auto
    have "36 - length (b # bs) = 35 - length bs" by simp
    then have "uint (counter s) = int (35 - length bs)"
      using Cons.prems(2) uint_of_nat16 [of "35 - length bs"] by (simp only:)
    then have "counter s \<noteq> 35" using len by auto
    moreover have "counter s + 1 = of_nat (36 - length bs)"
      using len Cons.prems(2) by (simp add: of_nat_diff)
    ultimately have "S ?s1 = DATA_READ_RESULT_PACKET" "counter ?s1 = of_nat (36 - length bs)"
      "strobed ?s1 = []"
      "mem_read_result_matrix_tile ?s1 = drop 8 (mem_read_result_matrix_tile s) @ byte_bits b"
      using Cons.prems(1) by (simp_all add: clk_def receive_defs strobed_def)
    then show ?thesis
      using Cons.IH [of ?s1] Cons.prems False len by (auto simp: Let_def add.commute)
  qed
qed simp

text \<open>The registers have their widths.\<close>

definition widths_ok :: "receiver \<Rightarrow> bool" where
  "widths_ok s \<longleftrightarrow> length (enqueue_program_dat s) = 40 \<and> length (mem_read_result_matrix_tile s) = 288"

lemma receive_enqueue_packet:
  assumes "S s = IDLE" and "widths_ok s" and "take_bit 2 (h :: byte) = 2" and "length bs = 5"
  shows "fst (receive s (map Some (h # bs))) = [EnqueueProgram (bytes_bits bs)]"
    and "S (snd (receive s (map Some (h # bs)))) = IDLE"
proof -
  let ?s1 = "clk s (Some h)"
  have s1: "S ?s1 = ENQUEUE_PROG_PACKET" "counter ?s1 = of_nat (5 - length bs)" "strobed ?s1 = []"
    "length (enqueue_program_dat ?s1) = 40"
    using assms by (simp_all add: clk_def receive_defs strobed_def Let_def widths_ok_def)
  have "bs \<noteq> []" "length bs \<le> 5" using assms(4) by auto
  from receive_enqueue_bytes [OF s1(1,2) this s1(4)] s1(3,4) assms(4)
  show "fst (receive s (map Some (h # bs))) = [EnqueueProgram (bytes_bits bs)]"
    and "S (snd (receive s (map Some (h # bs)))) = IDLE"
    by (simp_all add: Let_def)
qed

lemma receive_read_packet:
  assumes "S s = IDLE" and "widths_ok s" and "take_bit 2 (h :: byte) = 3" and "length bs = 36"
  shows "fst (receive s (map Some (h # bs))) = [ReadResult (bytes_bits bs)]"
    and "S (snd (receive s (map Some (h # bs)))) = IDLE"
proof -
  let ?s1 = "clk s (Some h)"
  have s1: "S ?s1 = DATA_READ_RESULT_PACKET" "counter ?s1 = of_nat (36 - length bs)" "strobed ?s1 = []"
    "length (mem_read_result_matrix_tile ?s1) = 288"
    using assms by (simp_all add: clk_def receive_defs strobed_def Let_def widths_ok_def)
  have "bs \<noteq> []" "length bs \<le> 36" using assms(4) by auto
  from receive_read_bytes [OF s1(1,2) this s1(4)] s1(3,4) assms(4)
  show "fst (receive s (map Some (h # bs))) = [ReadResult (bytes_bits bs)]"
    and "S (snd (receive s (map Some (h # bs)))) = IDLE"
    by (simp_all add: Let_def)
qed

end
