(* ===== verification/Link.thy ===== *)
theory Link
  imports Host PacketReceiver
begin

text \<open>
  The host's packets (cherrysim.py) as the device's receiver (PacketReceiver.sv) takes them: what
  an upload writes to the instruction cache, what a start command enqueues and how top.sv cuts
  it into the fields of the execution queue, and what tile a read response delivers.
\<close>

section \<open>Big-endian fields\<close>

lemma uint_word_cat16: "uint (word_cat (a :: byte) (b :: byte) :: 16 word) = uint a * 256 + uint b"
proof -
  have "0 \<le> uint a" "uint a < 256" "0 \<le> uint b" "uint b < 256"
    using uint_bounded [of a] uint_bounded [of b] by simp_all
  moreover have "(word_cat a b :: 16 word) = word_of_int (uint a * 256 + uint b)"
  proof -
    have "take_bit 8 (uint b) + push_bit 8 (uint a) = uint a * 256 + uint b"
      by (simp only: take_bit_uint_byte push_bit_eq_mult) simp
    then show ?thesis
      by (simp only: word_cat_eq' concat_bit_eq) simp
  qed
  ultimately show ?thesis
    by (simp only: unsigned_of_int) (simp add: take_bit_int_eq_self)
qed

lemma int_to_one_byte: "int_to_bytes 1 v = Inr bs \<longleftrightarrow> (\<exists>b. bs = [b] \<and> uint b = v)"
proof -
  have "uint b < 256" "0 \<le> uint b" for b :: byte using uint_bounded [of b] by simp_all
  then show ?thesis
    by (auto simp: int_to_bytes_Inr_iff length_Suc_conv int_from_bytes_def)
qed

lemma int_to_two_bytes:
  "int_to_bytes 2 v = Inr bs \<longleftrightarrow> (\<exists>h l. bs = [h, l] \<and> uint (word_cat h l :: 16 word) = v)"
proof -
  have "uint (w :: 16 word) < 256 ^ 2" "0 \<le> uint w" for w using uint_bounded [of w] by simp_all
  moreover have "int_from_bytes [h, l] = uint (word_cat h l :: 16 word)" for h l
    by (simp add: int_from_bytes_def uint_word_cat16)
  ultimately show ?thesis
    by (auto simp: int_to_bytes_Inr_iff numeral_2_eq_2 length_Suc_conv)
qed

lemma bits_of_two_bytes: "byte_bits h @ byte_bits l = uint_bits 16 (uint (word_cat h l :: 16 word))"
proof -
  have "bits_uint (byte_bits h @ byte_bits l) = uint (word_cat h l :: 16 word)"
    by (simp add: bits_uint_append bits_uint_byte_bits uint_word_cat16)
  then show ?thesis
    using uint_bits_bits_uint_len [of "byte_bits h @ byte_bits l" 16] by simp
qed

section \<open>Packets\<close>

text \<open>The wires of top.sv from the execution queue to the control unit: \<^verbatim>\<open>[31:16]\<close>,
  \<^verbatim>\<open>[15:0]\<close> and \<^verbatim>\<open>[34:31]\<close> of the 40 bits.\<close>

definition execution_queue_start_pc :: "bits \<Rightarrow> int" where
  "execution_queue_start_pc dat = bits_uint (take 16 (drop 8 dat))"

definition execution_queue_end_pc :: "bits \<Rightarrow> int" where
  "execution_queue_end_pc dat = bits_uint (take 16 (drop 24 dat))"

definition execution_queue_start_ro_data_addr :: "bits \<Rightarrow> int" where
  "execution_queue_start_ro_data_addr dat = bits_uint (take 4 (drop 5 dat))"

lemma upload_packet_Inr:
  assumes "upload_packet bs a = Inr p" and "length bs = 2 * n"
  obtains h ah al where "p = h # ah # al # bs" and "uint h = 1 + 4 * int n"
    and "uint (word_cat ah al :: 16 word) = a"
  using assms
  by (auto simp: upload_packet_def bind_res_Inr_iff int_to_one_byte [unfolded One_nat_def]
      int_to_two_bytes push_bit_eq_mult Let_def mult.commute)

lemma header_fields:
  assumes "uint (h :: byte) = k + 4 * int n" and "0 \<le> k" and "k < 4"
  shows "take_bit 2 h = word_of_int k" and "uint (drop_bit 2 h) = int n" and "n < 64"
proof -
  have r: "0 \<le> uint h" "uint h < 256" using uint_bounded [of h] by simp_all
  show "n < 64" using r assms by simp
  have "uint (drop_bit 2 h) = drop_bit 2 (uint h)"
    by (simp only: unsigned_drop_bit_eq) simp
  then have "uint (drop_bit 2 h) = uint h div 4"
    by (simp only: drop_bit_eq_div) simp
  then show "uint (drop_bit 2 h) = int n" using assms by simp
  have "uint (take_bit 2 h) = take_bit 2 (uint h)"
    by (simp only: unsigned_take_bit_eq)
  then have "uint (take_bit 2 h) = uint h mod 4"
    by (simp only: take_bit_eq_mod) simp
  then have "uint (take_bit 2 h) = k" using assms by simp
  then show "take_bit 2 h = word_of_int k" by (metis word_of_int_uint)
qed

lemma receive_clear:
  "bytes_of_line rxs = bs \<Longrightarrow> S (snd (receive s rxs)) = S (snd (receive s (map Some bs)))"
  by (rule receive_state) (rule receive_gaps(2))

text \<open>C18. A program that the host uploads arrives: whatever the gaps between the bytes, the receiver
  writes the \<open>n\<close> instruction words, in their order, to the \<open>n\<close> instruction addresses from the start
  address on, does nothing else, and is idle again.\<close>

theorem upload_arrives:
  assumes "upload_packet instructions instr_start_addr = Inr p" and "length instructions = 2 * n"
    and "0 < n" and "S s = IDLE" and "bytes_of_line rxs = p"
  shows "fst (receive s rxs) =
      map (\<lambda>j. WriteInstr (word_of_int (instr_start_addr + int j)) (words_of instructions ! j)) [0..<n]
     \<and> S (snd (receive s rxs)) = IDLE"
proof -
  obtain h ah al where p: "p = h # ah # al # instructions" and h: "uint h = 1 + 4 * int n"
    and a: "uint (word_cat ah al :: 16 word) = instr_start_addr"
    using upload_packet_Inr [OF assms(1,2)] by blast
  have "take_bit 2 h = 1" "uint (drop_bit 2 h) = int n" "n < 64"
    using header_fields [OF h] by simp_all
  note packet = receive_upload_packet [OF assms(4) this(1,2) assms(3) this(3) assms(2)]
  have "word_cat ah al = (word_of_int instr_start_addr :: 16 word)"
    using a by (metis word_of_int_uint)
  with packet show ?thesis
    using receive_gaps(1) [OF assms(5), of s] receive_clear [OF assms(5), of s]
    by (simp add: p del: receive_simps list.map)
qed

definition idle_receiver :: receiver where
  "idle_receiver =
     \<lparr>S = IDLE, instr_MSB = False, counter = 0, packet_instr_count = 0,
      mem_read_result_stb = False, mem_read_result_matrix_tile = replicate 288 False,
      upload_program_ro_data_stb = False, upload_program_instr_stb = False,
      upload_program_instr_addr = 0, upload_program_instr_dat = 0,
      enqueue_program_stb = False, enqueue_program_dat = replicate 40 False\<rparr>"

lemma idle_receiver_ok: "S idle_receiver = IDLE" "widths_ok idle_receiver"
  by (simp_all add: idle_receiver_def widths_ok_def)

theorem upload_arrives_witness:
  "fst (receive idle_receiver [Some 5, None, Some 0, Some 9, None, None, Some 0xC0, Some 1])
     = [WriteInstr 9 0xC001]"
proof -
  have "upload_packet [0xC0, 1] 9 = Inr [5, 0, 9, 0xC0, 1]"
    by (simp add: upload_packet_def int_to_bytes_def upt_rec push_bit_eq_mult drop_bit_eq_div)
  from upload_arrives [OF this, of 1 idle_receiver
      "[Some 5, None, Some 0, Some 9, None, None, Some 0xC0, Some 1]"] idle_receiver_ok
  have "fst (receive idle_receiver [Some 5, None, Some 0, Some 9, None, None, Some 0xC0, Some 1])
      = [WriteInstr (word_of_int 9) (word_cat (0xC0 :: byte) (1 :: byte))]"
    by (simp add: bytes_of_line_def map_filter_simps del: receive_simps)
  moreover have "word_cat (0xC0 :: byte) (1 :: byte) = (0xC001 :: 16 word)"
    by (simp only: word_uint_eq_iff uint_word_cat16) simp
  ultimately show ?thesis by simp
qed

text \<open>A start command is enqueued with the start and end addresses the host gave.  The read-only
  data address that the control unit gets is not the one the host gave: top.sv takes it one wire too
  low, so its low bit is the top bit of the start address and the host's number is doubled.\<close>

theorem start_enqueues:
  assumes "start_packet ro_data_addr instr_start_addr instr_end_addr = Inr p"
    and "S s = IDLE" and "widths_ok s" and "bytes_of_line rxs = p"
  shows "\<exists>dat. fst (receive s rxs) = [EnqueueProgram dat] \<and> S (snd (receive s rxs)) = IDLE
     \<and> execution_queue_start_pc dat = instr_start_addr
     \<and> execution_queue_end_pc dat = instr_end_addr
     \<and> execution_queue_start_ro_data_addr dat
         = 2 * (ro_data_addr mod 8) + of_bool (32768 \<le> instr_start_addr)"
proof -
  obtain h r sh sl eh el where p: "p = [h, r, sh, sl, eh, el]" and h: "uint h = 2"
    and r: "uint r = ro_data_addr"
    and sp: "uint (word_cat sh sl :: 16 word) = instr_start_addr"
    and ep: "uint (word_cat eh el :: 16 word) = instr_end_addr"
    using assms(1)
    by (auto simp: start_packet_def bind_res_Inr_iff int_to_one_byte [unfolded One_nat_def]
        int_to_two_bytes Let_def)
  let ?dat = "bytes_bits [r, sh, sl, eh, el]"
  have "take_bit 2 h = 2"
    using header_fields(1) [of h 2 0] h by simp
  note packet = receive_enqueue_packet [OF assms(2,3) this, of "[r, sh, sl, eh, el]"]
  have dat: "?dat = byte_bits r @ uint_bits 16 instr_start_addr @ uint_bits 16 instr_end_addr"
    using bits_of_two_bytes [of sh sl] bits_of_two_bytes [of eh el] sp ep by simp
  have range: "0 \<le> instr_start_addr" "instr_start_addr < 2 ^ 16" "0 \<le> instr_end_addr" "instr_end_addr < 2 ^ 16"
    using uint_bounded [of "word_cat sh sl :: 16 word"] uint_bounded [of "word_cat eh el :: 16 word"]
    by (simp_all flip: sp ep)
  have "bits_uint (take 4 (drop 5 ?dat)) = 2 * (ro_data_addr mod 8) + of_bool (32768 \<le> instr_start_addr)"
  proof -
    have ro: "drop 5 (byte_bits r) = uint_bits 3 ro_data_addr"
      using uint_bits_add [of 5 3 ro_data_addr] by (simp add: byte_bits_def r)
    have "drop_bit 15 instr_start_addr = instr_start_addr div 32768"
      by (simp only: drop_bit_eq_div) simp
    also have "\<dots> = of_bool (32768 \<le> instr_start_addr)"
      using range by (cases "32768 \<le> instr_start_addr") (simp_all add: int_div_pos_eq [where q = 1 and r = "instr_start_addr - 32768"])
    finally have top: "uint_bits 16 instr_start_addr = (32768 \<le> instr_start_addr) # uint_bits 15 instr_start_addr"
      using uint_bits_add [of 1 15 instr_start_addr] by (simp add: uint_bits_flag)
    show ?thesis
      unfolding dat by (simp add: ro top bits_uint_append bits_uint_Cons bits_uint_uint_bits take_bit_eq_mod)
  qed
  then have fields: "execution_queue_start_pc ?dat = instr_start_addr"
      "execution_queue_end_pc ?dat = instr_end_addr"
      "execution_queue_start_ro_data_addr ?dat
         = 2 * (ro_data_addr mod 8) + of_bool (32768 \<le> instr_start_addr)"
    using range
    unfolding execution_queue_start_pc_def execution_queue_end_pc_def
      execution_queue_start_ro_data_addr_def by (simp_all only: dat) (simp_all add: bits_uint_small)
  show ?thesis
    using packet receive_gaps(1) [OF assms(4), of s] receive_clear [OF assms(4), of s] fields
    by (intro exI [of _ ?dat]) (simp add: p del: receive_simps list.map bytes_bits_simps)
qed

theorem start_enqueues_witness:
  "\<exists>dat. fst (receive idle_receiver (map Some [2, 3, 0, 6, 0, 13])) = [EnqueueProgram dat]
     \<and> execution_queue_start_pc dat = 6 \<and> execution_queue_end_pc dat = 13
     \<and> execution_queue_start_ro_data_addr dat = 6"
proof -
  have p: "start_packet 3 6 13 = Inr [2, 3, 0, 6, 0, 13]"
    by (simp add: start_packet_def int_to_bytes_def upt_rec drop_bit_eq_div)
  have "bytes_of_line (map Some bs) = bs" for bs
    by (induction bs) (simp_all add: bytes_of_line_def map_filter_simps)
  from start_enqueues [OF p idle_receiver_ok this] show ?thesis by auto
qed

section \<open>Sessions\<close>

lemma widths_ok_clk: "widths_ok s \<Longrightarrow> widths_ok (clk s rx)"
  by (cases rx; cases "S s") (auto simp: widths_ok_def clk_def receive_defs Let_def)

lemma widths_ok_receive: "widths_ok s \<Longrightarrow> widths_ok (snd (receive s rxs))"
  by (induction rxs arbitrary: s) (simp_all add: Let_def widths_ok_clk)

lemma receive_append:
  "fst (receive s (xs @ ys)) = fst (receive s xs) @ fst (receive (snd (receive s xs)) ys)"
  "snd (receive s (xs @ ys)) = snd (receive (snd (receive s xs)) ys)"
  by (simp_all add: receive_def rx.feed_append)

text \<open>The tile of a row: its sixteen values, cut to 18 bits, most significant bit first.\<close>

definition row_tile :: "f32 list \<Rightarrow> bits" where
  "row_tile row = concat (map (\<lambda>x. uint_bits 18 (f32_lane x)) row)"

lemma tile_of_answer: "length row = 16 \<Longrightarrow> bytes_bits (lane_bytes (map f32_lane row)) = row_tile row"
proof -
  assume "length row = 16"
  then have "8 dvd length (concat (map (uint_bits 18) (map f32_lane row)))"
    by (simp add: length_lane_bits del: map_map)
  then show ?thesis
    using bytes_bits_bits_bytes by (simp add: lane_bytes_def row_tile_def comp_def)
qed

text \<open>The tiles a session of requests should bring back.\<close>

fun read_tiles :: "request list \<Rightarrow> host \<Rightarrow> event list" where
  "read_tiles [] h = []"
| "read_tiles (r # rs) h =
     (case r of ReadReq a \<Rightarrow> [ReadResult (row_tile (pinned_mem h ! unat a))] | _ \<Rightarrow> [])
     @ read_tiles rs (apply_request r h)"

fun answer :: "request \<Rightarrow> host \<Rightarrow> byte list" where
  "answer (ReadReq a) h = 3 # lane_bytes (map f32_lane (pinned_mem h ! unat a))"
| "answer _ h = []"

fun answers :: "request list \<Rightarrow> host \<Rightarrow> byte list" where
  "answers [] h = []"
| "answers (r # rs) h = answer r h @ answers rs (apply_request r h)"

lemma sent_fold: "sent (fold apply_request rs h) = sent h @ answers rs h"
proof (induction rs arbitrary: h)
  case (Cons r rs)
  then show ?case by (cases r) simp_all
qed simp

lemma rows_ok_apply: "rows_ok h \<Longrightarrow> request_ok h r \<Longrightarrow> rows_ok (apply_request r h)"
  by (cases r) (auto simp: rows_ok_def dest!: set_update_subset_insert [THEN subsetD])

lemma receive_answers:
  assumes "rows_ok h" and "list_all (request_ok h) rs" and "S s = IDLE" and "widths_ok s"
  shows "fst (receive s (map Some (answers rs h))) = read_tiles rs h
     \<and> S (snd (receive s (map Some (answers rs h)))) = IDLE"
  using assms
proof (induction rs arbitrary: h s)
  case (Cons r rs)
  let ?h = "apply_request r h" and ?s = "snd (receive s (map Some (answer r h)))"
  have first: "fst (receive s (map Some (answer r h)))
        = (case r of ReadReq a \<Rightarrow> [ReadResult (row_tile (pinned_mem h ! unat a))] | _ \<Rightarrow> [])"
    "S ?s = IDLE"
  proof -
    have "length (pinned_mem h ! unat a) = 16" if "r = ReadReq a" for a
      using Cons.prems(1,2) that by (simp add: rows_ok_def)
    then show "fst (receive s (map Some (answer r h)))
        = (case r of ReadReq a \<Rightarrow> [ReadResult (row_tile (pinned_mem h ! unat a))] | _ \<Rightarrow> [])"
      "S ?s = IDLE"
      using Cons.prems(3,4) receive_read_packet [of s 3]
      by (cases r; simp add: tile_of_answer del: receive_simps(2) list.map(2) map_map; fail)+
  qed
  have "fst (receive ?s (map Some (answers rs ?h))) = read_tiles rs ?h
     \<and> S (snd (receive ?s (map Some (answers rs ?h)))) = IDLE"
    using Cons.prems first(2)
    by (intro Cons.IH) (simp_all add: rows_ok_apply widths_ok_receive list_all_iff request_ok_apply)
  then show ?case
    using first by (simp add: receive_append)
qed simp

text \<open>C17. In a session of valid requests, however the device's bytes are cut into pieces on their way
  to the host and whatever the gaps between the answer's bytes on their way back, the device's
  receiver delivers exactly one tile for each read request, in the order of the requests, and it
  is the row as the writes before that request left it, each value cut to 18 bits.\<close>

theorem session_tiles_delivered:
  assumes "libs_ok L" and "rows_ok h" and "sock_ok sk" and "list_all (request_ok h) rs"
    and "concat sk = concat (map request_bytes rs) @ end_bytes @ rest"
    and "serve L sock_recv h sk = Some (e, h', sk')" and "sent h' = sent h @ bytes_of_line rxs"
    and "S s = IDLE" and "widths_ok s"
  shows "fst (receive s rxs) = read_tiles rs h \<and> S (snd (receive s rxs)) = IDLE"
proof -
  have "\<exists>s'. serve L sock_recv h sk = Some (Exited, fold apply_request rs h, s')"
    using serve_session [OF assms(1-5)] by blast
  then have "h' = fold apply_request rs h" using assms(6) by auto
  then have bytes: "bytes_of_line rxs = answers rs h" using assms(7) by (simp add: sent_fold)
  show ?thesis
    using receive_answers [OF assms(2,4,8,9)] receive_gaps(1) [OF bytes, of s] receive_clear [OF bytes, of s]
    by simp
qed

theorem session_tiles_delivered_witness:
  "\<exists>h' sk'. serve std_libs sock_recv \<lparr>pinned_mem = replicate 128 (replicate 16 0), sent = []\<rparr>
      [[3, 0], 20 # replicate 36 0 @ [2, 0], [20, 4, 0], [0]] = Some (Exited, h', sk')
    \<and> fst (receive idle_receiver (map Some (sent h'))) = [ReadResult (row_tile (map lane_f32 (lanes (replicate 36 0))))]"
proof -
  let ?h = "\<lparr>pinned_mem = replicate 128 (replicate 16 0), sent = []\<rparr>"
  let ?sk = "[[3, 0], 20 # replicate 36 0 @ [2, 0], [20, 4, 0], [0]]"
  let ?rs = "[WriteReq 20 (replicate 36 0), ReadReq 20]"
  have ok: "sock_ok ?sk" "list_all (request_ok ?h) ?rs"
    "concat ?sk = concat (map request_bytes ?rs) @ end_bytes @ []"
    by (simp_all add: sock_ok_def addr_bytes_def end_bytes_def)
  obtain sk' where r: "serve std_libs sock_recv ?h ?sk = Some (Exited, fold apply_request ?rs ?h, sk')"
    using serve_session [OF libs_ok_std rows_ok_initial ok] by blast
  have b: "bytes_of_line (map Some bs) = bs" for bs
    by (induction bs) (simp_all add: bytes_of_line_def map_filter_simps)
  have sent: "sent (fold apply_request ?rs ?h)
      = sent ?h @ bytes_of_line (map Some (sent (fold apply_request ?rs ?h)))"
    unfolding b by simp
  have "fst (receive idle_receiver (map Some (sent (fold apply_request ?rs ?h)))) = read_tiles ?rs ?h"
    using session_tiles_delivered [OF libs_ok_std rows_ok_initial ok r sent idle_receiver_ok] by blast
  then show ?thesis
    using r by (intro exI [of _ "fold apply_request ?rs ?h"] exI [of _ sk']) (simp del: receive_simps(2))
qed

end
