(* ===== verification/Programs.thy ===== *)
theory Programs
  imports Assembler Link
begin

text \<open>
  The hand-written relu programs (experiments/compiler/std/fast_relu.py, slow_relu.py), the copy of
  the fast one that the host uploads (cherrysim.py), and the copy of it that the device's simulation
  is built with (core/Memory/fake_pcache.sv).
\<close>

section \<open>The scripts\<close>

definition relu_instructions :: "bool \<Rightarrow> instr list" where
  "relu_instructions ind =
     [LoopStart ind 0,
      Ram False 0 1 0,
      Cache True 0 0 MATMUL_INPUT False False,
      Unop RELU,
      Cache False 0 1 MATMUL_OUTPUT False False,
      Ram True 0 2 1,
      LoopEnd]"

text \<open>A script's header and its instruction words, in the order it makes them.\<close>

definition fast_relu :: "packer \<Rightarrow> (expr option \<Rightarrow> int list) \<Rightarrow> (bits \<times> bits list) res" where
  "fast_relu pk to_list =
     bind_res (bit_pack_program_header pk to_list (128 # replicate 7 0) (6 # replicate 7 0)
        [Some (Sym ''i''), Some (Add (Const 0) (Sym ''i'')), Some (Add (Const 0) (Sym ''i'')),
         None, None, None, None, None]) (\<lambda>h.
     bind_res (map_res (assemble pk) (relu_instructions True)) (\<lambda>ws. Inr (h, ws)))"

definition slow_relu :: "packer \<Rightarrow> (expr option \<Rightarrow> int list) \<Rightarrow> (bits \<times> bits list) res" where
  "slow_relu pk to_list =
     bind_res (bit_pack_program_header pk to_list (256 # replicate 7 0) (6 # replicate 7 0)
        [Some (Sym ''i''), Some (Add (Const 256) (Sym ''i'')), Some (Add (Const 512) (Sym ''i'')),
         None, None, None, None, None]) (\<lambda>h.
     bind_res (map_res (assemble pk) (relu_instructions False)) (\<lambda>ws. Inr (h, ws)))"

text \<open>The example at the end of assembler.py: it packs a header and three instructions, and prints the
  instructions.\<close>

definition assembler_example :: "packer \<Rightarrow> (expr option \<Rightarrow> int list) \<Rightarrow> (bits \<times> bits list) res" where
  "assembler_example pk to_list =
     bind_res (bit_pack_program_header pk to_list (3 # replicate 7 0) (2 # replicate 7 0)
        [Some (Mul (Const 6) (Sym ''i'')), None, Some (Add (Mul (Sym ''i'') (Const 2)) (Sym ''p'')), None,
         Some (Add (Mul (Const 2) (Sym ''l'')) (Const 3)), None, None, None]) (\<lambda>h.
     bind_res (bit_pack_loop_instruction pk True (Some False) (Some 0)) (\<lambda>y.
     bind_res (bit_pack_ram_instruction pk False 2 4 0) (\<lambda>x.
     bind_res (bit_pack_loop_instruction pk False None None) (\<lambda>a. Inr (h, [y, x, a])))))"

section \<open>The simulated program cache\<close>

definition fake_icache :: "16 word \<Rightarrow> 16 word" where
  "fake_icache pc =
     (if pc = 6 then 0xf000 else if pc = 7 then 0x4080 else if pc = 8 then 0x2000
      else if pc = 9 then 0x8000 else if pc = 10 then 0x0180 else if pc = 11 then 0x6120
      else if pc = 12 then 0xc000 else 0x8000)"

definition fake_prog_apu_formula :: "bool \<Rightarrow> bits" where
  "fake_prog_apu_formula addr =
     uint_bits 648 (if addr then 0 else
       0x000040000000000000000000000000000000000000001000000000000000000000000000000000000000040000000000000000000000000000000000000000000000000000000000000000000000000000)"

definition fake_prog_loop_ro_data :: "bool \<Rightarrow> bits" where
  "fake_prog_loop_ro_data addr =
     uint_bits 192 (if addr then 0 else 0x002006000000000000000000000000000000000000000000)"

section \<open>Assembling the scripts\<close>

context sympy_lib
begin

lemma sympy_to_list_affine:
  assumes "set (syms e) \<subseteq> set sympy_vars"
  shows "sympy_to_list expand coeff_monomial nth_zero truthy (Some e)
     = map (\<lambda>v. coef1 v e) sympy_vars @ [coef0 e]"
proof (rule nth_equalityI)
  fix k assume "k < length (sympy_to_list expand coeff_monomial nth_zero truthy (Some e))"
  then have "k < 8 \<or> k = 8" by auto
  then show "sympy_to_list expand coeff_monomial nth_zero truthy (Some e) ! k
      = (map (\<lambda>v. coef1 v e) sympy_vars @ [coef0 e]) ! k"
    using sympy_to_list_nth [OF assms] by (auto simp: nth_append)
qed simp

lemma relu_coefficients:
  "sympy_to_list expand coeff_monomial nth_zero truthy None = replicate 9 0"
  "sympy_to_list expand coeff_monomial nth_zero truthy (Some (Sym ''i'')) = 1 # replicate 8 0"
  "sympy_to_list expand coeff_monomial nth_zero truthy (Some (Add (Const c) (Sym ''i''))) = 1 # replicate 7 0 @ [c]"
  using sympy_to_list_affine [of "Sym ''i''"] sympy_to_list_affine [of "Add (Const c) (Sym ''i'')"]
  by (simp_all add: sympy_vars_def sympy_to_list_def numeral_eq_Suc)

end

lemma relu_words:
  assumes "bitstring_lib pk un bv"
  shows "map_res (assemble pk) (relu_instructions ind) = Inr (map word_of (relu_instructions ind))"
  using bitstring_lib.assemble_eq [OF assms]
  by (intro map_res_Inr) (auto simp: relu_instructions_def)

lemma relu_header:
  assumes "bitstring_lib pk un bv" and "sympy_lib ex co n0 tr" and "0 \<le> n" and "n < 262143"
    and "0 \<le> c" and "c < 1000" and "0 \<le> d" and "d < 1000"
  shows "bit_pack_program_header pk (sympy_to_list ex co n0 tr) (n # replicate 7 0) (6 # replicate 7 0)
        [Some (Sym ''i''), Some (Add (Const c) (Sym ''i'')), Some (Add (Const d) (Sym ''i'')),
         None, None, None, None, None]
     = Inr (header_bits ((n, 6) # replicate 7 (0, 0))
         ([1 # replicate 8 0, 1 # replicate 7 0 @ [c], 1 # replicate 7 0 @ [d]] @ replicate 5 (replicate 9 0)))"
  unfolding bitstring_lib.header_Inr_iff [OF assms(1) length_sympy_to_list]
  using assms(3-) sympy_lib.relu_coefficients [OF assms(2)]
  by (simp add: loop_entry_ok_def coefficient_ok_def numeral_eq_Suc)

section \<open>Properties\<close>

lemma fast_relu_eq:
  assumes "bitstring_lib pk un bv" and "sympy_lib ex co n0 tr"
  shows "fast_relu pk (sympy_to_list ex co n0 tr) =
     Inr (header_bits ((128, 6) # replicate 7 (0, 0))
         (replicate 3 (1 # replicate 8 0) @ replicate 5 (replicate 9 0)),
       map word_of (relu_instructions True))"
proof -
  have "replicate 7 0 @ [0] = (replicate 8 0 :: int list)" by (simp add: numeral_eq_Suc)
  then show ?thesis
    using relu_header [OF assms, of 128 0 0] relu_words [OF assms(1), of True]
    by (simp add: fast_relu_def numeral_3_eq_3)
qed

lemma slow_relu_eq:
  assumes "bitstring_lib pk un bv" and "sympy_lib ex co n0 tr"
  shows "slow_relu pk (sympy_to_list ex co n0 tr) =
     Inr (header_bits ((256, 6) # replicate 7 (0, 0))
         ([1 # replicate 8 0, 1 # replicate 7 0 @ [256], 1 # replicate 7 0 @ [512]]
           @ replicate 5 (replicate 9 0)),
       map word_of (relu_instructions False))"
  using relu_header [OF assms, of 256 256 512] relu_words [OF assms(1), of False]
  by (simp add: slow_relu_def)

lemma relu_loop_bits:
  "concat (map loop_entry_bits ((128, 6) # replicate 7 (0, 0))) = fake_prog_loop_ro_data False"
  by code_simp

lemma relu_apu_bits:
  "concat (map formula_bits (replicate 3 (1 # replicate 8 0) @ [replicate 9 0])) = fake_prog_apu_formula False"
  by code_simp

lemma relu_apu_bits_zero:
  "concat (map formula_bits (replicate 4 (replicate 9 0))) = fake_prog_apu_formula True"
  by code_simp

lemma fast_header_parts:
  fixes h :: bits
  defines "h \<equiv> header_bits ((128, 6) # replicate 7 (0, 0))
         (replicate 3 (1 # replicate 8 0) @ replicate 5 (replicate 9 0))"
  shows "ro_loops h = fake_prog_loop_ro_data False" and "ro_apu h 0 = fake_prog_apu_formula False"
    and "ro_apu h 1 = fake_prog_apu_formula True"
proof -
  have "replicate 5 (replicate 9 0) = [replicate 9 0] @ replicate 4 (replicate 9 (0::int))"
    by (simp add: numeral_eq_Suc)
  then have h: "h = fake_prog_loop_ro_data False @ fake_prog_apu_formula False @ fake_prog_apu_formula True"
    unfolding h_def header_bits_def relu_loop_bits [symmetric] relu_apu_bits [symmetric]
      relu_apu_bits_zero [symmetric]
    by (simp only: map_append concat_append append_assoc)
  have "length (fake_prog_loop_ro_data False) = 192" "length (fake_prog_apu_formula False) = 648"
    "length (fake_prog_apu_formula True) = 648"
    by (simp_all add: fake_prog_loop_ro_data_def fake_prog_apu_formula_def)
  then show "ro_loops h = fake_prog_loop_ro_data False" and "ro_apu h 0 = fake_prog_apu_formula False"
    and "ro_apu h 1 = fake_prog_apu_formula True"
    by (simp_all add: h ro_loops_def ro_apu_def part_def)
qed

text \<open>The three copies of the fast relu program agree: the words that fast_relu.py assembles are,
  in order, the bytes the host uploads and the words of the simulated instruction cache at
  addresses 6 to 12, and its header is the simulated read-only data: the loop table, and the four
  formulas of each of the two reads.\<close>

theorem fast_relu_copies_agree:
  assumes "bitstring_lib pk un bv" and "sympy_lib ex co n0 tr"
  shows "\<exists>h ws. fast_relu pk (sympy_to_list ex co n0 tr) = Inr (h, ws)
     \<and> concat ws = bytes_bits relu_fast_prog_instructions
     \<and> ws = map (\<lambda>k. uint_bits 16 (uint (fake_icache (6 + of_nat k)))) [0..<7]
     \<and> ro_loops h = fake_prog_loop_ro_data False
     \<and> ro_apu h 0 = fake_prog_apu_formula False \<and> ro_apu h 1 = fake_prog_apu_formula True"
proof -
  have "concat (map word_of (relu_instructions True)) = bytes_bits relu_fast_prog_instructions"
    by code_simp
  moreover have "map word_of (relu_instructions True)
      = map (\<lambda>k. uint_bits 16 (uint (fake_icache (6 + of_nat k)))) [0..<7]"
    by code_simp
  ultimately show ?thesis
    using fast_relu_eq [OF assms] fast_header_parts by simp
qed

theorem fast_relu_copies_agree_witness:
  "\<exists>h ws. fast_relu std_pack std_to_list = Inr (h, ws) \<and> concat ws = bytes_bits relu_fast_prog_instructions"
  using fast_relu_copies_agree [OF std_axioms] by blast

text \<open>The example assembles: it prints 0xd000, 0x4a00 and 0xc000, and the first, third and fifth formula
  of its header are 6 i, 2 i + p and 2 l + 3.\<close>

theorem assembler_example_runs:
  assumes "bitstring_lib pk un bv" and "sympy_lib ex co n0 tr"
  shows "\<exists>h. assembler_example pk (sympy_to_list ex co n0 tr) =
       Inr (h, [uint_bits 16 0xd000, uint_bits 16 0x4a00, uint_bits 16 0xc000])
     \<and> h = header_bits ((3, 2) # replicate 7 (0, 0))
         ([6 # replicate 8 0, replicate 9 0, 2 # replicate 6 0 @ [1, 0], replicate 9 0, [0, 0, 0, 2, 0, 0, 0, 0, 3]]
           @ replicate 3 (replicate 9 0))"
proof -
  let ?to_list = "sympy_to_list ex co n0 tr"
  have "word_of (LoopStart False 0) = uint_bits 16 0xd000" "word_of (Ram False 2 4 0) = uint_bits 16 0x4a00"
    "word_of LoopEnd = uint_bits 16 0xc000"
    by code_simp+
  then have words: "bit_pack_loop_instruction pk True (Some False) (Some 0) = Inr (uint_bits 16 0xd000)"
    "bit_pack_ram_instruction pk False 2 4 0 = Inr (uint_bits 16 0x4a00)"
    "bit_pack_loop_instruction pk False None None = Inr (uint_bits 16 0xc000)"
    using bitstring_lib.assemble_eq [OF assms(1), of "LoopStart False 0"]
      bitstring_lib.assemble_eq [OF assms(1), of "Ram False 2 4 0"] bitstring_lib.assemble_eq [OF assms(1), of LoopEnd]
    by simp_all
  have to_list: "?to_list None = replicate 9 0"
    "?to_list (Some (Mul (Const 6) (Sym ''i''))) = 6 # replicate 8 0"
    "?to_list (Some (Add (Mul (Sym ''i'') (Const 2)) (Sym ''p''))) = 2 # replicate 6 0 @ [1, 0]"
    "?to_list (Some (Add (Mul (Const 2) (Sym ''l'')) (Const 3))) = [0, 0, 0, 2, 0, 0, 0, 0, 3]"
    using sympy_lib.relu_coefficients(1) [OF assms(2)]
    by (simp_all add: sympy_lib.sympy_to_list_affine [OF assms(2)] sympy_vars_def numeral_eq_Suc)
  have "bit_pack_program_header pk ?to_list (3 # replicate 7 0) (2 # replicate 7 0)
        [Some (Mul (Const 6) (Sym ''i'')), None, Some (Add (Mul (Sym ''i'') (Const 2)) (Sym ''p'')), None,
         Some (Add (Mul (Const 2) (Sym ''l'')) (Const 3)), None, None, None]
      = Inr (header_bits ((3, 2) # replicate 7 (0, 0))
         ([6 # replicate 8 0, replicate 9 0, 2 # replicate 6 0 @ [1, 0], replicate 9 0, [0, 0, 0, 2, 0, 0, 0, 0, 3]]
           @ replicate 3 (replicate 9 0)))"
    unfolding bitstring_lib.header_Inr_iff [OF assms(1) length_sympy_to_list]
    by (simp add: to_list loop_entry_ok_def coefficient_ok_def numeral_eq_Suc)
  then show ?thesis by (simp add: assembler_example_def words)
qed

text \<open>The two headers, read by the hardware.\<close>

lemma header_address_registers:
  assumes "length loops = 8" and "length fs = 8" and "\<forall>cs\<in>set fs. length cs = 9"
  shows "apu_address_registers (header_bits loops fs) = map (\<lambda>cs. word_of_int (cs ! 8)) fs"
  using header_registers(1) [OF assms] assms(2)
  by (intro nth_equalityI) (simp_all add: apu_address_registers_def del: upt_rec_numeral)

lemma relu_header_linear:
  assumes "k < 8" and "v < 8"
  shows "daddr_di (apu_linear_formulas (header_bits ((n, 6) # replicate 7 (0, 0))
         ([1 # replicate 8 0, 1 # replicate 7 0 @ [c], 1 # replicate 7 0 @ [d]]
           @ replicate 5 (replicate 9 0))) ! k) v = (if v = 0 \<and> k < 3 then 1 else 0)"
  using assms
  by (subst header_registers(2)) (auto simp: nth_append nth_Cons' less_Suc_eq numeral_eq_Suc)

lemma slow_loop_count:
  "iteration_count (loopmux 0 (ro_loops (header_bits ((256, 6) # replicate 7 (0, 0)) fs)) False True) = 256"
  using header_loop_piece [of "(256, 6) # replicate 7 (0, 0)" 0 fs]
  by (simp add: loopmux_def loop_entry_bits_def bits_uint_small Let_def)

lemma fast_formulas:
  "replicate 3 (1 # replicate 8 0) @ replicate 5 (replicate 9 (0 :: int))
     = [1 # replicate 8 0, 1 # replicate 7 0 @ [0], 1 # replicate 7 0 @ [0]] @ replicate 5 (replicate 9 0)"
  by (simp add: numeral_eq_Suc)

text \<open>The slow relu program is the fast one with a dependent loop of 256 iterations, whose
  main-memory address units start at 256 and 512: only the first instruction word differs, by its
  independence bit, and the address units advance alike.\<close>

lemma slow_relu_differs:
  assumes "bitstring_lib pk un bv" and "sympy_lib ex co n0 tr"
  shows "\<exists>h h' ws w w'. fast_relu pk (sympy_to_list ex co n0 tr) = Inr (h, w # ws)
     \<and> slow_relu pk (sympy_to_list ex co n0 tr) = Inr (h', w' # ws)
     \<and> w = uint_bits 16 0xf000 \<and> w' = uint_bits 16 0xd000
     \<and> iteration_count (loopmux 0 (ro_loops h') False True) = 256
     \<and> apu_address_registers h' = [0, 256, 512, 0, 0, 0, 0, 0]
     \<and> (\<forall>k\<in>{..<8}. \<forall>v\<in>{..<8}. daddr_di (apu_linear_formulas h' ! k) v
            = daddr_di (apu_linear_formulas h ! k) v)"
proof -
  let ?h = "\<lambda>n c d. header_bits ((n, 6) # replicate 7 (0, 0))
         ([1 # replicate 8 0, 1 # replicate 7 0 @ [c], 1 # replicate 7 0 @ [d]] @ replicate 5 (replicate 9 0))"
  let ?ws = "map word_of (tl (relu_instructions False))"
  have words: "map word_of (relu_instructions True) = uint_bits 16 0xf000 # ?ws"
    "map word_of (relu_instructions False) = uint_bits 16 0xd000 # ?ws"
    by code_simp+
  have linear: "\<forall>k\<in>{..<8}. \<forall>v\<in>{..<8}. daddr_di (apu_linear_formulas (?h 256 256 512) ! k) v
            = daddr_di (apu_linear_formulas (?h 128 0 0) ! k) v"
    by (intro ballI) (simp only: relu_header_linear lessThan_iff)
  have registers: "apu_address_registers (?h 256 256 512) = [0, 256, 512, 0, 0, 0, 0, 0]"
    by (subst header_address_registers) (simp_all add: numeral_eq_Suc)
  have "fast_relu pk (sympy_to_list ex co n0 tr) = Inr (?h 128 0 0, uint_bits 16 0xf000 # ?ws)"
    "slow_relu pk (sympy_to_list ex co n0 tr) = Inr (?h 256 256 512, uint_bits 16 0xd000 # ?ws)"
    by (simp_all only: fast_relu_eq [OF assms] slow_relu_eq [OF assms] words fast_formulas)
  then show ?thesis
    using slow_loop_count linear registers by blast
qed

text \<open>When the host starts, with any gaps between the bytes, the device writes the fast relu
  program of its simulated instruction cache to the addresses 6 to 12 and then enqueues its
  execution from address 6 to 13 with the read-only data at 0, and nothing else happens.\<close>

lemma startup_events:
  assumes "upload_prog 0 6 h = Inr h1" and "start_prog 0 6 13 h1 = Inr h2"
    and "sent h2 = sent h @ bytes_of_line rxs" and "S s = IDLE" and "widths_ok s"
  shows "\<exists>dat. fst (receive s rxs)
       = map (\<lambda>k. WriteInstr (6 + of_nat k) (fake_icache (6 + of_nat k))) [0..<7] @ [EnqueueProgram dat]
     \<and> execution_queue_start_pc dat = 6 \<and> execution_queue_end_pc dat = 13
     \<and> execution_queue_start_ro_data_addr dat = 0"
proof -
  let ?up = "29 # 0 # 6 # relu_fast_prog_instructions" and ?st = "2 # [0, 0, 6, 0, 13] :: byte list"
  have up: "upload_packet relu_fast_prog_instructions 6 = Inr ?up" and st: "start_packet 0 6 13 = Inr ?st"
    by code_simp+
  have bytes: "bytes_of_line rxs = ?up @ ?st"
    using assms(1-3) by (auto simp: upload_prog_def start_prog_def up st sendall_def)
  have h: "take_bit 2 (29 :: byte) = 1" "uint (drop_bit 2 (29 :: byte)) = int 7" "(0::nat) < 7" "(7::nat) < 64"
    "length relu_fast_prog_instructions = 2 * 7" "take_bit 2 (2 :: byte) = 2" "length [0, 0, 6, 0, 13 :: byte] = 5"
    by code_simp+
  note one = receive_upload_packet [OF assms(4) h(1-5), of 0 6]
  note two = receive_enqueue_packet(1) [OF one(2) widths_ok_receive [OF assms(5)] h(6,7)]
  have "map (\<lambda>j. WriteInstr (word_cat (0 :: byte) (6 :: byte) + of_nat j)
            (words_of relu_fast_prog_instructions ! j)) [0..<7]
      = map (\<lambda>k. WriteInstr (6 + of_nat k) (fake_icache (6 + of_nat k))) [0..<7]"
    by code_simp
  with one(1) two have "fst (receive s rxs)
       = map (\<lambda>k. WriteInstr (6 + of_nat k) (fake_icache (6 + of_nat k))) [0..<7]
         @ [EnqueueProgram (bytes_bits [0, 0, 6, 0, 13])]"
    by (simp only: receive_gaps(1) [OF bytes] map_append receive_append)
  moreover have "execution_queue_start_pc (bytes_bits [0, 0, 6, 0, 13]) = 6"
    "execution_queue_end_pc (bytes_bits [0, 0, 6, 0, 13]) = 13"
    "execution_queue_start_ro_data_addr (bytes_bits [0, 0, 6, 0, 13]) = 0"
    by code_simp+
  ultimately show ?thesis by blast
qed

end
