(* ===== verification/Startup.thy ===== *)
theory Startup
  imports Device Programs
begin

text \<open>
  From the host's first bytes to the device's first requests: the packets the host sends at start
  fill the instruction cache (\<^verbatim>\<open>icache_mem\<close> of core/ControlUnit/pcache.sv) and the
  execution queue, and the control unit runs what is there.
\<close>

text \<open>\<^verbatim>\<open>icache_mem\<close> has 2048 words and sees the low eleven bits of an address.\<close>

type_synonym icache_mem = "11 word \<Rightarrow> 16 word"

definition write_instr :: "event \<Rightarrow> icache_mem \<Rightarrow> icache_mem" where
  "write_instr e mem_instrs =
     (case e of WriteInstr a dat \<Rightarrow> mem_instrs(ucast a := dat) | _ \<Rightarrow> mem_instrs)"

text \<open>The wires of top.sv around the control unit when \<open>dat\<close> heads the execution queue.  The
  read-only data has a one-bit address.\<close>

definition top_env :: "icache_mem \<Rightarrow> bits \<Rightarrow> env" where
  "top_env mem_instrs dat =
     \<lparr>execution_queue_not_empty = True,
      execution_queue_start_pc = word_of_int (Link.execution_queue_start_pc dat),
      execution_queue_end_pc = word_of_int (Link.execution_queue_end_pc dat),
      execution_queue_start_ro_data_addr = word_of_int (Link.execution_queue_start_ro_data_addr dat),
      icache = (\<lambda>pc. uint_bits 16 (uint (mem_instrs (ucast pc)))),
      prog_apu_formula = (\<lambda>r. fake_prog_apu_formula (bit r 0)),
      prog_loop_ro_data = (\<lambda>r. fake_prog_loop_ro_data (bit r 0))\<rparr>"

lemma relu_cache:
  "k < 7 \<Longrightarrow> fold write_instr (map (\<lambda>k. WriteInstr (6 + of_nat k) (fake_icache (6 + of_nat k))) [0..<7]
      @ [EnqueueProgram dat]) m (ucast (6 + of_nat k :: 16 word)) = fake_icache (6 + of_nat k)"
proof -
  assume "k < 7"
  then have "k = 0 \<or> k = 1 \<or> k = 2 \<or> k = 3 \<or> k = 4 \<or> k = 5 \<or> k = 6" by arith
  moreover have "[0..<7] = [0, 1, 2, 3, 4, 5, 6 :: nat]" by code_simp
  ultimately show ?thesis by (auto simp: write_instr_def)
qed

definition relu_word :: "nat \<Rightarrow> bits" where
  "relu_word k = uint_bits 16 (uint (fake_icache (6 + of_nat k)))"

lemma relu_words_decode:
  "instruction_type (relu_word 0) = INSTR_TYPE_LOOP" "relu_word 0 ! 3" "relu_word 0 ! 2"
  "bits_uint (slice 4 6 (relu_word 0)) = 0"
  "map (instruction_type \<circ> relu_word) [1..<6] = [INSTR_TYPE_RAM, INSTR_TYPE_LOAD_STORE, INSTR_TYPE_ARITHMETIC,
     INSTR_TYPE_LOAD_STORE, INSTR_TYPE_RAM]"
  "instruction_type (relu_word 6) = INSTR_TYPE_LOOP" "\<not> relu_word 6 ! 3"
  "map ram_unit (filter is_read (map (\<lambda>k. relu_word (Suc k)) [0..<5])) = [1]"
  by code_simp+

lemma relu_loop_table:
  "iteration_count (loopmux 0 (fake_prog_loop_ro_data False) True True) = 128"
  "Decoder.jump_amount (loopmux 0 (fake_prog_loop_ro_data False) True True) = 6"
  by code_simp+

lemma relu_units:
  "word_of_int (bits_uint (part 306 18 (fake_prog_apu_formula False))) = (0 :: u18)"
  "daddr_di (part 162 144 (fake_prog_apu_formula False)) 0 = 1"
  by code_simp+

text \<open>The uploaded program is one loop with one read.\<close>

lemma relu_is_one_loop:
  assumes "\<And>k. k < 7 \<Longrightarrow> icache E (6 + of_nat k) = relu_word k"
    and "execution_queue_not_empty E" and "env.execution_queue_start_pc E = 6" and "env.execution_queue_end_pc E = 13"
    and "prog_loop_ro_data E (env.execution_queue_start_ro_data_addr E) = fake_prog_loop_ro_data False"
  shows "one_loop_program E 6 5 True 0 128" and "read_units E 6 5 = [1]"
proof -
  have w: "icache E (of_nat (6 + 1 + k)) = relu_word (Suc k)" if "k < 6" for k
    using assms(1) [of "Suc k"] that by (simp add: algebra_simps)
  have "icache E (of_nat 6) = relu_word 0" using assms(1) [of 0] by simp
  moreover have "icache E 12 = relu_word 6" using w [of 5] by simp
  moreover have "instruction_type (relu_word (Suc k)) \<noteq> INSTR_TYPE_LOOP" if "k < 5" for k
  proof -
    have "instruction_type (relu_word (Suc k)) = map (instruction_type \<circ> relu_word) [1..<6] ! k"
      using that by simp
    also have "\<dots> \<in> {INSTR_TYPE_RAM, INSTR_TYPE_LOAD_STORE, INSTR_TYPE_ARITHMETIC}"
    proof -
      have "map (instruction_type \<circ> relu_word) [1..<6] ! k \<in> set (map (instruction_type \<circ> relu_word) [1..<6])"
        using that by (intro nth_mem) simp
      then show ?thesis unfolding relu_words_decode by auto
    qed
    finally show ?thesis by auto
  qed
  ultimately have "loop_code E 6 5 True 0"
    using w relu_words_decode by (simp add: loop_code_def list_all_length Let_def del: of_nat_add)
  then show "one_loop_program E 6 5 True 0 128"
    using assms relu_loop_table by (simp add: one_loop_program_def Let_def)
  have "map (\<lambda>k. icache E (of_nat (6 + 1 + k))) [0..<5] = map (\<lambda>k. relu_word (Suc k)) [0..<5]"
    by (rule map_cong [OF refl], rule w) simp
  then show "read_units E 6 5 = [1]"
    using relu_words_decode(8) by (simp only: read_units_def)
qed

text \<open>The environment of the control unit when the relu program is in its memories and heads the
  execution queue.\<close>

definition relu_env :: "env \<Rightarrow> bool" where
  "relu_env E \<longleftrightarrow>
     (\<forall>k < 7. icache E (6 + of_nat k) = relu_word k) \<and> (\<forall>pc. length (icache E pc) = 16)
     \<and> execution_queue_not_empty E \<and> env.execution_queue_start_pc E = 6 \<and> env.execution_queue_end_pc E = 13
     \<and> prog_loop_ro_data E (env.execution_queue_start_ro_data_addr E) = fake_prog_loop_ro_data False
     \<and> prog_apu_formula E (env.execution_queue_start_ro_data_addr E) = fake_prog_apu_formula False"

lemma relu_program:
  assumes "relu_env E"
  shows "one_loop_program E 6 5 True 0 128" and "read_units E 6 5 = [1]"
  using relu_is_one_loop [of E] assms by (simp_all add: relu_env_def)

lemma relu_commands:
  assumes "relu_env E"
  shows "commands (concat (map (\<lambda>r. round_pushes E 6 5 True 0 128 16 (header_formulas E) (header_registers E)
      (r * loop_step True 16)) [0..<rounds 128 (loop_step True 16)])) < 60"
proof -
  have "rounds 128 (loop_step True 16) = 8" by code_simp
  then show ?thesis by (simp only: commands_rounds relu_program(2) [OF assms]) simp
qed

text \<open>All rows are requested once the control unit had its clocks.\<close>

lemma relu_requests_input:
  assumes "relu_env E" and "device_start d" and "161 \<le> length (filter (Not \<circ> fst) is)"
  shows "trace (device_clk E 16) device_reads is d @ in_device (run (device_clk E 16) is d) = map of_nat [0..<128]"
proof -
  note prog = relu_program [OF assms(1)]
  have ro: "prog_apu_formula E (env.execution_queue_start_ro_data_addr E) = fake_prog_apu_formula False"
    using assms(1) by (simp add: relu_env_def)
  have "[0..<4] = [0, 1, 2, 3 :: nat]" by code_simp
  then have units: "header_registers E ! 1 = 0" "daddr_di (header_formulas E ! 1) 0 = 1"
    using relu_units by (simp_all add: header_registers_def header_formulas_def Let_def ro load_address_def load_linear_def)
  have clocks: "program_clocks 5 (rounds 128 (loop_step True 16)) = 161" by code_simp
  have "trace (device_clk E 16) (\<lambda>i d. [device_stall i d]) is d = map fst is"
    using only_queue_stalls [OF assms(2) prog(1), of 16 "is"] by (simp add: relu_commands [OF assms(1)])
  then show ?thesis
    using loop_reads [OF assms(2) prog(1) _ _ prog(2), of "is"] units assms(3) by (simp add: clocks filter_map)
qed

lemma uploaded_relu_env:
  assumes "upload_prog 0 6 h = Inr h1" and "start_prog 0 6 13 h1 = Inr h2"
    and "sent h2 = sent h @ bytes_of_line rxs" and "receiver.S r = receiver_state.IDLE" and "widths_ok r"
  obtains dat where "EnqueueProgram dat \<in> set (fst (receive r rxs))"
    and "relu_env (top_env (fold write_instr (fst (receive r rxs)) mem_instrs) dat)"
proof -
  obtain dat where dat: "fst (receive r rxs)
       = map (\<lambda>k. WriteInstr (6 + of_nat k) (fake_icache (6 + of_nat k))) [0..<7] @ [EnqueueProgram dat]"
    "Link.execution_queue_start_pc dat = 6" "Link.execution_queue_end_pc dat = 13"
    "Link.execution_queue_start_ro_data_addr dat = 0"
    using startup_events [OF assms] by blast
  define E where "E = top_env (fold write_instr (fst (receive r rxs)) mem_instrs) dat"
  have cache: "icache E (6 + of_nat k) = relu_word k" if "k < 7" for k
    unfolding E_def top_env_def dat(1) using relu_cache [OF that] by (simp add: relu_word_def)
  have queue: "execution_queue_not_empty E" "env.execution_queue_start_pc E = 6" "env.execution_queue_end_pc E = 13"
    "env.execution_queue_start_ro_data_addr E = 0"
    by (simp_all add: E_def top_env_def dat(2-4))
  have "prog_loop_ro_data E (env.execution_queue_start_ro_data_addr E) = fake_prog_loop_ro_data False"
    "prog_apu_formula E (env.execution_queue_start_ro_data_addr E) = fake_prog_apu_formula False"
    by (simp_all add: queue) (simp_all add: E_def top_env_def)
  moreover have "length (icache E pc) = 16" for pc by (simp add: E_def top_env_def)
  ultimately have "relu_env E" using cache queue by (simp add: relu_env_def)
  then show thesis by (intro that [of dat]) (simp_all add: dat(1) E_def)
qed

text \<open>C9. The device asks for the whole input when the host starts: whatever the gaps between the bytes
  of the host's two packets and what the instruction cache held before, the control unit finds the relu
  program in its memories, and however the instruction queue stalls and when the sender reads, once
  the instruction queue did not stall for 161 clocks the addresses the sender has read, followed by those
  still in the device, are 0, 1, ..., 127.\<close>

theorem startup_requests_input:
  assumes "upload_prog 0 6 h = Inr h1" and "start_prog 0 6 13 h1 = Inr h2"
    and "sent h2 = sent h @ bytes_of_line rxs" and "receiver.S r = receiver_state.IDLE" and "widths_ok r"
    and "device_start d"
  shows "\<exists>dat. EnqueueProgram dat \<in> set (fst (receive r rxs))
     \<and> (let E = top_env (fold write_instr (fst (receive r rxs)) mem_instrs) dat in
        relu_env E \<and> (161 \<le> length (filter (Not \<circ> fst) is) \<longrightarrow>
        trace (device_clk E 16) device_reads is d @ in_device (run (device_clk E 16) is d) = map of_nat [0..<128]))"
proof -
  obtain dat where dat: "EnqueueProgram dat \<in> set (fst (receive r rxs))"
    and env: "relu_env (top_env (fold write_instr (fst (receive r rxs)) mem_instrs) dat)"
    by (rule uploaded_relu_env [OF assms(1-5)])
  define E where "E = top_env (fold write_instr (fst (receive r rxs)) mem_instrs) dat"
  have E: "relu_env E" using env by (simp add: E_def)
  have "161 \<le> length (filter (Not \<circ> fst) is) \<longrightarrow>
        trace (device_clk E 16) device_reads is d @ in_device (run (device_clk E 16) is d) = map of_nat [0..<128]"
    using relu_requests_input [OF E assms(6)] by blast
  then show ?thesis using dat E unfolding Let_def E_def by blast
qed

theorem startup_requests_input_witness:
  "\<exists>E. relu_env E \<and> trace (device_clk E 16) device_reads (replicate 400 (False, True)) idle_device
         @ in_device (run (device_clk E 16) (replicate 400 (False, True)) idle_device) = map of_nat [0..<128]"
proof -
  let ?h = "\<lparr>pinned_mem = [], sent = []\<rparr>" and ?is = "replicate 400 (False, True)"
  have up: "upload_packet relu_fast_prog_instructions 6 = Inr (29 # 0 # 6 # relu_fast_prog_instructions)"
    and st: "start_packet 0 6 13 = Inr [2, 0, 0, 6, 0, 13]"
    by code_simp+
  obtain h1 h2 where r: "upload_prog 0 6 ?h = Inr h1" "start_prog 0 6 13 h1 = Inr h2"
    by (simp add: upload_prog_def start_prog_def up st sendall_def)
  have b: "bytes_of_line (map Some bs) = bs" for bs
    by (induction bs) (simp_all add: bytes_of_line_def map_filter_simps)
  have "sent h2 = sent ?h @ bytes_of_line (map Some (sent h2))" by (simp only: b) simp
  note start = startup_requests_input [OF r this idle_receiver_ok idle_device_start, of "\<lambda>_. 0" ?is]
  moreover have "161 \<le> length (filter (Not \<circ> fst) ?is)" by (simp add: filter_replicate)
  ultimately show ?thesis unfolding Let_def by blast
qed

end
