(* ===== verification/ReluQueue.thy ===== *)
theory ReluQueue
  imports Views Startup
begin

text \<open>
  The relu program in the instruction queue: the pushes of its 128 tiles, that they are early enough, where
  the queue puts them, and what it hands out at each place.
\<close>

section \<open>Few pushes keep the positions small\<close>

definition book_within :: "nat \<Rightarrow> book \<Rightarrow> bool" where
  "book_within B b \<longleftrightarrow>
     length (free b) = 4 \<and> length (ends b) = 4 \<and> ready b \<le> B \<and> (\<forall>x \<in> set (free b) \<union> set (ends b). x \<le> B)"

lemma book_within_push:
  assumes "book_within B b" and "snd p \<le> 16" and "0 < B"
  shows "book_within (B + 26) (book_push p b)"
proof -
  have le: "free b ! type_num t \<le> B" "ends b ! type_num t \<le> B" "ready b \<le> B" for t
    using assms(1) nth_mem [of "type_num t" "free b"] nth_mem [of "type_num t" "ends b"]
    by (cases t; auto simp: book_within_def)+
  have lat: "lat t \<le> 10" for t
    using latency_le(1) [of t] by (simp add: lat_def word_le_nat_alt)
  have spot: "spot t b \<le> B + 10" for t
    using add_mono [OF le(2) lat] le(1,3) assms(3)
    by (cases "t = INSTR_TYPE_PROG_END") (simp_all add: spot_def trans_le_add1 del: type_num.simps)
  have "spot (fst p) b + x \<le> B + 26" if "x \<le> 16" for x
    using that spot [of "fst p"] add_mono [of "spot (fst p) b" "B + 10" x 16] by simp
  moreover have "x \<le> B + 26" if "x \<in> set (free b) \<union> set (ends b)" for x
    using that assms(1) unfolding book_within_def by (meson trans_le_add1)
  moreover have "lat (fst p) \<le> 16" using lat [of "fst p"] by simp
  ultimately show ?thesis
    using assms(1,2) spot [of INSTR_TYPE_PROG_END] unfolding book_within_def book_push_def Let_def
    by (auto dest!: subsetD [OF set_update_subset_insert])
qed

lemma book_small_few:
  assumes "\<forall>p \<in> set ps. snd p \<le> 16" and "length ps \<le> 2000"
  shows "book_small (book_of ps)"
proof -
  have "book_within (1 + 26 * length ps) (book_of ps)"
    using assms(1)
  proof (induction ps rule: rev_induct)
    case (snoc p ps)
    then have "book_within (1 + 26 * length ps + 26) (book_push p (book_of ps))"
      by (intro book_within_push) simp_all
    then show ?case by (simp add: book_of_snoc)
  qed (simp add: book_of_def new_book_def book_within_def)
  then have "x \<le> 1 + 26 * length ps" if "x \<in> set (free (book_of ps)) \<union> set (ends (book_of ps))" for x
    using that unfolding book_within_def by blast
  then have "x < 65000" if "x \<in> set (free (book_of ps)) \<union> set (ends (book_of ps))" for x
    using that assms(2) by fastforce
  then show ?thesis by (simp add: book_small_def list_all_iff)
qed

section \<open>The program's pushes\<close>

definition relu_round :: "nat \<Rightarrow> push list" where
  "relu_round q =
     [PushRam 16 [False, False, False] (of_nat (16 * q)) 1 (of_nat (16 * q)) 1,
      PushLoadStore 16 [True, False, False, False, False, False, False] (of_nat (16 * q)) 1,
      PushArith 16 (replicate 9 False),
      PushLoadStore 16 [False, False, True, True, False, False, False] (of_nat (16 * q)) 1,
      PushRam 16 [True, False, True] (of_nat (16 * q)) 1 (of_nat (16 * q)) 1]"

lemma relu_unit:
  assumes "relu_env E" and "u < 3"
  shows "shifted (header_formulas E) 0 v (header_registers E) ! u = of_nat v"
    and "daddr_di (header_formulas E ! u) 0 = 1"
proof -
  let ?f = "fake_prog_apu_formula False"
  have "map (\<lambda>i. load_address i ?f) [0..<4] = [0, 0, 0, 0]"
    "map (\<lambda>i. daddr_di (load_linear i ?f) 0) [0..<4] = [1, 1, 1, 0]"
    by code_simp+
  then have f: "load_address u ?f = 0" "daddr_di (load_linear u ?f) 0 = 1"
    using assms(2) by (simp_all add: upt_rec_numeral numeral_eq_Suc less_Suc_eq) auto
  have E: "prog_apu_formula E (env.execution_queue_start_ro_data_addr E) = ?f" using assms(1) by (simp add: relu_env_def)
  have "header_formulas E ! u = load_linear u ?f" "header_registers E ! u = load_address u ?f"
    "length (header_formulas E) = 8" "length (header_registers E) = 8"
    using assms(2) by (simp_all add: header_formulas_def header_registers_def Let_def E nth_append)
  then show "daddr_di (header_formulas E ! u) 0 = 1"
    "shifted (header_formulas E) 0 v (header_registers E) ! u = of_nat v"
    using f assms(2) by (simp_all add: shifted_def)
qed

lemma relu_body_push:
  assumes "relu_env E" and "k < 5"
  shows "body_push (header_formulas E) (shifted (header_formulas E) 0 (16 * q) (header_registers E)) 16 (relu_word (Suc k))
    = relu_round q ! k"
proof -
  let ?ld_st = "\<lambda>raw. slice 2 11 raw" and ?ram = "\<lambda>raw. slice 2 10 raw" and ?unit = "\<lambda>a b v. nat (bits_uint (slice a b v))"
  have t: "instruction_type (relu_word 1) = INSTR_TYPE_RAM" "instruction_type (relu_word 2) = INSTR_TYPE_LOAD_STORE"
    "instruction_type (relu_word 3) = INSTR_TYPE_ARITHMETIC" "instruction_type (relu_word 4) = INSTR_TYPE_LOAD_STORE"
    "instruction_type (relu_word 5) = INSTR_TYPE_RAM"
    by code_simp+
  have f: "?ram (relu_word 1) ! 0 # slice 7 8 (?ram (relu_word 1)) = [False, False, False]"
    "?unit 1 3 (?ram (relu_word 1)) = 0" "?unit 4 6 (?ram (relu_word 1)) = 1"
    "?ld_st (relu_word 2) ! 0 # slice 4 9 (?ld_st (relu_word 2)) = [True, False, False, False, False, False, False]"
    "?unit 1 3 (?ld_st (relu_word 2)) = 0" "slice 2 10 (relu_word 3) = replicate 9 False"
    "?ld_st (relu_word 4) ! 0 # slice 4 9 (?ld_st (relu_word 4)) = [False, False, True, True, False, False, False]"
    "?unit 1 3 (?ld_st (relu_word 4)) = 0"
    "?ram (relu_word 5) ! 0 # slice 7 8 (?ram (relu_word 5)) = [True, False, True]"
    "?unit 1 3 (?ram (relu_word 5)) = 0" "?unit 4 6 (?ram (relu_word 5)) = 2"
    by code_simp+
  note u = relu_unit [OF assms(1), of 0] relu_unit [OF assms(1), of 1] relu_unit [OF assms(1), of 2]
  note push = body_push_def Let_def t f u relu_round_def
  let ?push = "body_push (header_formulas E) (shifted (header_formulas E) 0 (16 * q) (header_registers E)) 16"
  have "?push (relu_word 1) = relu_round q ! 0" by (simp add: push del: replicate.simps One_nat_def)
  moreover have "?push (relu_word 2) = relu_round q ! 1" by (simp add: push del: replicate.simps One_nat_def)
  moreover have "?push (relu_word 3) = relu_round q ! 2" by (simp add: push del: replicate.simps One_nat_def)
  moreover have "?push (relu_word 4) = relu_round q ! 3" by (simp add: push del: replicate.simps One_nat_def)
  moreover have "?push (relu_word 5) = relu_round q ! 4" by (simp add: push del: replicate.simps One_nat_def)
  moreover have "k = 0 \<or> k = 1 \<or> k = 2 \<or> k = 3 \<or> k = 4" using assms(2) by arith
  ultimately show ?thesis by (auto simp: numeral_eq_Suc)
qed

lemma relu_rounds:
  assumes "relu_env E" and "q < 8"
  shows "round_pushes E 6 5 True 0 128 16 (header_formulas E) (header_registers E) (q * loop_step True 16) = relu_round q"
proof (rule nth_equalityI)
  have c: "min (loop_step True 16) (128 - 16 * q) = 16" "q * loop_step True 16 = 16 * q"
    using assms(2) by (simp_all add: loop_step_def)
  fix k
  assume "k < length (round_pushes E 6 5 True 0 128 16 (header_formulas E) (header_registers E) (q * loop_step True 16))"
  then have k: "k < 5" by (simp add: round_pushes_def)
  have "icache E (6 + of_nat (Suc k)) = relu_word (Suc k)"
    using assms(1) k unfolding relu_env_def by (metis Suc_less_eq2 add_Suc eval_nat_numeral(3) less_SucI numeral_nat(2) semiring_norm(28))
  then have "icache E (of_nat (6 + 1 + k)) = relu_word (Suc k)" by (simp add: algebra_simps)
  then show "round_pushes E 6 5 True 0 128 16 (header_formulas E) (header_registers E) (q * loop_step True 16) ! k
      = relu_round q ! k"
    using relu_body_push [OF assms(1) k, of q] k by (simp add: round_pushes_def c del: of_nat_add)
qed (simp add: round_pushes_def relu_round_def)

lemma relu_pushes:
  assumes "relu_env E"
  shows "all_pushes E 6 5 True 0 128 16 = concat (map relu_round [0..<8]) @ [PushProgEnd]"
proof -
  have r: "rounds 128 (loop_step True 16) = 8" by code_simp
  have "map (\<lambda>q. round_pushes E 6 5 True 0 128 16 (header_formulas E) (header_registers E) (q * loop_step True 16)) [0..<8]
      = map relu_round [0..<8]"
    by (rule map_cong) (simp_all add: relu_rounds [OF assms])
  then show ?thesis unfolding all_pushes_def loop_pushes_def r by (simp only:)
qed

definition relu_entries :: "(instr_type \<times> nat) list" where
  "relu_entries =
     concat (replicate 8 [(INSTR_TYPE_RAM, 16), (INSTR_TYPE_LOAD_STORE, 16), (INSTR_TYPE_ARITHMETIC, 16),
       (INSTR_TYPE_LOAD_STORE, 16), (INSTR_TYPE_RAM, 16)]) @ [(INSTR_TYPE_PROG_END, 1)]"

text \<open>The places of round \<open>q\<close> start at \<open>39 q + 1\<close>.\<close>

definition offsets :: "nat list" where
  "offsets = [0, 4, 7, 20, 23]"

definition relu_places :: "nat list" where
  "relu_places = concat (map (\<lambda>q. map (\<lambda>p. 39 * q + 1 + p) offsets) [0..<8]) @ [317]"

lemma relu_entries_places: "places relu_entries new_book = relu_places"
  by code_simp

lemma relu_entries_eq:
  assumes "relu_env E"
  shows "map entry_of (all_pushes E 6 5 True 0 128 16) = relu_entries"
proof -
  have "map entry_of (relu_round q) = [(INSTR_TYPE_RAM, 16), (INSTR_TYPE_LOAD_STORE, 16), (INSTR_TYPE_ARITHMETIC, 16),
       (INSTR_TYPE_LOAD_STORE, 16), (INSTR_TYPE_RAM, 16)]" for q
    by (simp add: relu_round_def)
  then have "map (map entry_of) (map relu_round [0..<8])
      = replicate 8 [(INSTR_TYPE_RAM, 16), (INSTR_TYPE_LOAD_STORE, 16), (INSTR_TYPE_ARITHMETIC, 16),
       (INSTR_TYPE_LOAD_STORE, 16), (INSTR_TYPE_RAM, 16)]"
    by (simp add: map_replicate_const [symmetric] o_def del: replicate.simps) (simp add: map_replicate_const)
  then show ?thesis by (simp add: relu_pushes [OF assms] relu_entries_def map_concat)
qed

lemma relu_ahead:
  "list_all (\<lambda>N. N = 0 \<or> N div 5 * (3 * 5 + 4) + 3 * (N mod 5) + 2 \<le> relu_places ! N) [0..<40]"
  "list_all (\<lambda>p. snd p \<le> 16) relu_entries" "length relu_entries = 41"
  "list_all (\<lambda>y. length (filter (\<lambda>p. fst p = y) relu_entries) < 62) all_type_list"
  by code_simp+

lemma relu_early:
  assumes "relu_env E" and "waiting u"
  shows "early E 16 u"
proof -
  have r: "rounds 128 (loop_step True 16) * 5 = 40" by code_simp
  have "early E (of_nat 16) u"
  proof (rule loop_early [OF assms(2) relu_program(1) [OF assms(1)] _ _ _ _ _ _ relu_entries_eq [OF assms(1), symmetric]])
    show "length (icache E pc) = 16" for pc using assms(1) by (simp add: relu_env_def)
    fix N
    assume "0 < N" "N < rounds 128 (loop_step True 16) * 5"
    then show "N div 5 * (3 * 5 + 4) + 3 * (N mod 5) + 2 \<le> places relu_entries new_book ! N"
      using relu_ahead(1) [unfolded list_all_length, rule_format, of N] unfolding r relu_entries_places by simp
  next
    fix k
    show "book_small (book_of (take k relu_entries))"
      using relu_ahead(2,3) by (intro book_small_few) (auto simp: list_all_iff dest: in_set_takeD)
  next
    fix y
    show "length (filter (\<lambda>p. fst p = y) relu_entries) < 62"
      using relu_ahead(4) by (cases y) simp_all
  qed simp_all
  then show ?thesis by simp
qed

section \<open>What is issued where\<close>

text \<open>The queue holds the whole program.\<close>

definition relu_queue :: "(nat \<times> iq_in) list \<Rightarrow> bool" where
  "relu_queue ps \<longleftrightarrow>
     list_all2 (\<lambda>p a. same p (snd a)) (concat (map relu_round [0..<8]) @ [PushProgEnd]) ps
     \<and> map fst ps = relu_places \<and> sorted_wrt apart ps"

lemma nth_rounds:
  assumes "\<And>q. length (f q) = 5" and "q < 8" and "i < 5"
  shows "(concat (map f [0..<8]) @ zs) ! (5 * q + i) = f q ! i"
proof -
  have l: "length (concat (map f [0..<r])) = 5 * r" for r by (induction r) (simp_all add: assms(1))
  have "concat (map f [0..<r]) ! (5 * q + i) = f q ! i" if "q < r" for r
    using that
  proof (induction r)
    case (Suc r)
    then show ?case using assms(1,3) by (cases "q = r") (simp_all add: nth_append l)
  qed simp
  then show ?thesis using assms(2,3) l [of 8] by (simp add: nth_append)
qed

lemma relu_places_nth: "q < 8 \<Longrightarrow> i < 5 \<Longrightarrow> relu_places ! (5 * q + i) = 39 * q + 1 + offsets ! i"
proof -
  have "length offsets = 5" by (simp add: offsets_def)
  moreover assume "q < 8" "i < 5"
  ultimately show ?thesis unfolding relu_places_def by (subst nth_rounds) simp_all
qed

lemma relu_member:
  assumes "relu_queue ps"
  shows "q < 8 \<Longrightarrow> i < 5 \<Longrightarrow> \<exists>x \<in> set ps. fst x = 39 * q + 1 + offsets ! i \<and> same (relu_round q ! i) (snd x)"
    and "\<exists>x \<in> set ps. same PushProgEnd (snd x) \<and> fst x = 317"
    and "x \<in> set ps \<Longrightarrow> same PushProgEnd (snd x) \<and> fst x = 317
       \<or> (\<exists>q < 8. \<exists>i < 5. fst x = 39 * q + 1 + offsets ! i \<and> same (relu_round q ! i) (snd x))"
proof -
  let ?pushes = "concat (map relu_round [0..<8]) @ [PushProgEnd]"
  have "length relu_places = 41" by code_simp
  then have l: "length ps = 41" using assms unfolding relu_queue_def by (metis length_map)
  have at: "fst (ps ! N) = relu_places ! N" "same (?pushes ! N) (snd (ps ! N))" if "N < 41" for N
    using assms that l unfolding relu_queue_def list_all2_conv_all_nth by (metis nth_map)+
  have here: "fst (ps ! (5 * q + i)) = 39 * q + 1 + offsets ! i \<and> same (relu_round q ! i) (snd (ps ! (5 * q + i)))"
    if "q < 8" "i < 5" for q i
    using at [of "5 * q + i"] that relu_places_nth [OF that] nth_rounds [of relu_round q i "[PushProgEnd]"]
    by (simp add: relu_round_def)
  show "\<exists>x \<in> set ps. fst x = 39 * q + 1 + offsets ! i \<and> same (relu_round q ! i) (snd x)" if "q < 8" "i < 5"
    using here [OF that] that l by (intro bexI [of _ "ps ! (5 * q + i)"]) auto
  have end_at: "fst (ps ! 40) = 317" "same PushProgEnd (snd (ps ! 40))"
  proof -
    have "?pushes ! 40 = PushProgEnd" "relu_places ! 40 = 317" by code_simp+
    then show "fst (ps ! 40) = 317" "same PushProgEnd (snd (ps ! 40))" using at [of 40] by simp_all
  qed
  then show "\<exists>x \<in> set ps. same PushProgEnd (snd x) \<and> fst x = 317"
    using l by (intro bexI [of _ "ps ! 40"]) auto
  assume "x \<in> set ps"
  then obtain N where N: "N < 41" "x = ps ! N" using l by (auto simp: in_set_conv_nth)
  show "same PushProgEnd (snd x) \<and> fst x = 317
     \<or> (\<exists>q < 8. \<exists>i < 5. fst x = 39 * q + 1 + offsets ! i \<and> same (relu_round q ! i) (snd x))"
  proof (cases "N = 40")
    case True
    then show ?thesis using end_at N(2) by simp
  next
    case False
    then have "N div 5 < 8" "N mod 5 < 5" "N = 5 * (N div 5) + N mod 5" using N(1) by simp_all
    then show ?thesis using here [of "N div 5" "N mod 5"] N(2) by metis
  qed
qed

text \<open>The place of the fetch of each tile, and the instructions that take it through the pipelines.\<close>

definition fetch_place :: "nat \<Rightarrow> nat" where
  "fetch_place a = 39 * (a div 16) + 1 + a mod 16"

definition fetch_instr :: "nat \<Rightarrow> dma_instruction" where
  "fetch_instr a = \<lparr>dma_valid = True, dma_mem_we = False, dma_main_mem_addr = of_nat a, dma_cache_slot = [False, False],
     dma_cache_addr = of_nat a\<rparr>"

definition write_instr_of :: "nat \<Rightarrow> dma_instruction" where
  "write_instr_of a = \<lparr>dma_valid = True, dma_mem_we = True, dma_main_mem_addr = of_nat a, dma_cache_slot = [False, True],
     dma_cache_addr = of_nat a\<rparr>"

definition load_instr :: "nat \<Rightarrow> regfile_instruction" where
  "load_instr a = \<lparr>reg_valid = True, reg_is_load = True, reg_cache_slot = [False, False], reg_cache_addr = of_nat a,
     reg_superscalar_thread = of_nat (a mod 16), reg_regfile_reg = [False, False]\<rparr>"

definition store_instr :: "nat \<Rightarrow> regfile_instruction" where
  "store_instr a = \<lparr>reg_valid = True, reg_is_load = False, reg_cache_slot = [False, True], reg_cache_addr = of_nat a,
     reg_superscalar_thread = of_nat (a mod 16), reg_regfile_reg = [True, False]\<rparr>"

definition compute_instr :: "nat \<Rightarrow> math_instr" where
  "compute_instr a = \<lparr>math_valid = True, math_category = replicate 3 False, math_options = replicate 6 False,
     math_superscalar_thread = of_nat (a mod 16)\<rparr>"

lemma ucast_of_nat_down: "LENGTH('b) \<le> LENGTH('a) \<Longrightarrow> ucast (of_nat n :: 'a::len word) = (of_nat n :: 'b::len word)"
  by (rule bit_word_eqI) (simp add: bit_simps)

lemma relu_copies: "i < 5 \<Longrightarrow> same (relu_round q ! i) x \<Longrightarrow> copies x = 16"
proof -
  assume "i < 5" and s: "same (relu_round q ! i) x"
  then have "i = 0 \<or> i = 1 \<or> i = 2 \<or> i = 3 \<or> i = 4" by arith
  then show ?thesis using s by (elim disjE) (simp_all add: relu_round_def copies_def)
qed

text \<open>A tile is its round and its thread.\<close>

lemma tile_of: "q < 8 \<Longrightarrow> j < 16 \<Longrightarrow> 16 * q + j < 128 \<and> (16 * q + j) div 16 = q \<and> (16 * q + j) mod 16 = (j :: nat)"
  by simp

lemma issued_at:
  assumes "relu_queue ps" and "a < 128" and "i < 5" and "k = fetch_place a + offsets ! i"
  shows "\<exists>x. issued (fst (entry_of (relu_round (a div 16) ! i))) ps k = Some x \<and> k - fst x = a mod 16
     \<and> same (relu_round (a div 16) ! i) (snd x)"
proof -
  have q: "a div 16 < 8" using assms(2) by simp
  obtain x where x: "x \<in> set ps" "fst x = 39 * (a div 16) + 1 + offsets ! i" "same (relu_round (a div 16) ! i) (snd x)"
    using relu_member(1) [OF assms(1) q assms(3)] by blast
  then have k: "k = fst x + a mod 16" using assms(4) by (simp add: fetch_place_def)
  have "copies (snd x) = 16" by (rule relu_copies [OF assms(3) x(3)])
  then have "issued (fst (entry_of (relu_round (a div 16) ! i))) ps k = Some x"
    using assms(1) x(1) same_entry(1) [OF x(3)] k by (simp add: issued_iff relu_queue_def)
  then show ?thesis using k x(3) by auto
qed

lemma issued_from:
  assumes "relu_queue ps" and "issued t ps k = Some x" and "t \<noteq> INSTR_TYPE_PROG_END"
  shows "\<exists>a < 128. \<exists>i < 5. k = fetch_place a + offsets ! i \<and> t = fst (entry_of (relu_round (a div 16) ! i))"
proof -
  have x: "x \<in> set ps" "in_instr_type (snd x) = t" "fst x \<le> k" "k < fst x + copies (snd x)"
    using assms by (simp_all add: issued_iff relu_queue_def)
  then obtain q i where q: "q < 8" "i < 5" "fst x = 39 * q + 1 + offsets ! i" "same (relu_round q ! i) (snd x)"
    using relu_member(3) [OF assms(1) x(1)] assms(3) by auto
  have "copies (snd x) = 16" by (rule relu_copies [OF q(2,4)])
  then obtain j where j: "j < 16" "k = fst x + j" using x(3,4) by (metis add_less_cancel_left le_Suc_ex)
  note a = tile_of [OF q(1) j(1)]
  have "k = fetch_place (16 * q + j) + offsets ! i"
    using a by (simp add: j(2) q(3) fetch_place_def)
  moreover have "t = fst (entry_of (relu_round q ! i))" using same_entry(1) [OF q(4)] x(2) by simp
  ultimately show ?thesis using a q(2) by (intro exI [of _ "16 * q + j"] conjI exI [of _ i]) simp_all
qed

text \<open>What is handed out at each place.\<close>

abbreviation cache_at :: "(nat \<times> iq_in) list \<Rightarrow> nat \<Rightarrow> regfile_instruction option" where
  "cache_at ps k \<equiv> fst (instrs (handed_at ps k))"

abbreviation dma_at :: "(nat \<times> iq_in) list \<Rightarrow> nat \<Rightarrow> dma_instruction option" where
  "dma_at ps k \<equiv> fst (snd (instrs (handed_at ps k)))"

abbreviation math_at :: "(nat \<times> iq_in) list \<Rightarrow> nat \<Rightarrow> math_instr option" where
  "math_at ps k \<equiv> snd (snd (instrs (handed_at ps k)))"

lemma handed_parts:
  "cache_at ps k = map_option (\<lambda>a. cache_copy (snd a) (k - fst a)) (issued INSTR_TYPE_LOAD_STORE ps k)"
  "dma_at ps k = map_option (\<lambda>a. dma_copy (snd a) (k - fst a)) (issued INSTR_TYPE_RAM ps k)"
  "math_at ps k = map_option (\<lambda>a. math_copy (snd a) (k - fst a)) (issued INSTR_TYPE_ARITHMETIC ps k)"
  by (simp_all add: instrs_def handed_at_def)

lemma tile_address: "of_nat (16 * (a div 16)) + of_nat (a mod 16) = (of_nat a :: 'a::len word)"
  by (simp only: of_nat_add [symmetric] mult_div_mod_eq)

lemma relu_at:
  assumes "relu_queue ps" and "a < 128"
  shows "dma_at ps (fetch_place a) = Some (fetch_instr a)"
    and "cache_at ps (fetch_place a + 4) = Some (load_instr a)"
    and "math_at ps (fetch_place a + 7) = Some (compute_instr a)"
    and "cache_at ps (fetch_place a + 20) = Some (store_instr a)"
    and "dma_at ps (fetch_place a + 23) = Some (write_instr_of a)"
proof -
  note at = issued_at [OF assms, unfolded offsets_def relu_round_def]
  note copies = ucast_of_nat_down tile_address slice_def
  show "dma_at ps (fetch_place a) = Some (fetch_instr a)"
    using at [of 0 "fetch_place a"] by (auto simp: handed_parts dma_copy_def fetch_instr_def copies simp del: of_nat_mult)
  show "cache_at ps (fetch_place a + 4) = Some (load_instr a)"
    using at [of 1 "fetch_place a + 4"] by (auto simp: handed_parts cache_copy_def load_instr_def copies simp del: of_nat_mult)
  show "math_at ps (fetch_place a + 7) = Some (compute_instr a)"
    using at [of 2 "fetch_place a + 7"] by (auto simp: handed_parts math_copy_def compute_instr_def copies simp del: of_nat_mult)
  show "cache_at ps (fetch_place a + 20) = Some (store_instr a)"
    using at [of 3 "fetch_place a + 20"] by (auto simp: handed_parts cache_copy_def store_instr_def copies simp del: of_nat_mult)
  show "dma_at ps (fetch_place a + 23) = Some (write_instr_of a)"
    using at [of 4 "fetch_place a + 23"] by (auto simp: handed_parts dma_copy_def write_instr_of_def copies simp del: of_nat_mult)
qed

lemma relu_from:
  assumes "relu_queue ps"
  shows "dma_at ps k \<noteq> None \<Longrightarrow> \<exists>a < 128. k = fetch_place a \<or> k = fetch_place a + 23"
    and "cache_at ps k \<noteq> None \<Longrightarrow> \<exists>a < 128. k = fetch_place a + 4 \<or> k = fetch_place a + 20"
    and "math_at ps k \<noteq> None \<Longrightarrow> \<exists>a < 128. k = fetch_place a + 7"
proof -
  have from_place: "\<exists>a < 128. \<exists>i < 5. k = fetch_place a + offsets ! i \<and> t = fst (entry_of (relu_round (a div 16) ! i))"
    if "issued t ps k \<noteq> None" "t \<noteq> INSTR_TYPE_PROG_END" for t
    using that issued_from [OF assms] by blast
  have five: "P 0 \<or> P 1 \<or> P 2 \<or> P 3 \<or> P 4" if "\<exists>i < 5. P i" for P :: "nat \<Rightarrow> bool"
    using that by (auto simp: less_Suc_eq numeral_eq_Suc)
  show "\<exists>a < 128. k = fetch_place a \<or> k = fetch_place a + 23" if n: "dma_at ps k \<noteq> None"
  proof -
    have "issued INSTR_TYPE_RAM ps k \<noteq> None" using n by (simp add: handed_parts)
    then obtain a where a: "a < 128"
      "\<exists>i < 5. k = fetch_place a + offsets ! i \<and> INSTR_TYPE_RAM = fst (entry_of (relu_round (a div 16) ! i))"
      using from_place by blast
    then show ?thesis using five [OF a(2)] by (auto simp: offsets_def relu_round_def)
  qed
  show "\<exists>a < 128. k = fetch_place a + 4 \<or> k = fetch_place a + 20" if n: "cache_at ps k \<noteq> None"
  proof -
    have "issued INSTR_TYPE_LOAD_STORE ps k \<noteq> None" using n by (simp add: handed_parts)
    then obtain a where a: "a < 128"
      "\<exists>i < 5. k = fetch_place a + offsets ! i \<and> INSTR_TYPE_LOAD_STORE = fst (entry_of (relu_round (a div 16) ! i))"
      using from_place by blast
    then show ?thesis using five [OF a(2)] by (auto simp: offsets_def relu_round_def)
  qed
  show "\<exists>a < 128. k = fetch_place a + 7" if n: "math_at ps k \<noteq> None"
  proof -
    have "issued INSTR_TYPE_ARITHMETIC ps k \<noteq> None" using n by (simp add: handed_parts)
    then obtain a where a: "a < 128"
      "\<exists>i < 5. k = fetch_place a + offsets ! i \<and> INSTR_TYPE_ARITHMETIC = fst (entry_of (relu_round (a div 16) ! i))"
      using from_place by blast
    then show ?thesis using five [OF a(2)] by (auto simp: offsets_def relu_round_def)
  qed
qed

text \<open>The program ends at place 317.\<close>

lemma relu_end:
  assumes "relu_queue ps"
  shows "snd (snd (snd (handed_at ps k))) \<longleftrightarrow> k = 317"
proof -
  have covers: "fst x = 317 \<and> copies (snd x) = 1" if x: "x \<in> set ps" "in_instr_type (snd x) = INSTR_TYPE_PROG_END" for x
  proof -
    have "\<not> (i < 5 \<and> same (relu_round q ! i) (snd x))" for q i
    proof
      assume s: "i < 5 \<and> same (relu_round q ! i) (snd x)"
      then have "i = 0 \<or> i = 1 \<or> i = 2 \<or> i = 3 \<or> i = 4" by arith
      then have "fst (entry_of (relu_round q ! i)) \<noteq> INSTR_TYPE_PROG_END" by (elim disjE) (simp_all add: relu_round_def)
      then show False using same_entry(1) [of "relu_round q ! i" "snd x"] s x(2) by simp
    qed
    then show ?thesis using relu_member(3) [OF assms x(1)] x(2) by (auto simp: copies_def)
  qed
  obtain x where x: "x \<in> set ps" "same PushProgEnd (snd x)" "fst x = 317" using relu_member(2) [OF assms] by blast
  then have t: "in_instr_type (snd x) = INSTR_TYPE_PROG_END" by simp
  have iff: "issued INSTR_TYPE_PROG_END ps k = Some y
      \<longleftrightarrow> y \<in> set ps \<and> in_instr_type (snd y) = INSTR_TYPE_PROG_END \<and> fst y \<le> k \<and> k < fst y + copies (snd y)" for y
    using assms by (simp add: issued_iff relu_queue_def)
  have "issued INSTR_TYPE_PROG_END ps k \<noteq> None \<longleftrightarrow> k = 317"
  proof
    assume "issued INSTR_TYPE_PROG_END ps k \<noteq> None"
    then show "k = 317" using iff covers by fastforce
  next
    assume "k = 317"
    then show "issued INSTR_TYPE_PROG_END ps k \<noteq> None" using iff [of x] covers [OF x(1) t] x t by simp
  qed
  then show ?thesis by (simp add: handed_at_def)
qed

end
