(* ===== verification/Progress.thy ===== *)
theory Progress
  imports Views
begin

text \<open>
  The instruction queue keeps going: once a push is in the queue, every unfrozen clock pops until the pops
  have gone beyond its place.
\<close>

section \<open>An empty queue is read to its end\<close>

lemma empty_beyond:
  "always iq_clk iq_used qs q \<Longrightarrow> (empty q \<longrightarrow> beyond_all q) \<Longrightarrow>
     empty (run iq_clk qs q) \<longrightarrow> beyond_all (run iq_clk qs q)"
proof (induction qs arbitrary: q)
  case (Cons i qs)
  have used: "iq_used i q" using Cons.prems(1) by simp
  have "beyond_all (iq_clk i q)" if e: "empty (iq_clk i q)"
  proof -
    have next_e: "empty_next i q" using e by (simp add: iq_clk_def Let_def)
    then have we: "\<not> q_we i" using used by (auto simp: empty_next_def iq_used_def split: if_splits)
    have len: "varr_len (iq_clk i q) t = varr_len q t" for t
      using we by (simp add: varr_len_def varr_clk) (simp add: varray_clk_def varr_in_def)
    have b: "beyond_all q" using next_e we Cons.prems(2) by (simp add: empty_next_def split: if_splits)
    have "varray_read_pos q \<le> varray_read_pos (iq_clk i q)"
      using read_pos_clk [OF used, of INSTR_TYPE_RAM] by (simp add: word_le_nat_alt pos_after_def)
    then show ?thesis using b by (auto simp: beyond_all_def len)
  qed
  then show ?case using Cons by simp
qed simp

lemma pops_read_pos:
  "always iq_clk iq_used qs q \<Longrightarrow>
     unat (varray_read_pos (run iq_clk qs q)) = unat (varray_read_pos q) + length (filter q_re qs)"
proof (induction qs arbitrary: q)
  case (Cons i qs)
  then have "unat (varray_read_pos (iq_clk i q)) = unat (varray_read_pos q) + (if q_re i then 1 else 0)"
    using read_pos_clk [of i q INSTR_TYPE_RAM] by (simp add: pos_after_def varr_in_def)
  then show ?case using Cons by simp
qed simp

section \<open>Pops after a push\<close>

lemma trace_append: "trace step f (is @ js) s = trace step f is s @ trace step f js (run step is s)"
  by (induction "is" arbitrary: s) simp_all

lemma queue_waits_for:
  assumes ok: "device_start (dev c)" "iq_start (queue c)" "early E W (control (dev c))" "never_full E W (dev c)"
    and a: "a \<in> set (trace iq_clk iq_pushes (queue_ins E W is c) (queue c))" "fst a + copies (snd a) = e"
    and empty: "empty (queue (run (core_clk E W) (is @ js) c))"
  shows "e \<le> count_list (popped E W (is @ js) c) True"
proof -
  let ?qs = "queue_ins E W (is @ js) c" and ?q = "queue c"
  have s: "on_schedule E W (is @ js) c" by (rule on_schedule_run [OF ok])
  then have used: "always iq_clk iq_used ?qs ?q" by (simp add: on_schedule_def Let_def)
  have r: "queue (run (core_clk E W) (is @ js) c) = run iq_clk ?qs ?q" by (rule core_parts)
  have "beyond_all ?q"
    using ok(2) iq_start_varr [OF ok(2)] by (simp add: beyond_all_def iq_start_def)
  then have b: "beyond_all (run iq_clk ?qs ?q)" using empty_beyond [OF used] empty by (simp add: r)
  have "a \<in> set (trace iq_clk iq_pushes ?qs ?q)"
    using a(1) by (simp add: queue_ins_append trace_append)
  moreover have "iq_inv (trace iq_clk iq_pushes ?qs ?q) (run iq_clk ?qs ?q)"
    using iq_inv_run [OF iq_start_inv [OF ok(2)] used] by simp
  ultimately have "e \<le> unat (varr_len (run iq_clk ?qs ?q) (in_instr_type (snd a)))"
    using a(2) unfolding iq_inv_def by blast
  also have "\<dots> \<le> unat (varray_read_pos (run iq_clk ?qs ?q))"
    using b by (cases "in_instr_type (snd a)") (simp_all add: beyond_all_def word_le_nat_alt)
  also have "\<dots> = length (filter q_re ?qs)"
    using pops_read_pos [OF used] ok(2) by (simp add: iq_start_def)
  finally show ?thesis by (simp only: count_popped)
qed

lemma popped_append: "popped E W (is @ js) c = popped E W is c @ popped E W js (run (core_clk E W) is c)"
  by (induction "is" arbitrary: c) (simp_all add: popped_def)

lemma count_take_mono: "x \<le> y \<Longrightarrow> count_list (take x fl) b \<le> count_list (take y fl) b"
proof -
  assume "x \<le> y"
  then obtain d where "y = x + d" using le_Suc_ex by blast
  then show ?thesis by (simp add: take_add)
qed

text \<open>A list of clocks that pop until there were \<open>e\<close> pops.\<close>

definition pops_until :: "nat \<Rightarrow> nat \<Rightarrow> bool list \<Rightarrow> bool" where
  "pops_until e n fl \<longleftrightarrow> (\<forall>x < length fl. fl ! x \<or> e \<le> n + count_list (take x fl) True)"

lemma pops_until_snoc: "pops_until e n fl \<Longrightarrow> b \<or> e \<le> n + count_list fl True \<Longrightarrow> pops_until e n (fl @ [b])"
  by (auto simp: pops_until_def nth_append less_Suc_eq)

lemma pops_until_count:
  assumes "pops_until e n fl" and "x \<le> length fl"
  shows "e \<le> n + count_list (take x fl) True \<or> x \<le> count_list (take x fl) True"
  using assms(2)
proof (induction x)
  case (Suc x)
  then have "x < length fl" by simp
  then have t: "take (Suc x) fl = take x fl @ [fl ! x]" by (rule take_Suc_conv_app_nth)
  have "fl ! x \<or> e \<le> n + count_list (take x fl) True" using assms(1) \<open>x < length fl\<close> by (simp add: pops_until_def)
  then show ?case using Suc by (auto simp: t)
qed simp

lemma keeps_popping:
  assumes ok: "device_start (dev c)" "iq_start (queue c)" "early E W (control (dev c))" "never_full E W (dev c)"
    and a: "a \<in> set (trace iq_clk iq_pushes (queue_ins E W is c) (queue c))" "fst a + copies (snd a) = e"
  shows "pops_until e (count_list (popped E W is c) True) (popped E W js (run (core_clk E W) is c))"
proof (induction js rule: rev_induct)
  case (snoc j js)
  let ?c = "run (core_clk E W) is c" and ?c' = "run (core_clk E W) (is @ js) c"
  have r: "run (core_clk E W) js ?c = ?c'" by (simp add: run_append)
  have new: "popped E W [j] ?c' = (if fst j then [] else [\<not> empty (queue ?c')])" by (simp add: popped_def)
  show ?case
  proof (cases "fst j")
    case True
    then show ?thesis using snoc by (simp add: popped_append r new)
  next
    case False
    have "e \<le> count_list (popped E W is c) True + count_list (popped E W js ?c) True" if "empty (queue ?c')"
      using queue_waits_for [OF ok a that] by (simp add: popped_append)
    then show ?thesis using snoc False by (simp add: popped_append r new pops_until_snoc)
  qed
qed (simp add: popped_def pops_until_def)

text \<open>So after \<open>e\<close> unfrozen clocks each place before \<open>e\<close> was shown.\<close>

lemma shown_by:
  assumes ok: "device_start (dev c)" "iq_start (queue c)" "early E W (control (dev c))" "never_full E W (dev c)"
    and a: "a \<in> set (trace iq_clk iq_pushes (queue_ins E W is c) (queue c))" "fst a + copies (snd a) = e"
    and h: "counts_pops (popped E W (is @ js) c) n h"
    and long: "e < length (seen E W js (run (core_clk E W) is c))" and k: "k < e"
  shows "k < n" and "h k < length (seen E W (is @ js) c)"
proof -
  let ?fl = "popped E W is c" and ?gl = "popped E W js (run (core_clk E W) is c)"
  have gl: "e < length ?gl" using long by (simp add: length_seen)
  have "e \<le> count_list ?fl True + count_list (take e ?gl) True"
    using pops_until_count [OF keeps_popping [OF ok a], of e js] gl by auto
  then have e: "e \<le> count_list (take (length ?fl + e) (?fl @ ?gl)) True" by simp
  then show n: "k < n"
    using k h count_take_mono [of "length ?fl + e" "length (?fl @ ?gl)" "?fl @ ?gl" True] gl
    by (simp add: counts_pops_def popped_append)
  then obtain y where y: "h k = Suc y" "count_list (take y (?fl @ ?gl)) True = k"
    using h by (auto simp: counts_pops_def popped_append)
  have "\<not> length ?fl + e \<le> y"
    using count_take_mono [of "length ?fl + e" y "?fl @ ?gl" True] e y(2) k by linarith
  then show "h k < length (seen E W (is @ js) c)"
    using gl by (simp add: y(1) length_seen popped_append)
qed

end
