(* ===== verification/ReluDevice.thy ===== *)
theory ReluDevice
  imports ReluQueue Progress
begin

text \<open>
  The relu program on the joined device: each tile is fetched, computed and written back in order,
  however the pipelines freeze.
\<close>

section \<open>Events in order\<close>

text \<open>If the places at which something happens are numbered in order, and from some number on there are
  no more, the list of these places is the list of the first numbers'.\<close>

lemma events_in_order:
  assumes P: "\<And>x. x < L \<Longrightarrow> P x \<longleftrightarrow> (\<exists>a < m. D a \<and> x = e a)"
    and down: "\<And>a b. a < b \<Longrightarrow> b < m \<Longrightarrow> D b \<Longrightarrow> D a \<and> e a < e b"
  shows "\<exists>r \<le> m. filter P [0..<L] = map e [0..<r] \<and> (\<forall>a < m. a < r \<longleftrightarrow> D a \<and> e a < L)"
proof -
  let ?A = "\<lambda>a. a < m \<and> D a \<and> e a < L"
  have A: "?A a" if "a \<le> b" "?A b" for a b
    using that down [of a b] by (cases "a = b") auto
  have "\<exists>r \<le> m. \<forall>a. ?A a \<longleftrightarrow> a < r"
  proof (intro exI conjI allI)
    let ?r = "LEAST r. \<not> ?A r"
    have "\<not> ?A m" by simp
    then show "?r \<le> m" by (rule Least_le)
    fix a
    show "?A a \<longleftrightarrow> a < ?r"
      using LeastI [of "\<lambda>r. \<not> ?A r" m] not_less_Least [of a "\<lambda>r. \<not> ?A r"] A [of ?r a] by (cases "a < ?r") auto
  qed
  then obtain r where r: "r \<le> m" "\<And>a. ?A a \<longleftrightarrow> a < r" by blast
  have "sorted_wrt (<) (map e [0..<r])"
    unfolding sorted_wrt_map
    by (rule sorted_wrt_mono_rel [OF _ sorted_wrt_upt]) (use r(2) down in auto)
  moreover have "sorted_wrt (<) (filter P [0..<L])" by (intro sorted_wrt_filter sorted_wrt_upt)
  moreover have "set (filter P [0..<L]) = set (map e [0..<r])"
  proof (intro equalityI subsetI)
    fix x
    assume "x \<in> set (filter P [0..<L])"
    then show "x \<in> set (map e [0..<r])" using P [of x] r(2) by fastforce
  next
    fix x
    assume "x \<in> set (map e [0..<r])"
    then obtain a where "x = e a" "a < m \<and> D a \<and> e a < L" using r(2) by auto
    then show "x \<in> set (filter P [0..<L])" using P [of x] by auto
  qed
  ultimately have "filter P [0..<L] = map e [0..<r]" by (metis strict_sorted_equal)
  then show ?thesis using r by (intro exI [of _ r]) auto
qed

lemma concat_filter: "concat (map (\<lambda>x. if P x then [f x] else []) xs) = map f (filter P xs)"
  by (induction xs) simp_all

lemma filter_nth: "filter P xs = map ((!) xs) (filter (\<lambda>x. P (xs ! x)) [0..<length xs])"
proof -
  have "filter P (map ((!) xs) [0..<length xs]) = map ((!) xs) (filter (P \<circ> (!) xs) [0..<length xs])"
    by (rule filter_map)
  then show ?thesis by (simp add: map_nth o_def)
qed

section \<open>Who does what\<close>

lemma fetch_place_less: "a < b \<Longrightarrow> fetch_place a < fetch_place b"
proof -
  assume "a < b"
  then have "16 * (a div 16) + a mod 16 < 16 * (b div 16) + b mod 16" "a div 16 \<le> b div 16"
    by (simp_all add: div_le_mono)
  moreover have "a mod 16 < 16" "b mod 16 < 16" by simp_all
  ultimately show ?thesis unfolding fetch_place_def by linarith
qed

lemma fetch_place_eq [simp]: "fetch_place a = fetch_place b \<longleftrightarrow> a = b"
  using fetch_place_less [of a b] fetch_place_less [of b a] by (cases a b rule: linorder_cases) auto

lemma same_thread: "a mod 16 = b mod 16 \<Longrightarrow> fetch_place a < fetch_place b \<Longrightarrow> fetch_place a + 39 \<le> fetch_place b"
proof -
  assume m: "a mod 16 = b mod 16" and "fetch_place a < fetch_place b"
  then have "39 * (a div 16) < 39 * (b div 16)" by (simp add: fetch_place_def)
  then have "39 * Suc (a div 16) \<le> 39 * (b div 16)" by simp
  then show ?thesis by (simp add: fetch_place_def m)
qed

definition relu_shown :: "nat \<Rightarrow> (nat \<Rightarrow> nat) \<Rightarrow> handed list \<Rightarrow> bool" where
  "relu_shown n h hs \<longleftrightarrow> (\<exists>ps. relu_queue ps \<and> shows_copies ps n h hs)"

definition relu_view :: "nat \<Rightarrow> (nat \<Rightarrow> nat) \<Rightarrow> exec_in list \<Rightarrow> bool" where
  "relu_view n h es \<longleftrightarrow> (\<exists>hs. relu_shown n h hs \<and> map view es = map instrs hs)"

lemma relu_view_copies:
  assumes "relu_view n h es"
  shows "\<exists>ps. relu_queue ps \<and> (\<forall>k < n. (\<forall>k' < k. h k' < h k) \<and> (h k < length es \<longrightarrow> view (es ! h k) = instrs (handed_at ps k)))
     \<and> (\<forall>x < length es. view (es ! x) \<noteq> (None, None, None) \<longrightarrow> (\<exists>k < n. x = h k))"
proof -
  obtain hs ps where ps: "relu_queue ps" "shows_copies ps n h hs" and m: "map view es = map instrs hs"
    using assms unfolding relu_view_def relu_shown_def by blast
  have len: "length es = length hs" using m by (metis length_map)
  have at: "view (es ! x) = instrs (hs ! x)" if "x < length es" for x
    using arg_cong [OF m, of "\<lambda>l. l ! x"] that len by simp
  have "instrs nothing = (None, None, None)" by (simp add: instrs_def)
  then show ?thesis using ps at len unfolding shows_copies_def by (intro exI [of _ ps]) metis
qed

lemma view_parts:
  "fst (view i) = Some c \<longleftrightarrow> reg_valid (cache_instr_stage_1 i) \<and> cache_instr_stage_1 i = c"
  "fst (snd (view i)) = Some d \<longleftrightarrow> dma_valid (dma_stage_1_instr i) \<and> dma_stage_1_instr i = d"
  "snd (snd (view i)) = Some m \<longleftrightarrow> math_valid (m_instr i) \<and> m_instr i = m"
  by (auto simp: view_def)

lemma relu_view_h:
  assumes "relu_view n h es" and "k < n" and "k' < n"
  shows "h k < h k' \<longleftrightarrow> k < k'" and "h k = h k' \<longleftrightarrow> k = k'"
  using relu_view_copies [OF assms(1)] assms(2,3) by (metis less_irrefl less_not_sym linorder_neqE_nat)+

lemma relu_view_at:
  assumes v: "relu_view n h es" and a: "a < 128"
  shows "fetch_place a < n \<Longrightarrow> h (fetch_place a) < length es \<Longrightarrow>
      dma_stage_1_instr (es ! h (fetch_place a)) = fetch_instr a"
    and "fetch_place a + 4 < n \<Longrightarrow> h (fetch_place a + 4) < length es \<Longrightarrow>
      cache_instr_stage_1 (es ! h (fetch_place a + 4)) = load_instr a"
    and "fetch_place a + 7 < n \<Longrightarrow> h (fetch_place a + 7) < length es \<Longrightarrow>
      m_instr (es ! h (fetch_place a + 7)) = compute_instr a"
    and "fetch_place a + 20 < n \<Longrightarrow> h (fetch_place a + 20) < length es \<Longrightarrow>
      cache_instr_stage_1 (es ! h (fetch_place a + 20)) = store_instr a"
    and "fetch_place a + 23 < n \<Longrightarrow> h (fetch_place a + 23) < length es \<Longrightarrow>
      dma_stage_1_instr (es ! h (fetch_place a + 23)) = write_instr_of a"
proof -
  obtain ps where ps: "relu_queue ps" "\<And>k. k < n \<Longrightarrow> h k < length es \<Longrightarrow> view (es ! h k) = instrs (handed_at ps k)"
    using relu_view_copies [OF v] by blast
  note view = ps(2)
  have d: "dma_stage_1_instr (es ! h k) = d" if "k < n" "h k < length es" "dma_at ps k = Some d" for k d
    using view [OF that(1,2)] that(3) by (metis view_parts(2))
  have c: "cache_instr_stage_1 (es ! h k) = c" if "k < n" "h k < length es" "cache_at ps k = Some c" for k c
    using view [OF that(1,2)] that(3) by (metis view_parts(1))
  have m: "m_instr (es ! h k) = m" if "k < n" "h k < length es" "math_at ps k = Some m" for k m
    using view [OF that(1,2)] that(3) by (metis view_parts(3))
  note at = relu_at [OF ps(1) a]
  show "fetch_place a < n \<Longrightarrow> h (fetch_place a) < length es \<Longrightarrow>
      dma_stage_1_instr (es ! h (fetch_place a)) = fetch_instr a" by (rule d [OF _ _ at(1)])
  show "fetch_place a + 4 < n \<Longrightarrow> h (fetch_place a + 4) < length es \<Longrightarrow>
      cache_instr_stage_1 (es ! h (fetch_place a + 4)) = load_instr a" by (rule c [OF _ _ at(2)])
  show "fetch_place a + 7 < n \<Longrightarrow> h (fetch_place a + 7) < length es \<Longrightarrow>
      m_instr (es ! h (fetch_place a + 7)) = compute_instr a" by (rule m [OF _ _ at(3)])
  show "fetch_place a + 20 < n \<Longrightarrow> h (fetch_place a + 20) < length es \<Longrightarrow>
      cache_instr_stage_1 (es ! h (fetch_place a + 20)) = store_instr a" by (rule c [OF _ _ at(4)])
  show "fetch_place a + 23 < n \<Longrightarrow> h (fetch_place a + 23) < length es \<Longrightarrow>
      dma_stage_1_instr (es ! h (fetch_place a + 23)) = write_instr_of a" by (rule d [OF _ _ at(5)])
qed

lemma relu_view_from:
  assumes v: "relu_view n h es" and x: "x < length es"
  shows "dma_valid (dma_stage_1_instr (es ! x)) \<Longrightarrow> \<exists>a < 128.
      fetch_place a < n \<and> x = h (fetch_place a) \<or> fetch_place a + 23 < n \<and> x = h (fetch_place a + 23)"
    and "reg_valid (cache_instr_stage_1 (es ! x)) \<Longrightarrow> \<exists>a < 128.
      fetch_place a + 4 < n \<and> x = h (fetch_place a + 4) \<or> fetch_place a + 20 < n \<and> x = h (fetch_place a + 20)"
    and "math_valid (m_instr (es ! x)) \<Longrightarrow> \<exists>a < 128. fetch_place a + 7 < n \<and> x = h (fetch_place a + 7)"
proof -
  obtain ps where ps: "relu_queue ps" "\<forall>k < n. h k < length es \<longrightarrow> view (es ! h k) = instrs (handed_at ps k)"
    "\<forall>x < length es. view (es ! x) \<noteq> (None, None, None) \<longrightarrow> (\<exists>k < n. x = h k)"
    using relu_view_copies [OF v] by blast
  have view: "\<exists>k < n. x = h k \<and> view (es ! x) = instrs (handed_at ps k)" if "view (es ! x) \<noteq> (None, None, None)"
    using that x ps(2,3) by metis
  show "\<exists>a < 128. fetch_place a < n \<and> x = h (fetch_place a) \<or> fetch_place a + 23 < n \<and> x = h (fetch_place a + 23)"
    if d: "dma_valid (dma_stage_1_instr (es ! x))"
  proof -
    have s: "fst (snd (view (es ! x))) \<noteq> None" using d by (simp add: view_def)
    then have "view (es ! x) \<noteq> (None, None, None)" by (metis fst_conv snd_conv)
    then obtain k where k: "k < n" "x = h k" "view (es ! x) = instrs (handed_at ps k)" using view by blast
    then show ?thesis using relu_from(1) [OF ps(1), of k] s by metis
  qed
  show "\<exists>a < 128. fetch_place a + 4 < n \<and> x = h (fetch_place a + 4) \<or> fetch_place a + 20 < n \<and> x = h (fetch_place a + 20)"
    if d: "reg_valid (cache_instr_stage_1 (es ! x))"
  proof -
    have s: "fst (view (es ! x)) \<noteq> None" using d by (simp add: view_def)
    then have "view (es ! x) \<noteq> (None, None, None)" by (metis fst_conv snd_conv)
    then obtain k where k: "k < n" "x = h k" "view (es ! x) = instrs (handed_at ps k)" using view by blast
    then show ?thesis using relu_from(2) [OF ps(1), of k] s by metis
  qed
  show "\<exists>a < 128. fetch_place a + 7 < n \<and> x = h (fetch_place a + 7)" if d: "math_valid (m_instr (es ! x))"
  proof -
    have s: "snd (snd (view (es ! x))) \<noteq> None" using d by (simp add: view_def)
    then have "view (es ! x) \<noteq> (None, None, None)" by (metis fst_conv snd_conv)
    then obtain k where k: "k < n" "x = h k" "view (es ! x) = instrs (handed_at ps k)" using view by blast
    then show ?thesis using relu_from(3) [OF ps(1), of k] s by metis
  qed
qed

text \<open>Seen from one kind of instruction.\<close>

lemma relu_events:
  assumes v: "relu_view n h es" and x: "x < length es"
  shows "is_fetch (dma_stage_1_instr (es ! x)) \<longleftrightarrow> (\<exists>a < 128. fetch_place a < n \<and> x = h (fetch_place a))"
    and "is_write_back (dma_stage_1_instr (es ! x)) \<longleftrightarrow> (\<exists>a < 128. fetch_place a + 23 < n \<and> x = h (fetch_place a + 23))"
    and "is_load (cache_instr_stage_1 (es ! x)) \<longleftrightarrow> (\<exists>a < 128. fetch_place a + 4 < n \<and> x = h (fetch_place a + 4))"
    and "is_store (cache_instr_stage_1 (es ! x)) \<longleftrightarrow> (\<exists>a < 128. fetch_place a + 20 < n \<and> x = h (fetch_place a + 20))"
proof -
  note at = relu_view_at [OF v] and view = relu_view_from [OF v x]
  note kinds = is_fetch_def is_write_back_def is_load_def is_store_def fetch_instr_def write_instr_of_def
    load_instr_def store_instr_def
  have f: "is_fetch (dma_stage_1_instr (es ! x)) \<and> \<not> is_write_back (dma_stage_1_instr (es ! x))"
    if "a < 128" "fetch_place a < n" "x = h (fetch_place a)" for a
    using at(1) [OF that(1,2)] that(3) x by (simp add: kinds)
  moreover have w: "is_write_back (dma_stage_1_instr (es ! x)) \<and> \<not> is_fetch (dma_stage_1_instr (es ! x))"
    if "a < 128" "fetch_place a + 23 < n" "x = h (fetch_place a + 23)" for a
    using at(5) [OF that(1,2)] that(3) x by (simp add: kinds)
  moreover have "is_fetch (dma_stage_1_instr (es ! x)) \<or> is_write_back (dma_stage_1_instr (es ! x)) \<Longrightarrow>
      dma_valid (dma_stage_1_instr (es ! x))"
    by (auto simp: is_fetch_def is_write_back_def)
  ultimately show "is_fetch (dma_stage_1_instr (es ! x)) \<longleftrightarrow> (\<exists>a < 128. fetch_place a < n \<and> x = h (fetch_place a))"
    "is_write_back (dma_stage_1_instr (es ! x)) \<longleftrightarrow> (\<exists>a < 128. fetch_place a + 23 < n \<and> x = h (fetch_place a + 23))"
    using view(1) by metis+
  have l: "is_load (cache_instr_stage_1 (es ! x)) \<and> \<not> is_store (cache_instr_stage_1 (es ! x))"
    if "a < 128" "fetch_place a + 4 < n" "x = h (fetch_place a + 4)" for a
    using at(2) [OF that(1,2)] that(3) x by (simp add: kinds)
  moreover have st: "is_store (cache_instr_stage_1 (es ! x)) \<and> \<not> is_load (cache_instr_stage_1 (es ! x))"
    if "a < 128" "fetch_place a + 20 < n" "x = h (fetch_place a + 20)" for a
    using at(4) [OF that(1,2)] that(3) x by (simp add: kinds)
  moreover have "is_load (cache_instr_stage_1 (es ! x)) \<or> is_store (cache_instr_stage_1 (es ! x)) \<Longrightarrow>
      reg_valid (cache_instr_stage_1 (es ! x))"
    by (auto simp: is_load_def is_store_def)
  ultimately show "is_load (cache_instr_stage_1 (es ! x)) \<longleftrightarrow> (\<exists>a < 128. fetch_place a + 4 < n \<and> x = h (fetch_place a + 4))"
    "is_store (cache_instr_stage_1 (es ! x)) \<longleftrightarrow> (\<exists>a < 128. fetch_place a + 20 < n \<and> x = h (fetch_place a + 20))"
    using view(2) by metis+
qed

lemma relu_view_take:
  assumes "relu_view n h es"
  shows "relu_view n h (take m es)"
proof -
  obtain hs ps where hs: "relu_queue ps" "shows_copies ps n h hs" "map view es = map instrs hs"
    using assms unfolding relu_view_def relu_shown_def by blast
  have "shows_copies ps n h (take m hs)" using hs(2) by (auto simp: shows_copies_def)
  moreover have "map view (take m es) = map instrs (take m hs)" by (simp add: hs(3) take_map [symmetric])
  ultimately show ?thesis using hs(1) unfolding relu_view_def relu_shown_def by blast
qed

section \<open>A tile's way\<close>

lemma relu_addr: "a < 128 \<Longrightarrow> unat (of_nat a :: 11 word) = a"
  by (simp add: unat_of_nat take_bit_nat_eq_self)

lemma relu_thread: "(of_nat (a mod 16) :: 4 word) = of_nat (b mod 16) \<longleftrightarrow> a mod 16 = b mod 16"
  by (simp add: word_of_nat_eq_iff take_bit_eq_mod)

text \<open>Which tiles and registers an input touches.\<close>

lemma relu_touches:
  assumes v: "relu_view n h es" and x: "x < length es"
  shows "fetches a (es ! x) \<Longrightarrow> fetch_place a < n \<and> x = h (fetch_place a)"
    and "stores a (es ! x) \<Longrightarrow> fetch_place a + 20 < n \<and> x = h (fetch_place a + 20)"
    and "loads (reg_addr (of_nat (a mod 16)) r) (es ! x) \<Longrightarrow>
      r = REG_MATMUL_INPUT \<and> (\<exists>b < 128. b mod 16 = a mod 16 \<and> fetch_place b + 4 < n \<and> x = h (fetch_place b + 4))"
    and "computes (of_nat (a mod 16)) (es ! x) \<Longrightarrow>
      \<exists>b < 128. b mod 16 = a mod 16 \<and> fetch_place b + 7 < n \<and> x = h (fetch_place b + 7)"
proof -
  note at = relu_view_at [OF v] and events = relu_events [OF v x]
  show "fetch_place a < n \<and> x = h (fetch_place a)" if f: "fetches a (es ! x)"
  proof -
    obtain b where b: "b < 128" "fetch_place b < n" "x = h (fetch_place b)" using f events(1) by (auto simp: fetches_def)
    then have "b = a" using f at(1) [OF b(1,2)] x by (simp add: fetches_def fetch_instr_def relu_addr)
    then show ?thesis using b by simp
  qed
  show "fetch_place a + 20 < n \<and> x = h (fetch_place a + 20)" if f: "stores a (es ! x)"
  proof -
    obtain b where b: "b < 128" "fetch_place b + 20 < n" "x = h (fetch_place b + 20)" using f events(4) by (auto simp: stores_def)
    then have "b = a" using f at(4) [OF b(1,2)] x by (simp add: stores_def store_instr_def relu_addr)
    then show ?thesis using b by simp
  qed
  show "r = REG_MATMUL_INPUT \<and> (\<exists>b < 128. b mod 16 = a mod 16 \<and> fetch_place b + 4 < n \<and> x = h (fetch_place b + 4))"
    if f: "loads (reg_addr (of_nat (a mod 16)) r) (es ! x)"
  proof -
    obtain b where b: "b < 128" "fetch_place b + 4 < n" "x = h (fetch_place b + 4)" using f events(3) by (auto simp: loads_def)
    then have "instr_reg (load_instr b) = reg_addr (of_nat (a mod 16)) r" using f at(2) [OF b(1,2)] x by (simp add: loads_def)
    then have "r = REG_MATMUL_INPUT \<and> b mod 16 = a mod 16"
      by (auto simp: instr_reg_def load_instr_def reg_addr_eq relu_thread REG_MATMUL_INPUT_def)
    then show ?thesis using b by blast
  qed
  show "\<exists>b < 128. b mod 16 = a mod 16 \<and> fetch_place b + 7 < n \<and> x = h (fetch_place b + 7)"
    if f: "computes (of_nat (a mod 16)) (es ! x)"
  proof -
    obtain b where b: "b < 128" "fetch_place b + 7 < n" "x = h (fetch_place b + 7)"
      using f relu_view_from(3) [OF v x] by (auto simp: computes_def)
    then have "b mod 16 = a mod 16"
      using f at(3) [OF b(1,2)] x by (simp add: computes_def compute_instr_def relu_thread)
    then show ?thesis using b by blast
  qed
qed

lemma relu_tile_last:
  assumes v: "relu_view n h es" and ok: "exec_ok es s" and a: "a < 32" "fetch_place a + 23 < n"
    and last: "h (fetch_place a + 23) + 2 = length es"
  shows "dma_stage_3_instr (after X es s (h (fetch_place a + 23) + 2)) = write_instr_of a
     \<and> dma_stage_3_dat (after X es s (h (fetch_place a + 23) + 2)) = UnopALU (L3_dat (es ! h (fetch_place a)))"
proof -
  let ?f = "fetch_place a" and ?T = "of_nat (a mod 16) :: 4 word"
  have a': "a < 128" using a(1) by simp
  note less = relu_view_h(1) [OF v] and eq = relu_view_h(2) [OF v] and touches = relu_touches [OF v, where a = a]
  have w: "h (?f + 23) < length es" using last by simp
  have in_es: "h (?f + p) < length es" if "p \<le> 23" for p
  proof (cases "p = 23")
    case False
    then have "h (?f + p) < h (?f + 23)" using that a(2) by (simp add: less)
    then show ?thesis using w by simp
  qed (use w in simp)
  have apart: "h (?f + p) + (q - p) \<le> h (?f + q)" if "p \<le> q" "q \<le> 23" for p q
    using that
  proof (induction q)
    case (Suc q)
    show ?case
    proof (cases "p = Suc q")
      case False
      then have "h (?f + p) + (q - p) \<le> h (?f + q)" using Suc by simp
      moreover have "h (?f + q) < h (?f + Suc q)" using Suc.prems a(2) by (simp add: less)
      ultimately show ?thesis using Suc.prems False by (simp add: Suc_diff_le)
    qed simp
  qed simp
  note at = relu_view_at [OF v a']
  have dma: "dma_stage_1_instr (es ! h ?f) = fetch_instr a" "dma_stage_1_instr (es ! h (?f + 23)) = write_instr_of a"
    using at(1,5) in_es [of 0] in_es [of 23] a(2) by simp_all
  have cache: "cache_instr_stage_1 (es ! h (?f + 4)) = load_instr a" "cache_instr_stage_1 (es ! h (?f + 20)) = store_instr a"
    and math: "m_instr (es ! h (?f + 7)) = compute_instr a"
    using at(2,3,4) in_es [of 4] in_es [of 7] in_es [of 20] a(2) by simp_all
  have far: "\<not> (?f < fetch_place b \<and> fetch_place b < ?f + 39)" if "b mod 16 = a mod 16" for b
    using same_thread [of a b] that by auto
  have "dma_stage_3_instr (after X es s (h (?f + 23) + 2)) = dma_stage_1_instr (es ! h (?f + 23))
     \<and> dma_stage_3_dat (after X es s (h (?f + 23) + 2)) = UnopALU (L3_dat (es ! h ?f))"
  proof (rule tile_chain [OF ok, of a "h ?f" ?T "h (?f + 4)" "h (?f + 7)" a "h (?f + 20)" "h (?f + 23)"])
    show "fetches a (es ! h ?f)" "is_write_back (dma_stage_1_instr (es ! h (?f + 23)))"
      "unat (dma_cache_addr (dma_stage_1_instr (es ! h (?f + 23)))) = a"
      using a' by (simp_all add: dma fetches_def is_fetch_def is_write_back_def fetch_instr_def write_instr_of_def relu_addr)
    show "loads (reg_addr ?T REG_MATMUL_INPUT) (es ! h (?f + 4))" "stores a (es ! h (?f + 20))"
      "unat (reg_cache_addr (cache_instr_stage_1 (es ! h (?f + 4)))) = a"
      "instr_reg (cache_instr_stage_1 (es ! h (?f + 20))) = reg_addr ?T REG_MATMUL_OUTPUT"
      using a' by (simp_all add: cache loads_def stores_def is_load_def is_store_def load_instr_def store_instr_def relu_addr
          instr_reg_def REG_MATMUL_INPUT_def REG_MATMUL_OUTPUT_def)
    show "computes ?T (es ! h (?f + 7))" by (simp add: math computes_def compute_instr_def)
    show "h ?f + 2 \<le> h (?f + 4)" "h (?f + 4) + 2 \<le> h (?f + 7)" "h (?f + 7) + 5 \<le> h (?f + 20)" "h (?f + 20) + 1 \<le> h (?f + 23)"
      using apart [of 0 4] apart [of 4 7] apart [of 7 20] apart [of 20 23] by simp_all
    show "h (?f + 23) + 2 = length es" "a < 32" "a < 32" by (rule last a(1))+
    show "\<not> fetches a (es ! x) \<and> \<not> stores a (es ! x)" if "h ?f < x" "x < h (?f + 4)" for x
      using touches(1,2) [of x] that in_es [of 4] less [of "?f + 20" "?f + 4"] a(2) by auto
    show "\<not> loads (reg_addr ?T REG_MATMUL_INPUT) (es ! x)" if x: "h (?f + 4) < x" "x < h (?f + 7)" for x
    proof
      assume "loads (reg_addr ?T REG_MATMUL_INPUT) (es ! x)"
      moreover have "x < length es" using x(2) in_es [of 7] by simp
      ultimately obtain b where b: "b mod 16 = a mod 16" "fetch_place b + 4 < n" "x = h (fetch_place b + 4)"
        using touches(3) by blast
      then have "?f + 4 < fetch_place b + 4" "fetch_place b + 4 < ?f + 7" using x a(2) by (simp_all add: less)
      then show False using far [OF b(1)] by linarith
    qed
    show "\<not> loads (reg_addr ?T REG_MATMUL_OUTPUT) (es ! x) \<and> \<not> computes ?T (es ! x)"
      if x: "h (?f + 7) < x" "x < h (?f + 20)" for x
    proof -
      have l: "x < length es" using x(2) in_es [of 20] by simp
      have "\<not> loads (reg_addr ?T REG_MATMUL_OUTPUT) (es ! x)"
        using touches(3) [OF l, of REG_MATMUL_OUTPUT] by (auto simp: REG_MATMUL_INPUT_def REG_MATMUL_OUTPUT_def)
      moreover have "\<not> computes ?T (es ! x)"
      proof
        assume "computes ?T (es ! x)"
        then obtain b where b: "b mod 16 = a mod 16" "fetch_place b + 7 < n" "x = h (fetch_place b + 7)"
          using touches(4) [OF l] by blast
        then have "?f + 7 < fetch_place b + 7" "fetch_place b + 7 < ?f + 20" using x a(2) by (simp_all add: less)
        then show False using far [OF b(1)] by linarith
      qed
      ultimately show ?thesis by simp
    qed
    show "\<not> fetches a (es ! x) \<and> (h (?f + 20) < x \<longrightarrow> \<not> stores a (es ! x))" if "h (?f + 20) \<le> x" "x < h (?f + 23)" for x
      using touches(1,2) [of x] that w apart [of 0 20] by auto
  qed
  then show ?thesis by (simp add: dma)
qed

text \<open>Beyond the cache there is nothing to read.\<close>

lemma relu_tile_beyond:
  assumes v: "relu_view n h es" and ok: "exec_ok es s" and a: "32 \<le> a" "a < 128" "fetch_place a + 23 < n"
    and last: "h (fetch_place a + 23) + 2 = length es"
  shows "dma_stage_3_instr (after X es s (h (fetch_place a + 23) + 2)) = write_instr_of a
     \<and> dma_stage_3_dat (after X es s (h (fetch_place a + 23) + 2)) = X"
proof -
  let ?w = "h (fetch_place a + 23)"
  have w: "?w < length es" "Suc ?w < length es" using last by simp_all
  have "dma_stage_1_instr (es ! ?w) = write_instr_of a" using relu_view_at(5) [OF v a(2,3)] w(1) by simp
  then have "dma_stage_2_instr (after X es s (Suc ?w)) = write_instr_of a"
    using step [OF ok w(1), of X] by (simp add: exec_clk_def)
  then show ?thesis
    using step [OF ok w(2), of X] a(1,2)
    by (simp add: exec_clk_def is_write_back_def write_instr_of_def read_tile_def relu_addr)
qed

lemma relu_tile:
  assumes v: "relu_view n h es" and ok: "exec_ok es s" and a: "a < 128" "fetch_place a + 23 < n"
    and w: "h (fetch_place a + 23) + 2 \<le> length es"
  shows "tile_out (after X es s (h (fetch_place a + 23) + 2))
     = [(of_nat a, if a < 32 then UnopALU (L3_dat (es ! h (fetch_place a))) else X)]"
proof -
  let ?u = "h (fetch_place a + 23) + 2" and ?js = "take (h (fetch_place a + 23) + 2) es"
  have js: "after X es s ?u = after X ?js s ?u" by (simp add: after_def)
  have v': "relu_view n h ?js" by (rule relu_view_take [OF v])
  have ok': "exec_ok ?js s" using ok by (auto simp: exec_ok_def dest: in_set_takeD)
  have last: "?u = length ?js" using w by simp
  have "h (fetch_place a) < h (fetch_place a + 23)" using relu_view_h(1) [OF v] a(2) by simp
  then have "?js ! h (fetch_place a) = es ! h (fetch_place a)" by simp
  then have "dma_stage_3_instr (after X es s ?u) = write_instr_of a
     \<and> dma_stage_3_dat (after X es s ?u) = (if a < 32 then UnopALU (L3_dat (es ! h (fetch_place a))) else X)"
    unfolding js using relu_tile_last [OF v' ok' _ a(2) last] relu_tile_beyond [OF v' ok' _ a last] by (cases "a < 32") auto
  then show ?thesis by (simp add: tile_out_def is_write_back_def write_instr_of_def)
qed

section \<open>All tiles\<close>

lemma relu_fetched:
  assumes v: "relu_view n h es"
  shows "\<exists>r \<le> 128. concat (map (\<lambda>i. if is_fetch (dma_stage_1_instr i) then [L3_dat i] else []) es)
       = map (\<lambda>a. L3_dat (es ! h (fetch_place a))) [0..<r]
     \<and> (\<forall>a < 128. a < r \<longleftrightarrow> fetch_place a < n \<and> h (fetch_place a) < length es)"
proof -
  let ?P = "\<lambda>x. is_fetch (dma_stage_1_instr (es ! x))"
  have "\<exists>r \<le> 128. filter ?P [0..<length es] = map (\<lambda>a. h (fetch_place a)) [0..<r]
     \<and> (\<forall>a < 128. a < r \<longleftrightarrow> fetch_place a < n \<and> h (fetch_place a) < length es)"
  proof (rule events_in_order)
    show "?P x \<longleftrightarrow> (\<exists>a < 128. fetch_place a < n \<and> x = h (fetch_place a))" if "x < length es" for x
      by (rule relu_events(1) [OF v that])
    show "fetch_place a < n \<and> h (fetch_place a) < h (fetch_place b)" if "a < b" "fetch_place b < n" for a b
      using fetch_place_less [OF that(1)] that(2) by (simp add: relu_view_h(1) [OF v])
  qed
  then obtain r where r: "r \<le> 128" "filter ?P [0..<length es] = map (\<lambda>a. h (fetch_place a)) [0..<r]"
    "\<forall>a < 128. a < r \<longleftrightarrow> fetch_place a < n \<and> h (fetch_place a) < length es" by blast
  have "concat (map (\<lambda>i. if is_fetch (dma_stage_1_instr i) then [L3_dat i] else []) es)
      = map L3_dat (filter (\<lambda>i. is_fetch (dma_stage_1_instr i)) es)"
    by (rule concat_filter)
  also have "\<dots> = map L3_dat (map ((!) es) (map (\<lambda>a. h (fetch_place a)) [0..<r]))"
    by (simp only: filter_nth [of _ es] r(2))
  finally show ?thesis using r(1,3) by (intro exI [of _ r]) (simp add: o_def)
qed

lemma early_stages:
  assumes ok: "exec_ok es s" and "\<not> is_write_back (dma_stage_2_instr s)" "\<not> is_write_back (dma_stage_3_instr s)"
  shows "u \<le> length es \<Longrightarrow> is_write_back (dma_stage_3_instr (after X es s u))
     \<longleftrightarrow> (\<exists>x. u = x + 2 \<and> is_write_back (dma_stage_1_instr (es ! x)))"
proof (cases u rule: nat.exhaust)
  case zero
  then show ?thesis using assms(3) by (simp add: after_def)
next
  case u: (Suc y)
  assume le: "u \<le> length es"
  show ?thesis
  proof (cases y)
    case 0
    then have "0 < length es" using le u by linarith
    then have "dma_stage_3_instr (after X es s (Suc 0)) = dma_stage_2_instr (after X es s 0)"
      using step [OF ok, of 0 X] by (simp add: exec_clk_def)
    then show ?thesis using u 0 assms(2) by simp (simp add: after_def)
  next
    case (Suc x)
    then have "x < length es" "Suc x < length es" using le u by simp_all
    then show ?thesis using step [OF ok, of x X] step [OF ok, of "Suc x" X] u Suc by (simp add: exec_clk_def)
  qed
qed

lemma relu_written:
  assumes v: "relu_view n h es" and ok: "exec_ok es s"
    and s: "\<not> is_write_back (dma_stage_2_instr s)" "\<not> is_write_back (dma_stage_3_instr s)"
  shows "\<exists>r \<le> 128. concat (map (\<lambda>u. tile_out (after X es s u)) [0..<length es])
       = map (\<lambda>a. (of_nat a, if a < 32 then UnopALU (L3_dat (es ! h (fetch_place a))) else X)) [0..<r]
     \<and> (\<forall>a < 128. a < r \<longleftrightarrow> fetch_place a + 23 < n \<and> h (fetch_place a + 23) + 2 < length es)"
proof -
  let ?P = "\<lambda>u. is_write_back (dma_stage_3_instr (after X es s u))" and ?e = "\<lambda>a. h (fetch_place a + 23) + 2"
  have "\<exists>r \<le> 128. filter ?P [0..<length es] = map ?e [0..<r]
     \<and> (\<forall>a < 128. a < r \<longleftrightarrow> fetch_place a + 23 < n \<and> ?e a < length es)"
  proof (rule events_in_order)
    fix u
    assume u: "u < length es"
    have "x < length es \<Longrightarrow> is_write_back (dma_stage_1_instr (es ! x))
        \<longleftrightarrow> (\<exists>a < 128. fetch_place a + 23 < n \<and> x = h (fetch_place a + 23))" for x
      by (rule relu_events(2) [OF v])
    then show "?P u \<longleftrightarrow> (\<exists>a < 128. fetch_place a + 23 < n \<and> u = ?e a)"
      using early_stages [OF ok s, of u X] u by auto
  next
    show "fetch_place a + 23 < n \<and> ?e a < ?e b" if "a < b" "fetch_place b + 23 < n" for a b
      using fetch_place_less [OF that(1)] that(2) by (simp add: relu_view_h(1) [OF v])
  qed
  then obtain r where r: "r \<le> 128" "filter ?P [0..<length es] = map ?e [0..<r]"
    "\<forall>a < 128. a < r \<longleftrightarrow> fetch_place a + 23 < n \<and> ?e a < length es" by blast
  let ?out = "\<lambda>e. (dma_main_mem_addr (dma_stage_3_instr e), dma_stage_3_dat e)"
  have "concat (map (\<lambda>u. tile_out (after X es s u)) [0..<length es]) = map (\<lambda>u. ?out (after X es s u)) (map ?e [0..<r])"
    unfolding tile_out_def by (simp only: concat_filter r(2))
  also have "\<dots> = map (\<lambda>a. (of_nat a, if a < 32 then UnopALU (L3_dat (es ! h (fetch_place a))) else X)) [0..<r]"
  proof (simp only: map_map o_def, rule map_cong [OF refl])
    fix a
    assume a: "a \<in> set [0..<r]"
    then have "a < 128" using r(1) by simp
    moreover have "fetch_place a + 23 < n" "?e a \<le> length es"
      using r(3) [rule_format, OF calculation] a by simp_all
    ultimately have this: "a < 128" "fetch_place a + 23 < n" "?e a \<le> length es" by simp_all
    note tile = relu_tile [OF v ok this, of X]
    then show "?out (after X es s (?e a)) = (of_nat a, if a < 32 then UnopALU (L3_dat (es ! h (fetch_place a))) else X)"
      by (simp add: tile_out_def split: if_splits)
  qed
  finally show ?thesis using r(1,3) by blast
qed

section \<open>The device\<close>

text \<open>As \<^verbatim>\<open>reset\<close> leaves it.\<close>

definition top_start :: "top \<Rightarrow> bool" where
  "top_start s \<longleftrightarrow>
     device_start (dev (front s)) \<and> iq_start (queue (front s)) \<and> no_output (queue (front s))
     \<and> length (single_tile_slot (pipes s)) = 32 \<and> length (regfile_mem (pipes s)) = 64
     \<and> \<not> is_write_back (dma_stage_2_instr (pipes s)) \<and> \<not> is_write_back (dma_stage_3_instr (pipes s))"

lemma relu_never_full:
  assumes "relu_env E" and "device_start d"
  shows "never_full E 16 d"
proof -
  show ?thesis
    using only_queue_stalls [OF assms(2) relu_program(1) [OF assms(1)], of 16] relu_commands [OF assms(1)]
    by (simp add: never_full_def)
qed

lemma relu_all_pushes:
  assumes "relu_env E" and "waiting u" and "161 \<le> t"
  shows "pushes_by E 16 u t = concat (map relu_round [0..<8]) @ [PushProgEnd]"
proof -
  have clocks: "program_clocks 5 (rounds 128 (loop_step True 16)) = 161" by code_simp
  have "fst (cu_run E (of_nat 16) (replicate t False) u) = all_pushes E 6 5 True 0 128 16"
    unfolding all_pushes_def loop_pushes_def
    by (rule conjunct1 [OF one_loop_stalled [OF assms(2) relu_program(1) [OF assms(1)]]])
      (use assms(3) in \<open>simp_all add: clocks filter_replicate\<close>)
  then show ?thesis by (simp add: pushes_by_def relu_pushes [OF assms(1)])
qed

lemma relu_queued:
  assumes E: "relu_env E" and c: "device_start (dev c)" "iq_start (queue c)" and long: "162 \<le> length cs"
  shows "relu_queue (trace iq_clk iq_pushes (queue_ins E 16 cs c) (queue c))"
proof -
  let ?u = "control (dev c)"
  have u: "waiting ?u" using c(1) by (simp add: device_start_def)
  note ps = all_pushes_in [OF c relu_early [OF E u] relu_never_full [OF E c(1)] refl, of cs]
  have all: "pushes_by E 16 ?u (length cs - 1) = concat (map relu_round [0..<8]) @ [PushProgEnd]"
    by (rule relu_all_pushes [OF E u]) (use long in simp)
  have "map entry_of (concat (map relu_round [0..<8]) @ [PushProgEnd]) = relu_entries"
    using relu_entries_eq [OF E] by (simp only: relu_pushes [OF E])
  then show ?thesis using ps unfolding all relu_queue_def by (simp only: relu_entries_places)
qed

lemma relu_run_shown:
  assumes E: "relu_env E" and start: "top_start s"
    and cs: "cs = core_ins E 16 X is s"
  shows "\<exists>n h. relu_shown n h (seen E 16 cs (front s)) \<and> counts_pops (popped E 16 cs (front s)) n h"
proof -
  let ?c = "front s" and ?u = "control (dev (front s))" and ?js = "replicate 162 (False, False)"
  have c: "device_start (dev ?c)" "iq_start (queue ?c)" "no_output (queue ?c)" using start by (simp_all add: top_start_def)
  then have u: "waiting ?u" by (simp add: device_start_def)
  note ok = c(1,2) relu_early [OF E u] relu_never_full [OF E c(1)]
  have "relu_queue (trace iq_clk iq_pushes (queue_ins E 16 (cs @ ?js) ?c) (queue ?c))"
    by (rule relu_queued [OF E c(1,2)]) simp
  then show ?thesis
    using handed_view [OF ok c(3), of cs ?js] unfolding relu_shown_def by blast
qed

lemma relu_run_view:
  assumes "relu_env E" and "top_start s"
  shows "\<exists>n h. relu_view n h (unfrozen_ins E 16 X is s)"
  using relu_run_shown [OF assms refl] view_seen [of E 16 X "is" s] unfolding relu_view_def by blast

section \<open>The end of the program\<close>

abbreviation ended :: "handed \<Rightarrow> bool" where
  "ended x \<equiv> snd (snd (snd x))"

lemma program_ends_seen:
  "length (trace (top_clk E W X) program_ends is s) \<le> length (filter ended (seen E W (core_ins E W X is s) (front s)))"
  "(\<forall>i \<in> set is. \<not> send_write_packet_queue_full i) \<Longrightarrow>
     trace (top_clk E W X) program_ends is s
       = concat (map (\<lambda>x. if ended x then [()] else []) (seen E W (core_ins E W X is s) (front s)))"
proof -
  have e: "ended (handed (queue (front s))) \<longleftrightarrow> prog_end_instr_valid s" for s :: top
    by (simp add: handed_def prog_end_instr_valid_def)
  have f: "front (top_clk E W X i s) = core_clk E W (dma_busy i s, dma_send_read_queue_re i) (front s)" for i s
    by (simp add: top_clk_def)
  have se: "seen E W (core_ins E W X (i # is) s) (front s) = (if dma_busy i s then [] else [handed (queue (front s))])
      @ seen E W (core_ins E W X is (top_clk E W X i s)) (front (top_clk E W X i s))" for i "is" s
    by (simp add: seen_def core_ins_def f)
  show "length (trace (top_clk E W X) program_ends is s) \<le> length (filter ended (seen E W (core_ins E W X is s) (front s)))"
  proof (induction "is" arbitrary: s)
    case (Cons i "is")
    have "length (program_ends i s) \<le> length (filter ended (if dma_busy i s then [] else [handed (queue (front s))]))"
      by (simp add: program_ends_def e)
    then show ?case using Cons.IH [of "top_clk E W X i s"] by (simp only: se trace.simps filter_append length_append add_mono)
  qed simp
  show "trace (top_clk E W X) program_ends is s
       = concat (map (\<lambda>x. if ended x then [()] else []) (seen E W (core_ins E W X is s) (front s)))"
    if "\<forall>i \<in> set is. \<not> send_write_packet_queue_full i"
    using that
  proof (induction "is" arbitrary: s)
    case (Cons i "is")
    have "program_ends i s
        = concat (map (\<lambda>x. if ended x then [()] else []) (if dma_busy i s then [] else [handed (queue (front s))]))"
      using Cons.prems by (simp add: program_ends_def e)
    moreover have "\<forall>i \<in> set is. \<not> send_write_packet_queue_full i" using Cons.prems by simp
    ultimately show ?case
      by (simp only: se trace.simps map_append concat_append Cons.IH [of "top_clk E W X i s"])
  qed (simp add: seen_def core_ins_def)
qed

lemma relu_shown_end:
  assumes "relu_shown n h hs"
  shows "filter ended hs = (if 317 < n \<and> h 317 < length hs then [hs ! h 317] else [])"
proof -
  obtain ps where ps: "relu_queue ps" "shows_copies ps n h hs" using assms by (auto simp: relu_shown_def)
  have at: "ended (hs ! h k) \<longleftrightarrow> k = 317" if "k < n" "h k < length hs" for k
    using ps(2) that relu_end [OF ps(1), of k] by (simp add: shows_copies_def)
  have "ended (hs ! x) \<longleftrightarrow> (\<exists>a < (1 :: nat). 317 < n \<and> x = h 317)" if x: "x < length hs" for x
  proof
    assume e: "ended (hs ! x)"
    then have "hs ! x \<noteq> nothing" by auto
    then obtain k where "k < n" "x = h k" using ps(2) x by (auto simp: shows_copies_def)
    then show "\<exists>a < (1 :: nat). 317 < n \<and> x = h 317" using at e x by (intro exI [of _ 0]) auto
  next
    assume "\<exists>a < (1 :: nat). 317 < n \<and> x = h 317"
    then show "ended (hs ! x)" using at [of 317] x by auto
  qed
  then have "\<exists>r \<le> (1 :: nat). filter (\<lambda>x. ended (hs ! x)) [0..<length hs] = map (\<lambda>a. h 317) [0..<r]
      \<and> (\<forall>a < 1. a < r \<longleftrightarrow> 317 < n \<and> h 317 < length hs)"
    by (rule events_in_order) auto
  then obtain r where r: "r \<le> 1" "filter (\<lambda>x. ended (hs ! x)) [0..<length hs] = map (\<lambda>a. h 317) [0..<r]"
    "0 < r \<longleftrightarrow> 317 < n \<and> h 317 < length hs" by auto
  have "filter ended hs = map ((!) hs) (map (\<lambda>a. h 317) [0..<r])" by (simp only: filter_nth [of ended hs] r(2))
  then show ?thesis using r(1,3) by (cases r) auto
qed

section \<open>A run\<close>

lemma relu_lists:
  assumes E: "relu_env E" and start: "top_start s"
    and es_def: "es = unfrozen_ins E 16 X is s" and cs_def: "cs = core_ins E 16 X is s"
  obtains n h r k where "counts_pops (popped E 16 cs (front s)) n h"
    and "\<forall>a. \<forall>b < n. a < b \<longrightarrow> h a + (b - a) \<le> h b"
    and "r \<le> 128" and "trace (top_clk E 16 X) fetched is s = map (\<lambda>a. L3_dat (es ! h (fetch_place a))) [0..<r]"
    and "\<forall>a < 128. a < r \<longleftrightarrow> fetch_place a < n \<and> h (fetch_place a) < length es"
    and "k \<le> 128" and "trace (top_clk E 16 X) written_back is s
         = map (\<lambda>a. (of_nat a, if a < 32 then UnopALU (L3_dat (es ! h (fetch_place a))) else X)) [0..<k]"
    and "\<forall>a < 128. a < k \<longleftrightarrow> fetch_place a + 23 < n \<and> h (fetch_place a + 23) + 2 < length es"
    and "length (filter ended (seen E 16 cs (front s))) = (if 317 < n \<and> h 317 < length es then 1 else 0)"
proof -
  obtain n h where shown: "relu_shown n h (seen E 16 cs (front s))" and counts: "counts_pops (popped E 16 cs (front s)) n h"
    using relu_run_shown [OF E start cs_def] by blast
  have views: "map view es = map instrs (seen E 16 cs (front s))" unfolding es_def cs_def by (rule view_seen)
  then have v: "relu_view n h es" using shown unfolding relu_view_def by blast
  have len: "length es = length (seen E 16 cs (front s))" using views by (metis length_map)
  have s: "\<not> is_write_back (dma_stage_2_instr (pipes s))" "\<not> is_write_back (dma_stage_3_instr (pipes s))"
    and ok: "exec_ok es (pipes s)"
    using start unfrozen unfolding es_def by (simp_all add: top_start_def exec_ok_def)
  have "h a + d \<le> h (a + d)" if "a + d < n" for a d
    using that
  proof (induction d)
    case (Suc d)
    then show ?case using relu_view_h(1) [OF v, of "a + d" "a + Suc d"] by simp
  qed simp
  then have mono: "\<forall>a. \<forall>b < n. a < b \<longrightarrow> h a + (b - a) \<le> h b"
    by (metis add_diff_inverse_nat less_imp_not_less)
  have ends: "length (filter ended (seen E 16 cs (front s))) = (if 317 < n \<and> h 317 < length es then 1 else 0)"
    by (simp add: relu_shown_end [OF shown] len)
  obtain r where r: "r \<le> 128"
    "trace (top_clk E 16 X) fetched is s = map (\<lambda>a. L3_dat (es ! h (fetch_place a))) [0..<r]"
    "\<forall>a < 128. a < r \<longleftrightarrow> fetch_place a < n \<and> h (fetch_place a) < length es"
    using relu_fetched [OF v] unfolding fetched_trace es_def by blast
  obtain k where k: "k \<le> 128" "trace (top_clk E 16 X) written_back is s
         = map (\<lambda>a. (of_nat a, if a < 32 then UnopALU (L3_dat (es ! h (fetch_place a))) else X)) [0..<k]"
    "\<forall>a < 128. a < k \<longleftrightarrow> fetch_place a + 23 < n \<and> h (fetch_place a + 23) + 2 < length es"
    using relu_written [OF v ok s, of X] unfolding written_trace es_def by blast
  show thesis by (rule that [OF counts mono r k ends])
qed

text \<open>What is written back comes from what was fetched.\<close>

lemma relu_transfers:
  assumes E: "relu_env E" and start: "top_start s"
    and rs: "rs = trace (top_clk E 16 X) fetched is s" and ws: "ws = trace (top_clk E 16 X) written_back is s"
  shows "length ws \<le> length rs \<and> length rs \<le> 128
     \<and> ws = map (\<lambda>a. (of_nat a, if a < 32 then UnopALU (rs ! a) else X)) [0..<length ws]
     \<and> length (trace (top_clk E 16 X) program_ends is s) \<le> 1
     \<and> (trace (top_clk E 16 X) program_ends is s \<noteq> [] \<longrightarrow> length ws = 128)"
proof -
  let ?es = "unfrozen_ins E 16 X is s" and ?cs = "core_ins E 16 X is s"
  let ?ends = "trace (top_clk E 16 X) program_ends is s"
  obtain n h r k where "counts_pops (popped E 16 ?cs (front s)) n h"
    and mono: "\<forall>a. \<forall>b < n. a < b \<longrightarrow> h a + (b - a) \<le> h b"
    and r: "r \<le> 128" "trace (top_clk E 16 X) fetched is s = map (\<lambda>a. L3_dat (?es ! h (fetch_place a))) [0..<r]"
      "\<forall>a < 128. a < r \<longleftrightarrow> fetch_place a < n \<and> h (fetch_place a) < length ?es"
    and k: "k \<le> 128" "trace (top_clk E 16 X) written_back is s
        = map (\<lambda>a. (of_nat a, if a < 32 then UnopALU (L3_dat (?es ! h (fetch_place a))) else X)) [0..<k]"
      "\<forall>a < 128. a < k \<longleftrightarrow> fetch_place a + 23 < n \<and> h (fetch_place a + 23) + 2 < length ?es"
    and ends: "length (filter ended (seen E 16 ?cs (front s))) = (if 317 < n \<and> h 317 < length ?es then 1 else 0)"
    by (rule relu_lists [OF E start refl refl])
  have fewer: "a < r" if "a < k" for a
  proof -
    have a: "a < 128" "fetch_place a + 23 < n" "h (fetch_place a + 23) + 2 < length ?es" using that k(1) k(3) [rule_format, of a] by simp_all
    then show ?thesis using mono [rule_format, of "fetch_place a + 23" "fetch_place a"] r(3) [rule_format, of a] by simp
  qed
  then have le: "k \<le> r" by (meson less_irrefl not_le)
  have len: "length ws = k" "length rs = r" by (simp_all add: rs ws k(2) r(2))
  have "rs ! a = L3_dat (?es ! h (fetch_place a))" if "a < k" for a
    using fewer [OF that] by (simp add: rs r(2))
  then have "ws = map (\<lambda>a. (of_nat a, if a < 32 then UnopALU (rs ! a) else X)) [0..<length ws]"
    unfolding len(1) unfolding ws k(2) by (intro map_cong) simp_all
  moreover have "length ?ends \<le> (if 317 < n \<and> h 317 < length ?es then 1 else 0)"
    using program_ends_seen(1) [of E 16 X "is" s] ends by simp
  moreover have "k = 128" if "317 < n \<and> h 317 < length ?es"
  proof -
    have "fetch_place 127 + 23 = 312" by code_simp
    then have "127 < k" using k(3) [rule_format, of 127] mono [rule_format, of 317 312] that by simp
    then show ?thesis using k(1) by simp
  qed
  ultimately show ?thesis using r(1) le len by (auto split: if_splits)
qed

lemma fetched_heads: "x \<in> set (trace (top_clk E W X) fetched is s) \<Longrightarrow> \<exists>i \<in> set is. x = L3_head i"
  by (induction "is" arbitrary: s) (auto simp: fetched_def split: if_splits)


text \<open>After 162 clocks and 319 unfrozen ones every place up to the end of the program was shown.\<close>

lemma relu_all_shown:
  assumes E: "relu_env E" and s: "top_start s" and long: "162 \<le> length is"
    and more: "318 < length (unfrozen_ins E 16 X js (run (top_clk E 16 X) is s))"
    and counts: "counts_pops (popped E 16 (core_ins E 16 X (is @ js) s) (front s)) n h" and x: "x < 318"
  shows "x < n \<and> h x < length (unfrozen_ins E 16 X (is @ js) s)"
proof -
  let ?c = "front s" and ?u = "control (dev (front s))" and ?s = "run (top_clk E 16 X) is s"
  let ?cs = "core_ins E 16 X is s" and ?ds = "core_ins E 16 X js (run (top_clk E 16 X) is s)"
  have cs: "core_ins E 16 X (is @ js) s = ?cs @ ?ds" by (simp add: core_ins_def trace_append)
  have len: "length ?cs = length is" unfolding core_ins_def by (induction "is" arbitrary: s) simp_all
  have c: "device_start (dev ?c)" "iq_start (queue ?c)" using s by (simp_all add: top_start_def)
  then have u: "waiting ?u" by (simp add: device_start_def)
  note ok = c relu_early [OF E u] relu_never_full [OF E c(1)]
  have "relu_queue (trace iq_clk iq_pushes (queue_ins E 16 ?cs ?c) (queue ?c))"
    by (rule relu_queued [OF E ok(1,2)]) (use long len in simp)
  then obtain a where a: "a \<in> set (trace iq_clk iq_pushes (queue_ins E 16 ?cs ?c) (queue ?c))" "fst a + copies (snd a) = 318"
    using relu_member(2) by (fastforce simp: copies_def)
  have l: "length (unfrozen_ins E 16 X is s) = length (seen E 16 (core_ins E 16 X is s) (front s))" for "is" s
    using arg_cong [OF view_seen [of E 16 X "is" s], of length] by simp
  then have "318 < length (seen E 16 ?ds (run (core_clk E 16) ?cs ?c))" using more by (simp add: core_run)
  then show ?thesis using shown_by [OF ok a counts [unfolded cs] _ x] by (simp add: l cs)
qed

lemma relu_done:
  assumes "relu_env E" and "top_start s" and "162 \<le> length is"
    and "318 < length (unfrozen_ins E 16 X js (run (top_clk E 16 X) is s))"
  shows "length (trace (top_clk E 16 X) fetched (is @ js) s) = 128
     \<and> map fst (trace (top_clk E 16 X) written_back (is @ js) s) = map of_nat [0..<128]
     \<and> ((\<forall>i \<in> set (is @ js). \<not> send_write_packet_queue_full i) \<longrightarrow> trace (top_clk E 16 X) program_ends (is @ js) s = [()])"
proof -
  let ?is = "is @ js" and ?c = "front s" and ?es = "unfrozen_ins E 16 X (is @ js) s"
  obtain n h r k where counts: "counts_pops (popped E 16 (core_ins E 16 X ?is s) ?c) n h"
    and mono: "\<forall>a. \<forall>b < n. a < b \<longrightarrow> h a + (b - a) \<le> h b"
    and r: "r \<le> 128" "trace (top_clk E 16 X) fetched ?is s = map (\<lambda>a. L3_dat (?es ! h (fetch_place a))) [0..<r]"
      "\<forall>a < 128. a < r \<longleftrightarrow> fetch_place a < n \<and> h (fetch_place a) < length ?es"
    and k: "k \<le> 128" "trace (top_clk E 16 X) written_back ?is s
        = map (\<lambda>a. (of_nat a, if a < 32 then UnopALU (L3_dat (?es ! h (fetch_place a))) else X)) [0..<k]"
      "\<forall>a < 128. a < k \<longleftrightarrow> fetch_place a + 23 < n \<and> h (fetch_place a + 23) + 2 < length ?es"
    and ends: "length (filter ended (seen E 16 (core_ins E 16 X ?is s) ?c)) = (if 317 < n \<and> h 317 < length ?es then 1 else 0)"
    by (rule relu_lists [OF assms(1,2) refl refl])
  note shown = relu_all_shown [OF assms counts]
  have places: "fetch_place 127 = 289" "fetch_place 127 + 23 = 312" by code_simp+
  have "127 < k" using k(3) [rule_format, of 127] mono [rule_format, of 317 312] shown [of 317] by (simp add: places)
  then have k': "k = 128" using k(1) by simp
  have "127 < r" using r(3) [rule_format, of 127] shown [of 289] by (simp add: places)
  then have r': "r = 128" using r(1) by simp
  have "trace (top_clk E 16 X) program_ends ?is s = [()]" if "\<forall>i \<in> set ?is. \<not> send_write_packet_queue_full i"
  proof -
    have "length (filter ended (seen E 16 (core_ins E 16 X ?is s) ?c)) = 1" using ends shown [of 317] by simp
    then show ?thesis
      unfolding program_ends_seen(2) [OF that] concat_filter by (cases "filter ended (seen E 16 (core_ins E 16 X ?is s) ?c)") auto
  qed
  then show ?thesis by (simp add: r(2) k(2) r' k' o_def)
qed

text \<open>C5. The relu program finishes: when the control unit has had 162 clocks, and after them 319 clocks
  were not frozen, however they are spread, all 128 tiles have been fetched and all 128 handed to the packet sender,
  and if the queue of writes was never full, the end of the program has been reported.\<close>

theorem relu_finishes:
  assumes "relu_env E" and "top_start s" and "162 \<le> length is"
    and "318 < length (unfrozen_ins E 16 X js (run (top_clk E 16 X) is s))"
  shows "length (trace (top_clk E 16 X) fetched (is @ js) s) = 128
     \<and> map fst (trace (top_clk E 16 X) written_back (is @ js) s) = map of_nat [0..<128]
     \<and> ((\<forall>i \<in> set (is @ js). \<not> send_write_packet_queue_full i) \<longrightarrow> trace (top_clk E 16 X) program_ends (is @ js) s = [()])"
  by (rule relu_done [OF assms])

section \<open>A run of the program\<close>

definition relu_image :: env where
  "relu_image =
     \<lparr>execution_queue_not_empty = True, execution_queue_start_pc = 6, execution_queue_end_pc = 13,
      execution_queue_start_ro_data_addr = 0, icache = (\<lambda>pc. relu_word (unat pc - 6)),
      prog_apu_formula = (\<lambda>r. fake_prog_apu_formula False), prog_loop_ro_data = (\<lambda>r. fake_prog_loop_ro_data False)\<rparr>"

lemma relu_image_env: "relu_env relu_image"
proof -
  have "unat (6 + of_nat k :: 16 word) - 6 = k" if "k < 7" for k
  proof -
    have "unat (of_nat k :: 16 word) = k" using that by (simp add: unat_of_nat take_bit_nat_eq_self)
    then show ?thesis using that unat_add_small [of "6 :: 16 word" "of_nat k"] by (simp add: word_le_nat_alt)
  qed
  then show ?thesis by (simp add: relu_env_def relu_image_def relu_word_def)
qed

definition idle_top :: top where
  "idle_top = \<lparr>front = \<lparr>dev = idle_device, queue = empty_iq\<rparr>, pipes = idle_exec\<rparr>"

lemma idle_top_start: "top_start idle_top"
proof -
  have "no_output empty_iq" by (simp add: no_output_def empty_iq_def iq_reset_def)
  moreover have "length (single_tile_slot idle_exec) = 32" "length (regfile_mem idle_exec) = 64"
    "\<not> is_write_back (dma_stage_2_instr idle_exec)" "\<not> is_write_back (dma_stage_3_instr idle_exec)"
    by (simp_all add: idle_exec_def is_write_back_def no_dma_instr_def)
  ultimately show ?thesis by (simp add: top_start_def idle_top_def idle_device_start empty_iq_start)
qed

text \<open>A host that always has the next tile, and queues that are never full.\<close>

definition ready_host :: top_in where
  "ready_host = \<lparr>L3_not_empty = True, L3_head = replicate 288 True, send_write_packet_queue_full = False,
     send_prog_complete_packet_queue_full = False, dma_send_read_queue_re = True\<rparr>"

lemma ready_host_unfrozen: "length (unfrozen_ins E W X (replicate n ready_host) s) = n"
  by (induction n arbitrary: s) (simp_all add: unfrozen_ins_def dma_busy_def ready_host_def)


theorem relu_finishes_witness:
  "trace (top_clk relu_image 16 []) program_ends (replicate 162 ready_host @ replicate 319 ready_host) idle_top = [()]"
proof -
  have "\<forall>i \<in> set (replicate 162 ready_host @ replicate 319 ready_host). \<not> send_write_packet_queue_full i"
    by (simp add: ready_host_def)
  then show ?thesis
    using relu_finishes [OF relu_image_env idle_top_start, of "replicate 162 ready_host" "[]" "replicate 319 ready_host"]
    by (simp add: ready_host_unfrozen)
qed

end
