(* ===== verification/Smplfifo.thy ===== *)
theory Smplfifo
  imports Clocked "HOL-Library.Word"
begin

unbundle bit_operations_syntax

text \<open>
  The plain queue that core/top.sv uses four times (core/FIFO/smplfifo.v): a ring of 512 places with its flags
  kept ahead in registers, and a data output that is chosen among three registers, so that it shows the head
  of the queue in the clock after a read or a write.  It refines a list that holds at most 511 entries.
\<close>

section \<open>The module\<close>

record 'a smplfifo =
  fifo :: "9 word \<Rightarrow> 'a"
  r_first :: "9 word"
  r_last :: "9 word"
  r_next :: "9 word"
  will_overflow :: bool
  r_ovfl :: bool
  will_underflow :: bool
  fifo_here :: 'a
  fifo_next :: 'a
  r_data :: 'a
  osrc :: "2 word"
  r_empty_n :: bool
  r_fill :: "9 word"

record 'a smplfifo_in =
  i_reset :: bool
  i_wr :: bool
  i_data :: 'a
  i_rd :: bool

definition w_first_plus_one :: "'a smplfifo \<Rightarrow> 9 word" where
  "w_first_plus_one q = r_first q + 1"

definition w_first_plus_two :: "'a smplfifo \<Rightarrow> 9 word" where
  "w_first_plus_two q = r_first q + 2"

definition w_last_plus_one :: "'a smplfifo \<Rightarrow> 9 word" where
  "w_last_plus_one q = r_next q"

definition next_will_overflow :: "'a smplfifo_in \<Rightarrow> 'a smplfifo \<Rightarrow> bool" where
  "next_will_overflow i q =
     (if i_reset i then False
      else if i_rd i then will_overflow q \<and> i_wr i
      else if i_wr i then will_overflow q \<or> w_first_plus_two q = r_last q
      else if w_first_plus_one q = r_last q then True
      else will_overflow q)"

definition write_side :: "'a smplfifo_in \<Rightarrow> 'a smplfifo \<Rightarrow> 'a smplfifo" where
  "write_side i q =
     q\<lparr>fifo := (if i_wr i then (fifo q)(r_first q := i_data i) else fifo q),
       r_ovfl := (if i_reset i then False
                  else if i_wr i \<and> \<not> (i_rd i \<or> \<not> will_overflow q) then True else r_ovfl q),
       r_first := (if i_reset i then 0
                   else if i_wr i \<and> (i_rd i \<or> \<not> will_overflow q) then w_first_plus_one q else r_first q)\<rparr>"

definition next_will_underflow :: "'a smplfifo_in \<Rightarrow> 'a smplfifo \<Rightarrow> bool" where
  "next_will_underflow i q =
     (if i_reset i then True
      else if i_wr i then False
      else if i_rd i then will_underflow q \<or> w_last_plus_one q = r_first q
      else r_last q = r_first q)"

definition next_r_last :: "'a smplfifo_in \<Rightarrow> 'a smplfifo \<Rightarrow> 9 word" where
  "next_r_last i q =
     (if i_reset i then 0 else if i_rd i \<and> \<not> will_underflow q then r_next q else r_last q)"

definition next_r_next :: "'a smplfifo_in \<Rightarrow> 'a smplfifo \<Rightarrow> 9 word" where
  "next_r_next i q =
     (if i_reset i then 1 else if i_rd i \<and> \<not> will_underflow q then r_last q + 2 else r_next q)"

definition next_osrc :: "'a smplfifo_in \<Rightarrow> 'a smplfifo \<Rightarrow> 2 word" where
  "next_osrc i q =
     (if will_underflow q then 0
      else if i_rd i \<and> r_first q = w_last_plus_one q then 1
      else if i_rd i then 3
      else 2)"

text \<open>The \<^verbatim>\<open>casez\<close> over \<^verbatim>\<open>{i_wr, i_rd, will_underflow}\<close>.\<close>

definition next_r_empty_n :: "'a smplfifo_in \<Rightarrow> 'a smplfifo \<Rightarrow> bool" where
  "next_r_empty_n i q =
     (if i_reset i then False
      else case (i_wr i, i_rd i, will_underflow q) of
          (False, False, _) \<Rightarrow> r_first q \<noteq> r_last q
        | (False, True, False) \<Rightarrow> r_first q \<noteq> w_last_plus_one q
        | (True, False, _) \<Rightarrow> True
        | (True, True, False) \<Rightarrow> r_first q \<noteq> r_last q
        | (True, True, True) \<Rightarrow> True
        | (False, True, True) \<Rightarrow> r_empty_n q)"

text \<open>The \<^verbatim>\<open>casez\<close> over \<^verbatim>\<open>{i_wr, !will_overflow, i_rd && !will_underflow}\<close>.\<close>

definition next_r_fill :: "'a smplfifo_in \<Rightarrow> 'a smplfifo \<Rightarrow> 9 word" where
  "next_r_fill i q =
     (if i_reset i then 0
      else case (i_wr i, \<not> will_overflow q, i_rd i \<and> \<not> will_underflow q) of
          (False, _, True) \<Rightarrow> r_first q - r_next q
        | (True, True, False) \<Rightarrow> r_first q - r_last q + 1
        | _ \<Rightarrow> r_first q - r_last q)"

definition smplfifo_clk :: "'a smplfifo_in \<Rightarrow> 'a smplfifo \<Rightarrow> 'a smplfifo" where
  "smplfifo_clk i q =
     (write_side i q)
      \<lparr>r_last := next_r_last i q, r_next := next_r_next i q,
       will_overflow := next_will_overflow i q, will_underflow := next_will_underflow i q,
       fifo_here := fifo q (r_last q), fifo_next := fifo q (r_next q), r_data := i_data i,
       osrc := next_osrc i q, r_empty_n := next_r_empty_n i q, r_fill := next_r_fill i q\<rparr>"

text \<open>The outputs.\<close>

definition o_data :: "'a smplfifo \<Rightarrow> 'a" where
  "o_data q = (if bit (osrc q) 1 then (if bit (osrc q) 0 then fifo_next q else fifo_here q) else r_data q)"

definition o_empty_n :: "'a smplfifo \<Rightarrow> bool" where
  "o_empty_n q = r_empty_n q"

definition o_err :: "'a smplfifo \<Rightarrow> bool" where
  "o_err q = r_ovfl q"

definition o_status :: "'a smplfifo \<Rightarrow> 16 word" where
  "o_status q =
     push_bit 2 (ucast (r_fill q)) OR (if bit (r_fill q) 8 then 2 else 0) OR (if r_empty_n q then 1 else 0)"

section \<open>A bounded list\<close>

text \<open>What the queue promises: a read takes the head away, also of an empty queue, where it does nothing; a write
  puts its entry at the end, unless there are already 511 and none is read.\<close>

definition accepts :: "'a smplfifo_in \<Rightarrow> 'a list \<Rightarrow> bool" where
  "accepts i xs \<longleftrightarrow> i_wr i \<and> (i_rd i \<or> length xs < 511)"

definition list_clk :: "'a smplfifo_in \<Rightarrow> 'a list \<Rightarrow> 'a list" where
  "list_clk i xs =
     (if i_reset i then [] else (if i_rd i then tl xs else xs) @ (if accepts i xs then [i_data i] else []))"

text \<open>The entries in the ring, and what the registers say about them.\<close>

definition size_of :: "'a smplfifo \<Rightarrow> nat" where
  "size_of q = unat (r_first q - r_last q)"

definition contents :: "'a smplfifo \<Rightarrow> 'a list" where
  "contents q = map (\<lambda>k. fifo q (r_last q + of_nat k)) [0..<size_of q]"

definition smplfifo_ok :: "'a smplfifo \<Rightarrow> bool" where
  "smplfifo_ok q \<longleftrightarrow>
     r_next q = r_last q + 1 \<and> (will_underflow q \<longleftrightarrow> r_first q = r_last q) \<and> (will_overflow q \<longleftrightarrow> r_first q + 1 = r_last q)
     \<and> (r_empty_n q \<longleftrightarrow> r_first q \<noteq> r_last q) \<and> r_fill q = r_first q - r_last q
     \<and> (r_first q \<noteq> r_last q \<longrightarrow> o_data q = fifo q (r_last q))"

section \<open>The ring\<close>

definition ring :: "(9 word \<Rightarrow> 'a) \<Rightarrow> 9 word \<Rightarrow> nat \<Rightarrow> 'a list" where
  "ring m l n = map (\<lambda>k. m (l + of_nat k)) [0..<n]"

lemma ring_0 [simp]: "ring m l 0 = []"
  by (simp add: ring_def)

lemma ring_Suc: "ring m l (Suc n) = m l # ring m (l + 1) n"
  by (simp add: ring_def upt_conv_Cons map_Suc_upt [symmetric] add.assoc del: upt_Suc)

lemma length_ring [simp]: "length (ring m l n) = n"
  by (simp add: ring_def)

lemma place_eq: "i < 512 \<Longrightarrow> j < 512 \<Longrightarrow> (of_nat i :: 9 word) = of_nat j \<longleftrightarrow> i = j"
  by (simp add: word_of_nat_eq_iff take_bit_nat_eq_self)

lemma place_write:
  assumes "n < 512"
  shows "ring (m(l + of_nat n := x)) l n = ring m l n"
    and "ring (m(l + of_nat n := x)) l (Suc n) = ring m l n @ [x]"
proof -
  show *: "ring (m(l + of_nat n := x)) l n = ring m l n"
    unfolding ring_def using assms by (intro map_cong) (simp_all add: place_eq)
  have "ring f l (Suc n) = ring f l n @ [f (l + of_nat n)]" for f :: "9 word \<Rightarrow> 'a"
    by (simp add: ring_def)
  then show "ring (m(l + of_nat n := x)) l (Suc n) = ring m l n @ [x]" by (simp add: *)
qed

lemma size_facts:
  "size_of q < 512" "r_first q = r_last q + of_nat (size_of q)"
  "r_first q = r_last q \<longleftrightarrow> size_of q = 0" "r_first q + 1 = r_last q \<longleftrightarrow> size_of q = 511"
  "r_first q = r_last q + 1 \<longleftrightarrow> size_of q = 1" "r_first q + 2 = r_last q \<longleftrightarrow> size_of q = 510"
proof -
  let ?d = "r_first q - r_last q"
  show "size_of q < 512" using unsigned_less [of ?d] by (simp add: size_of_def)
  show "r_first q = r_last q + of_nat (size_of q)" by (simp add: size_of_def)
  have d: "size_of q = n \<longleftrightarrow> r_first q = r_last q + of_nat n" if "n < 512" for n
  proof -
    have "unat (of_nat n :: 9 word) = n" using that by (simp add: unat_of_nat take_bit_nat_eq_self)
    then have "size_of q = n \<longleftrightarrow> ?d = of_nat n" by (metis size_of_def word_unat_eq_iff)
    then show ?thesis by (metis diff_eq_eq add.commute)
  qed
  show "r_first q = r_last q \<longleftrightarrow> size_of q = 0" "r_first q = r_last q + 1 \<longleftrightarrow> size_of q = 1"
    by (simp_all add: d)
  have "(511 :: 9 word) = - 1" "(510 :: 9 word) = - 2" by simp_all
  then have s: "r_last q + 511 = r_last q - 1" "r_last q + 510 = r_last q - 2" by (simp_all only: diff_conv_add_uminus)
  have "size_of q = 511 \<longleftrightarrow> r_first q = r_last q + 511" "size_of q = 510 \<longleftrightarrow> r_first q = r_last q + 510"
    using d [of 511] d [of 510] by simp_all
  then have "size_of q = 511 \<longleftrightarrow> r_first q = r_last q - 1" "size_of q = 510 \<longleftrightarrow> r_first q = r_last q - 2"
    by (simp_all only: s)
  then show "r_first q + 1 = r_last q \<longleftrightarrow> size_of q = 511" "r_first q + 2 = r_last q \<longleftrightarrow> size_of q = 510"
    by (simp_all add: eq_diff_eq)
qed

lemma contents_ring: "contents q = ring (fifo q) (r_last q) (size_of q)"
  by (simp add: contents_def ring_def)

text \<open>The reads and writes that have an effect.\<close>

definition takes :: "'a smplfifo_in \<Rightarrow> 'a smplfifo \<Rightarrow> bool" where
  "takes i q \<longleftrightarrow> i_rd i \<and> size_of q \<noteq> 0"

definition puts :: "'a smplfifo_in \<Rightarrow> 'a smplfifo \<Rightarrow> bool" where
  "puts i q \<longleftrightarrow> i_wr i \<and> (i_rd i \<or> size_of q < 511)"

lemma ok_flags:
  assumes "smplfifo_ok q"
  shows "r_next q = r_last q + 1" "will_underflow q \<longleftrightarrow> size_of q = 0" "will_overflow q \<longleftrightarrow> size_of q = 511"
    "r_empty_n q \<longleftrightarrow> size_of q \<noteq> 0" "size_of q \<noteq> 0 \<Longrightarrow> o_data q = fifo q (r_last q)"
    "r_fill q = r_first q - r_last q"
  using assms unfolding smplfifo_ok_def size_facts(3,4) by auto

lemma pointers:
  assumes "smplfifo_ok q" and "\<not> i_reset i"
  shows "r_first (smplfifo_clk i q) = r_first q + of_bool (puts i q)"
    and "r_last (smplfifo_clk i q) = r_last q + of_bool (takes i q)"
    and "fifo (smplfifo_clk i q) = (if i_wr i then (fifo q)(r_first q := i_data i) else fifo q)"
  using assms(2) ok_flags [OF assms(1)] size_facts(1) [of q]
  by (auto simp: smplfifo_clk_def write_side_def next_r_last_def w_first_plus_one_def puts_def takes_def)

lemma size_step:
  assumes "smplfifo_ok q" and "\<not> i_reset i"
  shows "size_of (smplfifo_clk i q) = size_of q - of_bool (takes i q) + of_bool (puts i q)"
proof -
  let ?m = "size_of q - of_bool (takes i q) + of_bool (puts i q)"
  have m: "?m < 512" using size_facts(1) [of q] by (auto simp: puts_def takes_def)
  have "of_nat ?m = (of_nat (size_of q) - of_bool (takes i q) + of_bool (puts i q) :: 9 word)"
    by (simp add: takes_def of_nat_diff)
  also have "\<dots> = r_first (smplfifo_clk i q) - r_last (smplfifo_clk i q)"
    by (simp add: pointers [OF assms]) (simp add: size_of_def)
  finally have "size_of (smplfifo_clk i q) = unat (of_nat ?m :: 9 word)" by (simp add: size_of_def [of "smplfifo_clk i q"])
  also have "\<dots> = ?m" using m by (simp only: unat_of_nat take_bit_nat_eq_self_iff) (simp add: take_bit_nat_eq_self)
  finally show ?thesis .
qed

lemma contents_step:
  assumes "smplfifo_ok q" and "\<not> i_reset i"
  shows "contents (smplfifo_clk i q) = list_clk i (contents q)"
proof -
  let ?q = "smplfifo_clk i q" and ?n = "size_of q" and ?l = "r_last q" and ?m = "fifo (smplfifo_clk i q)"
  note p = pointers [OF assms] and n = size_facts(1) [of q]
  have first: "r_first q = ?l + of_nat ?n" by (rule size_facts(2))
  have same: "ring ?m ?l ?n = contents q"
    using place_write(1) [OF n, of "fifo q" ?l "i_data i"] by (simp add: p(3) contents_ring first)
  have longer: "ring ?m ?l (Suc ?n) = contents q @ [i_data i]" if "i_wr i"
    using place_write(2) [OF n, of "fifo q" ?l "i_data i"] that by (simp add: p(3) contents_ring first)
  have tl: "ring ?m (?l + 1) (?n - 1) = tl (contents q)" if nz: "?n \<noteq> 0"
  proof -
    obtain k where "?n = Suc k" using nz by (cases ?n) simp_all
    then show ?thesis unfolding same [symmetric] by (simp add: ring_Suc)
  qed
  have len: "length (contents q) = ?n" by (simp add: contents_ring)
  have "contents ?q = ring ?m (?l + of_bool (takes i q)) (?n - of_bool (takes i q) + of_bool (puts i q))"
    by (simp add: contents_ring [of ?q] p size_step [OF assms])
  also have "\<dots> = list_clk i (contents q)"
  proof (cases "takes i q")
    case True
    then have "?n \<noteq> 0" "i_rd i" by (simp_all add: takes_def)
    moreover have "ring ?m (?l + 1) ?n = tl (contents q @ [i_data i])" if "i_wr i"
      using longer [OF that] by (metis list.sel(3) ring_Suc)
    ultimately show ?thesis
      using True tl assms(2) len by (cases "contents q") (auto simp: puts_def list_clk_def accepts_def)
  next
    case False
    then have "i_rd i \<Longrightarrow> contents q = []" using len by (auto simp: takes_def)
    then show ?thesis
      using False same longer assms(2) len by (auto simp: puts_def list_clk_def accepts_def)
  qed
  finally show ?thesis .
qed

text \<open>The flags that are kept ahead.\<close>

lemma flags_step:
  assumes ok: "smplfifo_ok q" and "\<not> i_reset i"
  shows "next_will_underflow i q \<longleftrightarrow> size_of (smplfifo_clk i q) = 0"
    and "next_will_overflow i q \<longleftrightarrow> size_of (smplfifo_clk i q) = 511"
    and "next_r_empty_n i q \<longleftrightarrow> size_of (smplfifo_clk i q) \<noteq> 0"
    and "next_r_next i q = next_r_last i q + 1"
    and "next_r_fill i q = r_first (smplfifo_clk i q) - r_last (smplfifo_clk i q)"
proof -
  note s = size_facts(1,3-6) [of q] ok_flags(1-4,6) [OF ok] assms(2)
  have places: "r_last q = r_first q \<longleftrightarrow> size_of q = 0" "r_first q \<noteq> r_next q \<longleftrightarrow> size_of q \<noteq> 1"
    "r_next q = r_first q \<longleftrightarrow> size_of q = 1"
    using s by metis+
  show "next_will_underflow i q \<longleftrightarrow> size_of (smplfifo_clk i q) = 0"
    unfolding size_step [OF assms] using s(1) assms(2)
    by (auto simp: next_will_underflow_def w_last_plus_one_def places ok_flags(2) [OF ok] takes_def puts_def)
  show "next_will_overflow i q \<longleftrightarrow> size_of (smplfifo_clk i q) = 511"
    unfolding size_step [OF assms] next_will_overflow_def w_first_plus_one_def w_first_plus_two_def size_facts(4,6)
      ok_flags(3) [OF ok]
    using s(1) assms(2) by (auto simp: takes_def puts_def)
  show "next_r_empty_n i q \<longleftrightarrow> size_of (smplfifo_clk i q) \<noteq> 0"
    unfolding size_step [OF assms] next_r_empty_n_def w_last_plus_one_def places(2) size_facts(3)
      ok_flags(2,4) [OF ok]
    using s(1) assms(2) by (auto simp: takes_def puts_def split: bool.split)
  show "next_r_next i q = next_r_last i q + 1"
    using s by (simp add: next_r_next_def next_r_last_def)
  have "r_first (smplfifo_clk i q) - r_last (smplfifo_clk i q)
      = r_first q - r_last q + of_bool (puts i q) - of_bool (takes i q)"
    by (simp add: pointers [OF assms])
  then show "next_r_fill i q = r_first (smplfifo_clk i q) - r_last (smplfifo_clk i q)"
    unfolding next_r_fill_def ok_flags(2,3) [OF ok] ok_flags(1) [OF ok] using s(1) assms(2)
    by (auto simp: takes_def puts_def split: bool.split)
qed

lemma data_step:
  assumes ok: "smplfifo_ok q" and "\<not> i_reset i" and "size_of (smplfifo_clk i q) \<noteq> 0"
  shows "o_data (smplfifo_clk i q) = fifo (smplfifo_clk i q) (r_last (smplfifo_clk i q))"
proof -
  note p = pointers [OF ok assms(2)]
  have bits: "bit (2 :: 2 word) 1" "\<not> bit (2 :: 2 word) 0" "bit (3 :: 2 word) 1" "bit (3 :: 2 word) 0"
    "\<not> bit (1 :: 2 word) 1" "\<not> bit (0 :: 2 word) 1"
    by simp_all
  have data: "o_data (smplfifo_clk i q)
      = (if size_of q = 0 then i_data i
         else if i_rd i \<and> size_of q = 1 then i_data i
         else if i_rd i then fifo q (r_last q + 1) else fifo q (r_last q))"
    using size_facts(5) [of q]
    by (auto simp: o_data_def smplfifo_clk_def next_osrc_def ok_flags(1,2) [OF ok] w_last_plus_one_def bits)
  have "size_of q - of_bool (takes i q) + of_bool (puts i q) \<noteq> 0" using assms(3) by (simp add: size_step [OF ok assms(2)])
  then have wr: "size_of q = 0 \<or> i_rd i \<and> size_of q = 1 \<Longrightarrow> i_wr i" by (auto simp: takes_def puts_def)
  note places = size_facts(3,5) [of q]
  consider "size_of q = 0" | "size_of q \<noteq> 0" "\<not> i_rd i" | "size_of q \<noteq> 0" "size_of q \<noteq> 1" "i_rd i"
    | "size_of q = 1" "i_rd i" by blast
  then show ?thesis
  proof cases
    case 4
    then have "r_last q + 1 = r_first q" using places(2) by metis
    then show ?thesis unfolding data p using 4 wr by (simp add: takes_def)
  next
    case 3
    then have "r_last q + 1 \<noteq> r_first q" using places(2) by metis
    then show ?thesis unfolding data p using 3 by (simp add: takes_def)
  next
    case 2
    then have "r_last q \<noteq> r_first q" using places(1) by metis
    then show ?thesis unfolding data p using 2 by (simp add: takes_def)
  next
    case 1
    then have "r_last q = r_first q" using places(1) by metis
    then show ?thesis unfolding data p using 1 wr by (simp add: takes_def)
  qed
qed

lemma smplfifo_ok_clk: "smplfifo_ok q \<Longrightarrow> smplfifo_ok (smplfifo_clk i q)"
proof (cases "i_reset i")
  case True
  then show ?thesis
    by (simp add: smplfifo_ok_def smplfifo_clk_def write_side_def next_r_last_def next_r_next_def next_will_overflow_def
        next_will_underflow_def next_r_empty_n_def next_r_fill_def)
next
  case False
  assume ok: "smplfifo_ok q"
  let ?q = "smplfifo_clk i q"
  have next_fields: "r_next ?q = next_r_next i q" "r_last ?q = next_r_last i q" "will_underflow ?q = next_will_underflow i q"
    "will_overflow ?q = next_will_overflow i q" "r_empty_n ?q = next_r_empty_n i q" "r_fill ?q = next_r_fill i q"
    by (simp_all add: smplfifo_clk_def)
  show ?thesis
    unfolding smplfifo_ok_def size_facts(3,4)
    using flags_step [OF ok False] data_step [OF ok False] by (simp add: next_fields)
qed

section \<open>The queue is a bounded list\<close>

text \<open>Nothing is lost while no write meets a full queue.\<close>

definition smplfifo_in_ok :: "'a smplfifo_in \<Rightarrow> 'a smplfifo \<Rightarrow> bool" where
  "smplfifo_in_ok i q \<longleftrightarrow> \<not> i_reset i \<and> (i_wr i \<longrightarrow> i_rd i \<or> \<not> will_overflow q)"

definition smplfifo_ins :: "'a smplfifo_in \<Rightarrow> 'a smplfifo \<Rightarrow> 'a list" where
  "smplfifo_ins i q = (if i_wr i then [i_data i] else [])"

definition smplfifo_outs :: "'a smplfifo_in \<Rightarrow> 'a smplfifo \<Rightarrow> 'a list" where
  "smplfifo_outs i q = (if i_rd i \<and> o_empty_n q then [o_data q] else [])"

lemma length_contents [simp]: "length (contents q) = size_of q"
  by (simp add: contents_ring)

lemma contents_empty: "contents q = [] \<longleftrightarrow> size_of q = 0"
  by (metis length_0_conv length_contents)

lemma outputs:
  assumes "smplfifo_ok q"
  shows "o_empty_n q \<longleftrightarrow> contents q \<noteq> []" and "contents q \<noteq> [] \<Longrightarrow> o_data q = hd (contents q)"
    and "will_overflow q \<longleftrightarrow> length (contents q) = 511" and "unat (r_fill q) = length (contents q)"
proof -
  show "o_empty_n q \<longleftrightarrow> contents q \<noteq> []" "will_overflow q \<longleftrightarrow> length (contents q) = 511"
    using ok_flags [OF assms] by (simp_all add: o_empty_n_def contents_empty)
  show "unat (r_fill q) = length (contents q)" by (simp add: ok_flags(6) [OF assms] size_of_def)
  assume "contents q \<noteq> []"
  then obtain k where k: "size_of q = Suc k" by (cases "size_of q") (simp_all add: contents_empty)
  then show "o_data q = hd (contents q)" using ok_flags(5) [OF assms] by (simp add: contents_ring ring_Suc)
qed

interpretation smplfifo_queue:
  conserving smplfifo_clk smplfifo_ok smplfifo_in_ok contents smplfifo_ins smplfifo_outs
proof unfold_locales
  fix q :: "'a smplfifo" and i
  assume q: "smplfifo_ok q" and i: "smplfifo_in_ok i q"
  show "smplfifo_ok (smplfifo_clk i q)" by (rule smplfifo_ok_clk [OF q])
  have "contents (smplfifo_clk i q) = list_clk i (contents q)"
    using contents_step [OF q] i by (simp add: smplfifo_in_ok_def)
  moreover have "i_wr i \<Longrightarrow> accepts i (contents q)"
    using i size_facts(1) [of q] ok_flags(3) [OF q] by (auto simp: smplfifo_in_ok_def accepts_def)
  ultimately show "smplfifo_outs i q @ contents (smplfifo_clk i q) = contents q @ smplfifo_ins i q"
    using outputs(1,2) [OF q] i
    by (cases "contents q") (auto simp: smplfifo_outs_def smplfifo_ins_def list_clk_def accepts_def smplfifo_in_ok_def)
qed

text \<open>The specification: the list, and whether a write was refused since the last reset.\<close>

definition spec_clk :: "'a smplfifo_in \<Rightarrow> 'a list \<times> bool \<Rightarrow> 'a list \<times> bool" where
  "spec_clk i s =
     (list_clk i (fst s), \<not> i_reset i \<and> (snd s \<or> i_wr i \<and> \<not> accepts i (fst s)))"

lemma contents_clk:
  assumes "smplfifo_ok q"
  shows "contents (smplfifo_clk i q) = list_clk i (contents q)"
proof (cases "i_reset i")
  case True
  then have "size_of (smplfifo_clk i q) = 0"
    by (simp add: size_of_def smplfifo_clk_def write_side_def next_r_last_def)
  then show ?thesis using True by (simp add: list_clk_def contents_ring)
qed (rule contents_step [OF assms])

lemma err_step:
  assumes "smplfifo_ok q"
  shows "o_err (smplfifo_clk i q) \<longleftrightarrow> \<not> i_reset i \<and> (o_err q \<or> i_wr i \<and> \<not> accepts i (contents q))"
  using ok_flags(3) [OF assms] size_facts(1) [of q]
  by (auto simp: o_err_def smplfifo_clk_def write_side_def accepts_def)

lemma run_refines:
  assumes "smplfifo_ok q"
  shows "smplfifo_ok (run smplfifo_clk is q)
     \<and> (contents (run smplfifo_clk is q), o_err (run smplfifo_clk is q)) = run spec_clk is (contents q, o_err q)"
  using assms
proof (induction "is" arbitrary: q)
  case (Cons i "is")
  then show ?case
    using Cons.IH [OF smplfifo_ok_clk [OF Cons.prems]]
    by (simp add: spec_clk_def contents_clk [OF Cons.prems] err_step [OF Cons.prems])
qed simp

lemma reset_ok: "i_reset i \<Longrightarrow> smplfifo_ok (smplfifo_clk i q) \<and> contents (smplfifo_clk i q) = [] \<and> \<not> o_err (smplfifo_clk i q)"
  by (simp add: smplfifo_ok_def smplfifo_clk_def write_side_def next_r_last_def next_r_next_def next_will_overflow_def
      next_will_underflow_def next_r_empty_n_def next_r_fill_def contents_empty size_of_def o_err_def)

text \<open>A queue in a larger machine that is written at most 510 times is never full and loses nothing.\<close>

lemma few_writes:
  assumes step: "\<And>i s. q (step i s) = smplfifo_clk (qin i s) (q s)" and reset: "\<And>i s. \<not> i_reset (qin i s)"
    and ok: "smplfifo_ok (q s)" and empty: "contents (q s) = []"
    and few: "length (trace step (\<lambda>i s. smplfifo_ins (qin i s) (q s)) is s) \<le> 510"
  shows "smplfifo_ok (q (run step is s)) \<and> \<not> will_overflow (q (run step is s))
     \<and> trace step (\<lambda>i s. smplfifo_outs (qin i s) (q s)) is s @ contents (q (run step is s))
       = trace step (\<lambda>i s. smplfifo_ins (qin i s) (q s)) is s
     \<and> o_err (q (run step is s)) = o_err (q s)"
  using few
proof (induction "is" rule: rev_induct)
  case Nil
  then show ?case using ok empty outputs(3) [OF ok] by simp
next
  case (snoc i "is")
  let ?s = "run step is s" and ?ins = "\<lambda>i s. smplfifo_ins (qin i s) (q s)" and ?outs = "\<lambda>i s. smplfifo_outs (qin i s) (q s)"
  have run: "run step (is @ [i]) s = step i ?s" by (induction "is" arbitrary: s) simp_all
  have IH: "smplfifo_ok (q ?s)" "\<not> will_overflow (q ?s)"
    "trace step ?outs is s @ contents (q ?s) = trace step ?ins is s" "o_err (q ?s) = o_err (q s)"
    using snoc by (simp_all add: trace_snoc)
  have "smplfifo_in_ok (qin i ?s) (q ?s)" using IH(2) reset by (simp add: smplfifo_in_ok_def)
  note c = smplfifo_queue.step_inv [OF IH(1) this] smplfifo_queue.step_conserves [OF IH(1) this]
  have new: "trace step ?outs (is @ [i]) s @ contents (q (step i ?s)) = trace step ?ins (is @ [i]) s"
    using IH(3) c(2) by (simp add: trace_snoc step)
  then have "length (contents (q (step i ?s))) \<le> 510" using snoc.prems arg_cong [OF new, of length] unfolding length_append by linarith
  then have "\<not> will_overflow (q (step i ?s))" using outputs(3) [OF c(1)] by (simp add: step)
  moreover have "o_err (q (step i ?s)) = o_err (q s)"
    using err_step [OF IH(1), of "qin i ?s"] IH(2,4) outputs(3) [OF IH(1)] size_facts(1) [of "q ?s"] reset
    by (auto simp: step accepts_def)
  ultimately show ?case using new c(1) by (simp add: run step)
qed

text \<open>C16. The plain queue is a bounded list: after a reset, in whatever state it was and whatever is read and written
  afterwards, it says that it is not empty exactly when the list is not, and then its data output
  is the head of the list; it announces the overflow exactly when the list holds 511 entries, counts them in
  its fill register, and raises its error exactly when a write was refused since the last reset.\<close>

theorem smplfifo_refines:
  "let q = run smplfifo_clk (i\<lparr>i_reset := True\<rparr> # is) q0; s = run spec_clk is ([], False); xs = fst s in
     (if xs = [] then \<not> o_empty_n q else o_empty_n q \<and> o_data q = hd xs)
     \<and> (will_overflow q \<longleftrightarrow> length xs = 511) \<and> unat (r_fill q) = length xs \<and> (o_err q \<longleftrightarrow> snd s)"
proof -
  let ?q = "smplfifo_clk (i\<lparr>i_reset := True\<rparr>) q0"
  have q: "smplfifo_ok ?q" "contents ?q = []" "\<not> o_err ?q" using reset_ok [of "i\<lparr>i_reset := True\<rparr>" q0] by simp_all
  note r = run_refines [OF q(1), of "is"]
  have s: "run spec_clk is ([], False) = (contents (run smplfifo_clk is ?q), o_err (run smplfifo_clk is ?q))"
    using r q(2,3) by simp
  show ?thesis
    unfolding Let_def run.simps(2) s fst_conv snd_conv using outputs [OF conjunct1 [OF r]] by simp
qed

end
