(* ===== verification/Board.thy ===== *)
theory Board
  imports Requests ReluDevice Smplfifo
begin

text \<open>
  The whole of core/top.sv between its serial lines: the device with the four plain queues, the instruction
  memory, the packet receiver and the packet sender.  The inputs of a clock are the byte that the serial
  receiver announces and the serial transmitter's busy flag; both modules are not part of the repository.
\<close>

section \<open>The board\<close>

record board =
  machine :: top
  icache_ram :: icache_mem
  program_execution_queue :: "bits smplfifo"
  l3_cache :: "bits smplfifo"
  mem_write_command :: "(16 word \<times> bits) smplfifo"
  prog_complete_message :: "bool smplfifo"
  packet_sender :: sender
  packet_receiver :: receiver

record board_in =
  rx :: "byte option"
  uart_tx_busy :: bool

text \<open>The wires from the queues and memories to the device.\<close>

definition board_env :: "board \<Rightarrow> env" where
  "board_env b =
     (top_env (icache_ram b) (o_data (program_execution_queue b)))
       \<lparr>execution_queue_not_empty := o_empty_n (program_execution_queue b)\<rparr>"

definition board_top_in :: "board \<Rightarrow> top_in" where
  "board_top_in b =
     \<lparr>L3_not_empty = o_empty_n (l3_cache b), L3_head = o_data (l3_cache b),
      send_write_packet_queue_full = will_overflow (mem_write_command b),
      send_prog_complete_packet_queue_full = will_overflow (prog_complete_message b),
      top_in.dma_send_read_queue_re = sender.dma_send_read_queue_re (packet_sender b)\<rparr>"

definition freeze_wire :: "board \<Rightarrow> bool" where
  "freeze_wire b = dma_busy (board_top_in b) (machine b)"

definition board_device :: "board \<Rightarrow> device" where
  "board_device b = dev (front (machine b))"

definition board_sender_in :: "board_in \<Rightarrow> board \<Rightarrow> sender_in" where
  "board_sender_in i b =
     \<lparr>tx_busy = uart_tx_busy i,
      dma_send_read_queue_data = ucast (dat_r (prefetch (board_device b))),
      dma_send_read_queue_available = emptyn (prefetch (board_device b)),
      dma_send_write_queue_data = fst (o_data (mem_write_command b)),
      dma_send_write_queue_data2 = snd (o_data (mem_write_command b)),
      dma_send_write_queue_available = o_empty_n (mem_write_command b),
      dma_send_end_program_queue_available = o_empty_n (prog_complete_message b)\<rparr>"

text \<open>The ports of the four queues.\<close>

definition program_execution_queue_in :: "board \<Rightarrow> bits smplfifo_in" where
  "program_execution_queue_in b =
     \<lparr>i_reset = False, i_wr = enqueue_program_stb (packet_receiver b), i_data = enqueue_program_dat (packet_receiver b),
      i_rd = execution_queue_read_enable (control (board_device b))\<rparr>"

definition l3_cache_in :: "board \<Rightarrow> bits smplfifo_in" where
  "l3_cache_in b =
     \<lparr>i_reset = False, i_wr = mem_read_result_stb (packet_receiver b), i_data = mem_read_result_matrix_tile (packet_receiver b),
      i_rd = (\<not> freeze_wire b \<and> o_empty_n (l3_cache b) \<and> L3_cache_read_enable (machine b))\<rparr>"

definition mem_write_command_in :: "board \<Rightarrow> (16 word \<times> bits) smplfifo_in" where
  "mem_write_command_in b =
     \<lparr>i_reset = False,
      i_wr = (\<not> freeze_wire b \<and> \<not> will_overflow (mem_write_command b) \<and> packet_send_fifo_mem_write_command_we (machine b)),
      i_data = (ucast (dma_main_mem_addr (dma_stage_3_instr (pipes (machine b)))), dma_stage_3_dat (pipes (machine b))),
      i_rd = sender.dma_send_write_queue_re (packet_sender b)\<rparr>"

definition prog_complete_message_in :: "board \<Rightarrow> bool smplfifo_in" where
  "prog_complete_message_in b =
     \<lparr>i_reset = False,
      i_wr = (\<not> freeze_wire b \<and> \<not> will_overflow (mem_write_command b) \<and> prog_end_instr_valid (machine b)),
      i_data = True, i_rd = dma_send_end_program_queue_re (packet_sender b)\<rparr>"

text \<open>One clock, with what the control unit finds in its queue and its memories as an argument.\<close>

definition board_step :: "env \<Rightarrow> bits \<Rightarrow> board_in \<Rightarrow> board \<Rightarrow> board" where
  "board_step E X i b =
     \<lparr>machine = top_clk E 16 X (board_top_in b) (machine b),
      icache_ram = fold write_instr (strobed (packet_receiver b)) (icache_ram b),
      program_execution_queue = smplfifo_clk (program_execution_queue_in b) (program_execution_queue b),
      l3_cache = smplfifo_clk (l3_cache_in b) (l3_cache b),
      mem_write_command = smplfifo_clk (mem_write_command_in b) (mem_write_command b),
      prog_complete_message = smplfifo_clk (prog_complete_message_in b) (prog_complete_message b),
      packet_sender = sender_clk (board_sender_in i b) (packet_sender b),
      packet_receiver = clk (packet_receiver b) (rx i)\<rparr>"

definition board_clk :: "bits \<Rightarrow> board_in \<Rightarrow> board \<Rightarrow> board" where
  "board_clk X i b = board_step (board_env b) X i b"

text \<open>The light that is to come on when a queue has refused an entry.\<close>

definition board_error :: "board \<Rightarrow> bool" where
  "board_error b \<longleftrightarrow>
     o_err (l3_cache b) \<or> o_err (mem_write_command b) \<or> o_err (prog_complete_message b) \<or> o_err (program_execution_queue b)"

text \<open>What a clock sends and takes in, and the requests of the packets the sender begins.\<close>

definition board_system :: "board \<Rightarrow> system" where
  "board_system b = \<lparr>system.front = board_device b, sender = packet_sender b\<rparr>"

definition board_system_in :: "board_in \<Rightarrow> board \<Rightarrow> bool \<times> sender_in" where
  "board_system_in i b = (stall_push (queue (front (machine b))), board_sender_in i b)"

definition board_byte :: "board_in \<Rightarrow> board \<Rightarrow> byte list" where
  "board_byte i b = sender_byte (sender_clk (board_sender_in i b) (packet_sender b))"

definition board_requests :: "board_in \<Rightarrow> board \<Rightarrow> request list" where
  "board_requests i b = taken (board_system_in i b) (board_system b)"

definition board_owed :: "board \<Rightarrow> byte list" where
  "board_owed b = owed (board_system b)"

section \<open>Its parts run by themselves\<close>

lemma board_system_step:
  "board_system (board_step E X i b) = system_clk E 16 (board_system_in i b) (board_system b)"
  "board_byte i b = system_bytes E W (board_system_in i b) (board_system b)"
proof -
  have "sender_input (board_sender_in i b) (board_system b) = board_sender_in i b"
    by (simp add: sender_input_def board_sender_in_def board_system_def)
  then show "board_system (board_step E X i b) = system_clk E 16 (board_system_in i b) (board_system b)"
    "board_byte i b = system_bytes E W (board_system_in i b) (board_system b)"
    by (simp_all add: board_system_def board_step_def system_clk_def board_system_in_def board_device_def front_input_def
        top_clk_def core_clk_def board_top_in_def board_byte_def system_bytes_def)
qed

definition top_ins :: "env \<Rightarrow> bits \<Rightarrow> board_in list \<Rightarrow> board \<Rightarrow> top_in list" where
  "top_ins E X is b = trace (board_step E X) (\<lambda>i b. [board_top_in b]) is b"

definition system_ins :: "env \<Rightarrow> bits \<Rightarrow> board_in list \<Rightarrow> board \<Rightarrow> (bool \<times> sender_in) list" where
  "system_ins E X is b = trace (board_step E X) (\<lambda>i b. [board_system_in i b]) is b"

lemma machine_run:
  "machine (run (board_step E X) is b) = run (top_clk E 16 X) (top_ins E X is b) (machine b)"
  "trace (board_step E X) (\<lambda>i b. f (board_top_in b) (machine b)) is b = trace (top_clk E 16 X) f (top_ins E X is b) (machine b)"
proof -
  have m: "machine (board_step E X i b) = top_clk E 16 X (board_top_in b) (machine b)" for i b
    by (simp add: board_step_def)
  show "machine (run (board_step E X) is b) = run (top_clk E 16 X) (top_ins E X is b) (machine b)"
    "trace (board_step E X) (\<lambda>i b. f (board_top_in b) (machine b)) is b = trace (top_clk E 16 X) f (top_ins E X is b) (machine b)"
    by (induction "is" arbitrary: b) (simp_all add: top_ins_def m)
qed

lemma system_run:
  "board_system (run (board_step E X) is b) = run (system_clk E 16) (system_ins E X is b) (board_system b)"
  "trace (board_step E X) (\<lambda>i b. f (board_system_in i b) (board_system b)) is b
     = trace (system_clk E 16) f (system_ins E X is b) (board_system b)"
  by (induction "is" arbitrary: b) (simp_all add: system_ins_def board_system_step(1))

section \<open>Its queues\<close>

definition tiles_in :: "board \<Rightarrow> bits list" where
  "tiles_in b = (if mem_read_result_stb (packet_receiver b) then [mem_read_result_matrix_tile (packet_receiver b)] else [])"

definition tiles_out :: "board \<Rightarrow> bits list" where
  "tiles_out b = fetched (board_top_in b) (machine b)"

definition writes_in :: "board \<Rightarrow> (16 word \<times> bits) list" where
  "writes_in b = map (map_prod ucast id) (written_back (board_top_in b) (machine b))"

definition writes_out :: "board \<Rightarrow> (16 word \<times> bits) list" where
  "writes_out b =
     (if sender.dma_send_write_queue_re (packet_sender b) \<and> o_empty_n (mem_write_command b) then [o_data (mem_write_command b)] else [])"

definition ends_in :: "board \<Rightarrow> unit list" where
  "ends_in b = program_ends (board_top_in b) (machine b)"

definition ends_out :: "board \<Rightarrow> bool list" where
  "ends_out b =
     (if dma_send_end_program_queue_re (packet_sender b) \<and> o_empty_n (prog_complete_message b) then [o_data (prog_complete_message b)] else [])"

lemma queue_ports:
  "smplfifo_ins (l3_cache_in b) (l3_cache b) = tiles_in b"
  "smplfifo_outs (l3_cache_in b) (l3_cache b) = tiles_out b"
  "smplfifo_ins (mem_write_command_in b) (mem_write_command b) = writes_in b"
  "smplfifo_outs (mem_write_command_in b) (mem_write_command b) = writes_out b"
  "smplfifo_ins (prog_complete_message_in b) (prog_complete_message b) = map (\<lambda>_. True) (ends_in b)"
  "smplfifo_outs (prog_complete_message_in b) (prog_complete_message b) = ends_out b"
  by (auto simp: smplfifo_ins_def smplfifo_outs_def l3_cache_in_def tiles_in_def tiles_out_def fetched_def board_top_in_def
      freeze_wire_def mem_write_command_in_def writes_in_def written_back_def writes_out_def prog_complete_message_in_def
      ends_in_def program_ends_def ends_out_def)

lemma no_resets [simp]:
  "\<not> i_reset (l3_cache_in b)" "\<not> i_reset (mem_write_command_in b)" "\<not> i_reset (prog_complete_message_in b)"
  "\<not> i_reset (program_execution_queue_in b)"
  by (simp_all add: l3_cache_in_def mem_write_command_in_def prog_complete_message_in_def program_execution_queue_in_def)

lemma l3_cache_run:
  assumes "smplfifo_ok (l3_cache b)" and "contents (l3_cache b) = []"
    and "length (trace (board_step E X) (\<lambda>i. tiles_in) is b) \<le> 510"
  shows "smplfifo_ok (l3_cache (run (board_step E X) is b))
     \<and> trace (board_step E X) (\<lambda>i. tiles_out) is b @ contents (l3_cache (run (board_step E X) is b))
       = trace (board_step E X) (\<lambda>i. tiles_in) is b
     \<and> o_err (l3_cache (run (board_step E X) is b)) = o_err (l3_cache b)"
  using few_writes [of l3_cache "board_step E X" "\<lambda>i. l3_cache_in" b "is"] assms
  by (simp add: queue_ports board_step_def)

lemma mem_write_command_run:
  assumes "smplfifo_ok (mem_write_command b)" and "contents (mem_write_command b) = []"
    and "length (trace (board_step E X) (\<lambda>i. writes_in) is b) \<le> 510"
  shows "smplfifo_ok (mem_write_command (run (board_step E X) is b)) \<and> \<not> will_overflow (mem_write_command (run (board_step E X) is b))
     \<and> trace (board_step E X) (\<lambda>i. writes_out) is b @ contents (mem_write_command (run (board_step E X) is b))
       = trace (board_step E X) (\<lambda>i. writes_in) is b
     \<and> o_err (mem_write_command (run (board_step E X) is b)) = o_err (mem_write_command b)"
  using few_writes [of mem_write_command "board_step E X" "\<lambda>i. mem_write_command_in" b "is"] assms
  by (simp add: queue_ports board_step_def)

lemma prog_complete_message_run:
  assumes "smplfifo_ok (prog_complete_message b)" and "contents (prog_complete_message b) = []"
    and "length (trace (board_step E X) (\<lambda>i. ends_in) is b) \<le> 510"
  shows "smplfifo_ok (prog_complete_message (run (board_step E X) is b)) \<and> \<not> will_overflow (prog_complete_message (run (board_step E X) is b))
     \<and> length (trace (board_step E X) (\<lambda>i. ends_out) is b) + length (contents (prog_complete_message (run (board_step E X) is b)))
       = length (trace (board_step E X) (\<lambda>i. ends_in) is b)
     \<and> o_err (prog_complete_message (run (board_step E X) is b)) = o_err (prog_complete_message b)"
proof -
  have "trace (board_step E X) (\<lambda>i b. map (\<lambda>_. True) (ends_in b)) is b
      = map (\<lambda>_. True) (trace (board_step E X) (\<lambda>i. ends_in) is b)"
    by (induction "is" arbitrary: b) simp_all
  then have "smplfifo_ok (prog_complete_message (run (board_step E X) is b)) \<and> \<not> will_overflow (prog_complete_message (run (board_step E X) is b))
     \<and> trace (board_step E X) (\<lambda>i. ends_out) is b @ contents (prog_complete_message (run (board_step E X) is b))
       = map (\<lambda>_. True) (trace (board_step E X) (\<lambda>i. ends_in) is b)
     \<and> o_err (prog_complete_message (run (board_step E X) is b)) = o_err (prog_complete_message b)"
    using few_writes [of prog_complete_message "board_step E X" "\<lambda>i. prog_complete_message_in" b "is"] assms
    by (simp add: queue_ports board_step_def)
  then show ?thesis by (metis length_append length_map)
qed

lemma machine_traces:
  "trace (board_step E X) (\<lambda>i. tiles_out) is b = trace (top_clk E 16 X) fetched (top_ins E X is b) (machine b)"
  "trace (board_step E X) (\<lambda>i. writes_in) is b
     = map (map_prod ucast id) (trace (top_clk E 16 X) written_back (top_ins E X is b) (machine b))"
  "trace (board_step E X) (\<lambda>i. ends_in) is b = trace (top_clk E 16 X) program_ends (top_ins E X is b) (machine b)"
proof -
  show "trace (board_step E X) (\<lambda>i. tiles_out) is b = trace (top_clk E 16 X) fetched (top_ins E X is b) (machine b)"
    "trace (board_step E X) (\<lambda>i. ends_in) is b = trace (top_clk E 16 X) program_ends (top_ins E X is b) (machine b)"
    unfolding tiles_out_def [abs_def] ends_in_def [abs_def] by (rule machine_run(2))+
  have "trace (board_step E X) (\<lambda>i. writes_in) is b
      = map (map_prod ucast id) (trace (board_step E X) (\<lambda>i b. written_back (board_top_in b) (machine b)) is b)"
    by (induction "is" arbitrary: b) (simp_all add: writes_in_def)
  then show "trace (board_step E X) (\<lambda>i. writes_in) is b
     = map (map_prod ucast id) (trace (top_clk E 16 X) written_back (top_ins E X is b) (machine b))"
    unfolding machine_run(2) .
qed

end
