(* ===== verification/BoardTraffic.thy ===== *)
theory BoardTraffic
  imports Board
begin

text \<open>
  The traffic of the board while the relu program runs: what passes through its queues, and that the
  packet sender takes from them every write and every end of a program exactly once.
\<close>

section \<open>Rest\<close>

text \<open>As \<^verbatim>\<open>reset\<close> leaves the board, up to the receiver, the instruction memory and what waits in the
  program queue.\<close>

definition resting :: "board \<Rightarrow> bool" where
  "resting b \<longleftrightarrow>
     top_start (machine b) \<and> \<not> execution_queue_read_enable (control (board_device b))
     \<and> smplfifo_ok (program_execution_queue b)
     \<and> smplfifo_ok (l3_cache b) \<and> contents (l3_cache b) = []
     \<and> smplfifo_ok (mem_write_command b) \<and> contents (mem_write_command b) = []
     \<and> smplfifo_ok (prog_complete_message b) \<and> contents (prog_complete_message b) = []
     \<and> sender.S (packet_sender b) = sender_state.IDLE \<and> \<not> tx_en (packet_sender b)
     \<and> \<not> sender.dma_send_read_queue_re (packet_sender b) \<and> \<not> sender.dma_send_write_queue_re (packet_sender b)
     \<and> \<not> dma_send_end_program_queue_re (packet_sender b) \<and> \<not> board_error b"

section \<open>What the queues hold\<close>

lemma trace_concat_le: "length (trace step f is s) \<le> length (trace step f (is @ js) s)"
  by (simp add: trace_append)

lemma board_lists:
  assumes E: "relu_env E" and b: "resting b" and few: "length (trace (board_step E X) (\<lambda>i. tiles_in) is b) \<le> 510"
    and b': "b' = run (board_step E X) is b"
    and ts: "ts = trace (board_step E X) (\<lambda>i. tiles_out) is b" and ws: "ws = trace (board_step E X) (\<lambda>i. writes_in) is b"
  shows "ws = map (\<lambda>a. (of_nat a, if a < 32 then UnopALU (ts ! a) else X)) [0..<length ws]"
    and "length ws \<le> length ts" and "length ts \<le> 128"
    and "length (trace (board_step E X) (\<lambda>i. ends_in) is b) \<le> 1"
    and "trace (board_step E X) (\<lambda>i. ends_in) is b \<noteq> [] \<Longrightarrow> length ws = 128"
    and "ts @ contents (l3_cache b') = trace (board_step E X) (\<lambda>i. tiles_in) is b"
    and "trace (board_step E X) (\<lambda>i. writes_out) is b @ contents (mem_write_command b') = ws"
    and "length (trace (board_step E X) (\<lambda>i. ends_out) is b) + length (contents (prog_complete_message b'))
       = length (trace (board_step E X) (\<lambda>i. ends_in) is b)"
    and "smplfifo_ok (l3_cache b')" and "smplfifo_ok (mem_write_command b')" and "smplfifo_ok (prog_complete_message b')"
    and "\<not> will_overflow (mem_write_command b')" and "\<not> will_overflow (prog_complete_message b')"
    and "\<not> o_err (l3_cache b') \<and> \<not> o_err (mem_write_command b') \<and> \<not> o_err (prog_complete_message b')"
proof -
  let ?ends = "trace (board_step E X) (\<lambda>i. ends_in) is b"
  have start: "top_start (machine b)" using b by (simp add: resting_def)
  note r = relu_transfers [OF E start refl refl, of X "top_ins E X is b", folded machine_traces]
  have raw: "ws = map (map_prod ucast id) (trace (top_clk E 16 X) written_back (top_ins E X is b) (machine b))"
    by (simp add: ws machine_traces)
  have len: "length ws = length (trace (top_clk E 16 X) written_back (top_ins E X is b) (machine b))" by (simp add: raw)
  have narrow: "(ucast (of_nat a :: 7 word) :: 16 word) = of_nat a" if "a < 128" for a
  proof -
    have "unat (of_nat a :: 7 word) = a" using that by (simp add: unat_of_nat take_bit_nat_eq_self)
    then show ?thesis by (metis of_nat_unat)
  qed
  have "length ws \<le> 128" using r len by linarith
  then have "map (map_prod ucast id) (map (\<lambda>a. (of_nat a :: 7 word, if a < 32 then UnopALU (ts ! a) else X)) [0..<length ws])
      = map (\<lambda>a. (of_nat a :: 16 word, if a < 32 then UnopALU (ts ! a) else X)) [0..<length ws]"
    by (simp add: narrow)
  then show "ws = map (\<lambda>a. (of_nat a, if a < 32 then UnopALU (ts ! a) else X)) [0..<length ws]"
    using r raw unfolding ts len by (metis (no_types, lifting))
  show w: "length ws \<le> length ts" and t: "length ts \<le> 128" and e: "length ?ends \<le> 1" and "?ends \<noteq> [] \<Longrightarrow> length ws = 128"
    using r unfolding len ts by auto
  have b0: "smplfifo_ok (l3_cache b)" "contents (l3_cache b) = []" "smplfifo_ok (mem_write_command b)" "contents (mem_write_command b) = []"
    "smplfifo_ok (prog_complete_message b)" "contents (prog_complete_message b) = []" "\<not> board_error b"
    using b by (simp_all add: resting_def)
  have "length ws \<le> 510" "length ?ends \<le> 510" using w t e by linarith+
  note q = l3_cache_run [OF b0(1,2) few] mem_write_command_run [OF b0(3,4), of E X "is"]
    prog_complete_message_run [OF b0(5,6) this(2)]
  show "ts @ contents (l3_cache b') = trace (board_step E X) (\<lambda>i. tiles_in) is b"
    "trace (board_step E X) (\<lambda>i. writes_out) is b @ contents (mem_write_command b') = ws"
    "length (trace (board_step E X) (\<lambda>i. ends_out) is b) + length (contents (prog_complete_message b')) = length ?ends"
    "smplfifo_ok (l3_cache b')" "smplfifo_ok (mem_write_command b')" "smplfifo_ok (prog_complete_message b')"
    "\<not> will_overflow (mem_write_command b')" "\<not> will_overflow (prog_complete_message b')"
    "\<not> o_err (l3_cache b') \<and> \<not> o_err (mem_write_command b') \<and> \<not> o_err (prog_complete_message b')"
    using q \<open>length ws \<le> 510\<close> b0(7) unfolding b' ts ws board_error_def by simp_all
qed

section \<open>The sender and its queues\<close>

text \<open>The serial transmitter: its busy flag comes up only after a byte was handed over.  Before the first clock
  it may be busy.\<close>

fun transmitter_ok :: "(board_in \<Rightarrow> board \<Rightarrow> board) \<Rightarrow> bool \<Rightarrow> board_in list \<Rightarrow> board \<Rightarrow> bool" where
  "transmitter_ok step may [] b \<longleftrightarrow> True"
| "transmitter_ok step may (i # is) b \<longleftrightarrow>
     (uart_tx_busy i \<longrightarrow> may) \<and> transmitter_ok step (uart_tx_busy i \<or> tx_en (packet_sender b)) is (step i b)"

fun may_be_busy :: "(board_in \<Rightarrow> board \<Rightarrow> board) \<Rightarrow> bool \<Rightarrow> board_in list \<Rightarrow> board \<Rightarrow> bool" where
  "may_be_busy step may [] b \<longleftrightarrow> may"
| "may_be_busy step may (i # is) b \<longleftrightarrow>
     may_be_busy step (uart_tx_busy i \<or> tx_en (packet_sender b)) is (step i b)"

lemma transmitter_snoc:
  "transmitter_ok step may (is @ [i]) b \<longleftrightarrow>
     transmitter_ok step may is b \<and> (uart_tx_busy i \<longrightarrow> may_be_busy step may is b)"
  "may_be_busy step may (is @ [i]) b \<longleftrightarrow> uart_tx_busy i \<or> tx_en (packet_sender (run step is b))"
  by (induction "is" arbitrary: may b) simp_all

definition request_writes :: "request list \<Rightarrow> request list" where
  "request_writes rs = filter (\<lambda>r. case r of WriteReq _ _ \<Rightarrow> True | _ \<Rightarrow> False) rs"

definition request_ends :: "request list \<Rightarrow> request list" where
  "request_ends rs = filter (\<lambda>r. case r of OtherReq _ _ \<Rightarrow> True | _ \<Rightarrow> False) rs"

definition write_request :: "16 word \<times> bits \<Rightarrow> request" where
  "write_request w = WriteReq (fst w) (bits_bytes (snd w))"

text \<open>The sender reads its queues when they have something, and takes over what they show then.\<close>

definition traffic_ok :: "bool \<Rightarrow> board \<Rightarrow> bool" where
  "traffic_ok may b \<longleftrightarrow>
     (sender.dma_send_write_queue_re (packet_sender b) \<longleftrightarrow>
        sender.S (packet_sender b) = SENDING_WRITE \<and> sender.counter (packet_sender b) = 0)
     \<and> (sender.dma_send_write_queue_re (packet_sender b) \<longrightarrow>
        \<not> may \<and> \<not> tx_en (packet_sender b) \<and> contents (mem_write_command b) \<noteq> [])
     \<and> (dma_send_end_program_queue_re (packet_sender b) \<longrightarrow>
        sender.S (packet_sender b) = SENDING_END_PROG_NOTIF \<and> contents (prog_complete_message b) \<noteq> [])
     \<and> (sender.S (packet_sender b) = SENDING_WRITE \<longrightarrow> sender.counter (packet_sender b) \<le> 38)
     \<and> (sender.S (packet_sender b) \<in> {SENDING_READ_REQUEST, SENDING_END_PROG_NOTIF} \<longrightarrow> sender.counter (packet_sender b) \<le> 2)"

lemma traffic_start: "resting b \<Longrightarrow> traffic_ok may b"
  by (simp add: resting_def traffic_ok_def)

lemma keeps_contents:
  assumes "smplfifo_ok q" and "contents q \<noteq> []" and "\<not> i_rd j" and "\<not> i_reset j"
  shows "contents (smplfifo_clk j q) \<noteq> []"
  using assms by (simp add: contents_clk list_clk_def)

lemma write_counter: "(x :: 16 word) \<le> 38 \<Longrightarrow> x + 1 \<noteq> 0"
  by (simp add: word_le_nat_alt word_unat_eq_iff unat_plus_if')

lemma traffic_ok_step:
  assumes t: "traffic_ok may b" and busy: "uart_tx_busy i \<longrightarrow> may"
    and q: "smplfifo_ok (mem_write_command b)" "smplfifo_ok (prog_complete_message b)"
  shows "traffic_ok (uart_tx_busy i \<or> tx_en (packet_sender b)) (board_step E X i b)"
proof -
  let ?s = "packet_sender b" and ?j = "board_sender_in i b" and ?b = "board_step E X i b"
  have s: "packet_sender ?b = sender_clk ?j ?s" and w: "mem_write_command ?b = smplfifo_clk (mem_write_command_in b) (mem_write_command b)"
    and e: "prog_complete_message ?b = smplfifo_clk (prog_complete_message_in b) (prog_complete_message b)"
    by (simp_all add: board_step_def)
  have avail: "dma_send_write_queue_available ?j \<longleftrightarrow> contents (mem_write_command b) \<noteq> []"
    "dma_send_end_program_queue_available ?j \<longleftrightarrow> contents (prog_complete_message b) \<noteq> []"
    using outputs(1) q by (simp_all add: board_sender_in_def)
  have free: "tx_busyn ?j ?s \<longleftrightarrow> \<not> (uart_tx_busy i \<or> tx_en ?s)" by (auto simp: tx_busyn_def board_sender_in_def)
  have stays: "sender.S ?s = sender_state.IDLE \<Longrightarrow> contents (mem_write_command b) \<noteq> [] \<Longrightarrow> contents (mem_write_command ?b) \<noteq> []"
    "sender.S ?s = sender_state.IDLE \<Longrightarrow> contents (prog_complete_message b) \<noteq> [] \<Longrightarrow> contents (prog_complete_message ?b) \<noteq> []"
    unfolding w e using keeps_contents [OF q(1), of "mem_write_command_in b"] keeps_contents [OF q(2), of "prog_complete_message_in b"] t
    by (auto simp: traffic_ok_def) (simp_all add: mem_write_command_in_def prog_complete_message_in_def)
  show ?thesis
  proof (cases "tx_busyn ?j ?s")
    case True
    then show ?thesis
      using t free avail stays
      by (cases "sender.S ?s") (auto simp: traffic_ok_def s sender_defs write_counter count_word)
  next
    case False
    then have "\<not> sender.dma_send_write_queue_re ?s" using t busy free by (auto simp: traffic_ok_def)
    then show ?thesis using t False by (auto simp: traffic_ok_def s sender_clk_def clear_outputs_def Let_def)
  qed
qed

lemma taken_kinds:
  "request_writes (board_requests i b) = request_writes (sender_takes (board_sender_in i b) (packet_sender b))"
  "request_ends (board_requests i b) = request_ends (sender_takes (board_sender_in i b) (packet_sender b))"
  "sender_input (snd (board_system_in i b)) (board_system b) = board_sender_in i b"
proof -
  show j: "sender_input (snd (board_system_in i b)) (board_system b) = board_sender_in i b"
    by (simp add: sender_input_def board_system_in_def board_sender_in_def board_system_def)
  show "request_writes (board_requests i b) = request_writes (sender_takes (board_sender_in i b) (packet_sender b))"
    "request_ends (board_requests i b) = request_ends (sender_takes (board_sender_in i b) (packet_sender b))"
    by (simp_all add: board_requests_def taken_def j request_writes_def request_ends_def taken_reads_def)
      (simp_all add: board_system_def)
qed

lemma takes_write:
  assumes t: "traffic_ok may b" and busy: "uart_tx_busy i \<longrightarrow> may" and q: "smplfifo_ok (mem_write_command b)"
  shows "request_writes (board_requests i b) = map write_request (writes_out b)"
    and "takes_tile (board_sender_in i b) (packet_sender b) \<Longrightarrow>
      sender.dma_send_write_queue_re (packet_sender b) \<and> contents (mem_write_command b) \<noteq> []"
proof -
  let ?s = "packet_sender b" and ?j = "board_sender_in i b"
  show "request_writes (board_requests i b) = map write_request (writes_out b)"
  proof (cases "sender.dma_send_write_queue_re ?s")
    case True
    then have "sender.S ?s = SENDING_WRITE" "sender.counter ?s = 0" "tx_busyn ?j ?s" "o_empty_n (mem_write_command b)"
      using t busy outputs(1) [OF q] by (auto simp: traffic_ok_def tx_busyn_def board_sender_in_def)
    then show ?thesis
      unfolding taken_kinds using True by (simp add: sender_takes_def request_writes_def writes_out_def write_request_def board_sender_in_def)
  next
    case False
    then have "\<not> (sender.S ?s = SENDING_WRITE \<and> sender.counter ?s = 0)" using t by (auto simp: traffic_ok_def)
    then show ?thesis unfolding taken_kinds using False by (auto simp: sender_takes_def request_writes_def writes_out_def)
  qed
  show "sender.dma_send_write_queue_re ?s \<and> contents (mem_write_command b) \<noteq> []" if "takes_tile ?j ?s"
    using t that by (auto simp: traffic_ok_def takes_tile_def)
qed

lemma takes_end:
  assumes t: "traffic_ok may b" and q: "smplfifo_ok (mem_write_command b)" "smplfifo_ok (prog_complete_message b)"
  shows "length (request_ends (board_requests i b)) = of_bool (dma_send_end_program_queue_re (packet_sender (board_step E X i b)))"
    and "length (ends_out b) = of_bool (dma_send_end_program_queue_re (packet_sender b))"
    and "set (request_ends (board_requests i b)) \<subseteq> {OtherReq 4 0}"
    and "request_ends (board_requests i b) \<noteq> [] \<Longrightarrow>
      contents (mem_write_command b) = [] \<and> contents (prog_complete_message b) \<noteq> []
      \<and> sender.S (packet_sender b) = sender_state.IDLE \<and> \<not> emptyn (prefetch (board_device b))"
proof -
  let ?s = "packet_sender b" and ?j = "board_sender_in i b"
  have s: "packet_sender (board_step E X i b) = sender_clk ?j ?s" by (simp add: board_step_def)
  have avail: "dma_send_write_queue_available ?j \<longleftrightarrow> contents (mem_write_command b) \<noteq> []"
    "dma_send_end_program_queue_available ?j \<longleftrightarrow> contents (prog_complete_message b) \<noteq> []"
    "dma_send_read_queue_available ?j \<longleftrightarrow> emptyn (prefetch (board_device b))"
    using outputs(1) q by (simp_all add: board_sender_in_def)
  show "length (request_ends (board_requests i b)) = of_bool (dma_send_end_program_queue_re (packet_sender (board_step E X i b)))"
    unfolding s taken_kinds
    by (cases "tx_busyn ?j ?s"; cases "sender.S ?s") (auto simp: sender_takes_def request_ends_def sender_defs)
  show "length (ends_out b) = of_bool (dma_send_end_program_queue_re ?s)"
    using t outputs(1) [OF q(2)] by (auto simp: ends_out_def traffic_ok_def)
  show "set (request_ends (board_requests i b)) \<subseteq> {OtherReq 4 0}"
    unfolding taken_kinds by (auto simp: sender_takes_def request_ends_def)
  assume "request_ends (board_requests i b) \<noteq> []"
  then show "contents (mem_write_command b) = [] \<and> contents (prog_complete_message b) \<noteq> []
      \<and> sender.S ?s = sender_state.IDLE \<and> \<not> emptyn (prefetch (board_device b))"
    unfolding taken_kinds using avail by (auto simp: sender_takes_def request_ends_def split: if_splits)
qed

lemma board_traffic:
  assumes E: "relu_env E" and b: "resting b" and few: "length (trace (board_step E X) (\<lambda>i. tiles_in) is b) \<le> 510"
    and tx: "transmitter_ok (board_step E X) may is b"
    and b': "b' = run (board_step E X) is b" and rqs: "rqs = trace (board_step E X) board_requests is b"
  shows "traffic_ok (may_be_busy (board_step E X) may is b) b'
     \<and> request_writes rqs = map write_request (trace (board_step E X) (\<lambda>i. writes_out) is b)
     \<and> length (request_ends rqs) = length (trace (board_step E X) (\<lambda>i. ends_out) is b)
         + of_bool (dma_send_end_program_queue_re (packet_sender b'))
     \<and> set (request_ends rqs) \<subseteq> {OtherReq 4 0}"
  using few tx unfolding b' rqs
proof (induction "is" rule: rev_induct)
  case Nil
  then show ?case using traffic_start [OF b] b by (simp add: request_writes_def request_ends_def resting_def)
next
  case (snoc i "is")
  let ?b = "run (board_step E X) is b"
  have few: "length (trace (board_step E X) (\<lambda>i. tiles_in) is b) \<le> 510"
    using snoc.prems(1) trace_concat_le [of "board_step E X" "\<lambda>i. tiles_in" "is" b "[i]"] by linarith
  have tx: "transmitter_ok (board_step E X) may is b" "uart_tx_busy i \<longrightarrow> may_be_busy (board_step E X) may is b"
    using snoc.prems(2) by (simp_all add: transmitter_snoc)
  note IH = snoc.IH [OF few tx(1)]
  note q = board_lists(10,11) [OF E b few refl refl refl]
  note step = traffic_ok_step [OF conjunct1 [OF IH] tx(2) q, of E X] takes_write(1) [OF conjunct1 [OF IH] tx(2) q(1)]
    takes_end(1) [OF conjunct1 [OF IH] q, of i E X]
    takes_end(2) [OF conjunct1 [OF IH] q] takes_end(3) [OF conjunct1 [OF IH] q, of i]
  show ?case
    using IH step by (simp add: trace_snoc run_snoc transmitter_snoc request_writes_def request_ends_def)
qed

section \<open>What is sent\<close>

lemma relu_prefix:
  assumes E: "relu_env E" and d: "device_start d"
  shows "counts_ok (trace (device_clk E 16) (device_pushes E 16) is d)"
    and "\<exists>rest. map of_nat [0..<128]
       = (trace (device_clk E 16) device_reads is d @ in_device (run (device_clk E 16) is d)) @ rest"
proof -
  show counts: "counts_ok (trace (device_clk E 16) (device_pushes E 16) is d)"
    using one_loop_run_counts [OF d relu_program(1) [OF E], of 16] by simp
  have "waiting (control d)" using d by (simp add: device_start_def)
  then obtain rest where rest: "all_pushes E 6 5 True 0 128 16 = trace (device_clk E 16) (device_pushes E 16) is d @ rest"
    using one_loop_prefix [OF _ relu_program(1) [OF E], of _ 16]
    unfolding device_control(2) all_pushes_def loop_pushes_def by auto
  have "push_reads (concat (map relu_round [0..<8]) @ [PushProgEnd]) = map of_nat [0..<128]" by code_simp
  then have "map of_nat [0..<128] = push_reads (trace (device_clk E 16) (device_pushes E 16) is d) @ push_reads rest"
    using rest unfolding relu_pushes [OF E] by (metis push_reads_simps(2))
  then show "\<exists>rest. map of_nat [0..<128]
       = (trace (device_clk E 16) device_reads is d @ in_device (run (device_clk E 16) is d)) @ rest"
    by (simp only: device_lossless(2) [OF d counts]) blast
qed

lemma requests_run:
  "trace (board_step E X) board_requests is b = trace (system_clk E 16) taken (system_ins E X is b) (board_system b)"
  "trace (board_step E X) board_byte is b = trace (system_clk E 16) (system_bytes E 16) (system_ins E X is b) (board_system b)"
proof -
  have "board_requests = (\<lambda>i b. taken (board_system_in i b) (board_system b))"
    "board_byte = (\<lambda>i b. system_bytes E 16 (board_system_in i b) (board_system b))"
    by (simp_all add: fun_eq_iff board_requests_def board_system_step(2))
  then show "trace (board_step E X) board_requests is b = trace (system_clk E 16) taken (system_ins E X is b) (board_system b)"
    "trace (board_step E X) board_byte is b = trace (system_clk E 16) (system_bytes E 16) (system_ins E X is b) (board_system b)"
    using system_run(2) [of E X taken "is" b] system_run(2) [of E X "system_bytes E 16" "is" b] by (simp_all only:)
qed

text \<open>The reads are those of the addresses 0, 1, 2, ...\<close>

lemma board_reads:
  assumes E: "relu_env E" and b: "resting b" and rqs: "rqs = trace (board_step E X) board_requests is b"
  obtains r rest where "r \<le> 128" "read_addresses rqs = map of_nat [0..<r]"
    and "(map of_nat [r..<128] :: 16 word list) = map ucast (in_device (board_device (run (board_step E X) is b))) @ rest"
proof -
  let ?js = "system_ins E X is b" and ?s = "board_system b" and ?d = "board_device (run (board_step E X) is b)"
  let ?is = "trace (system_clk E 16) (\<lambda>i s. [front_input i s]) ?js ?s"
  have d: "device_start (system.front ?s)" using b by (simp add: resting_def top_start_def board_system_def board_device_def)
  have reads: "trace (system_clk E 16) system_reads ?js ?s = trace (device_clk E 16) device_reads ?is (system.front ?s)"
    unfolding system_reads_def by (rule front_run(2))
  have dev: "?d = run (device_clk E 16) ?is (system.front ?s)"
    using system_run(1) [of E X "is" b] front_run(1) [of E 16 ?js ?s] by (metis board_system_def system.select_convs(1))
  obtain rest where rest: "map of_nat [0..<128] = (trace (device_clk E 16) device_reads ?is (system.front ?s) @ in_device ?d) @ rest"
    using relu_prefix(2) [OF E d] unfolding dev by blast
  have a: "read_addresses rqs = map ucast (trace (device_clk E 16) device_reads ?is (system.front ?s))"
    unfolding rqs requests_run(1) read_addresses_trace reads ..
  have "map (ucast :: u18 \<Rightarrow> 16 word) (map of_nat [0..<128]) = map of_nat [0..<128]" by code_simp
  then have all: "map of_nat [0..<128] = read_addresses rqs @ map ucast (in_device ?d) @ map ucast rest"
    unfolding rest a by simp
  define r where "r = length (read_addresses rqs)"
  have "length (map of_nat [0..<128] :: 16 word list) = r + length (map ucast (in_device ?d) @ map ucast rest :: 16 word list)"
    unfolding all r_def by (rule length_append)
  then have r: "r \<le> 128" by simp
  then have "[0..<128] = [0..<r] @ [r..<128]" using upt_add_eq_append [of 0 r "128 - r"] by simp
  then have "map of_nat [0..<r] @ map of_nat [r..<128] = read_addresses rqs @ map ucast (in_device ?d) @ map ucast rest"
    using all by (metis map_append)
  then have "map of_nat [0..<r] = read_addresses rqs \<and> (map of_nat [r..<128] :: 16 word list) = map ucast (in_device ?d) @ map ucast rest"
    by (subst (asm) append_eq_append_conv) (simp_all add: r_def)
  then have "read_addresses rqs = map of_nat [0..<r]" "(map of_nat [r..<128] :: 16 word list) = map ucast (in_device ?d) @ map ucast rest"
    by metis+
  then show thesis using that r by blast
qed

text \<open>Every tile that is taken over is whole.\<close>

lemma board_wide:
  assumes E: "relu_env E" and b: "resting b" and few: "length (trace (board_step E X) (\<lambda>i. tiles_in) is b) \<le> 510"
    and tx: "transmitter_ok (board_step E X) may is b"
    and wide: "\<forall>t \<in> set (trace (board_step E X) (\<lambda>i. tiles_in) is b). length t = 288" and X: "length X = 288"
  shows "always (system_clk E 16) (\<lambda>i s. takes_tile (snd i) (sender s) \<longrightarrow> length (dma_send_write_queue_data2 (snd i)) = 288)
     (system_ins E X is b) (board_system b)"
  using few tx wide
proof (induction "is" rule: rev_induct)
  case (snoc i "is")
  let ?b = "run (board_step E X) is b" and ?ws = "trace (board_step E X) (\<lambda>i. writes_in) is b"
  let ?ts = "trace (board_step E X) (\<lambda>i. tiles_out) is b"
  have few: "length (trace (board_step E X) (\<lambda>i. tiles_in) is b) \<le> 510"
    using snoc.prems(1) trace_concat_le [of "board_step E X" "\<lambda>i. tiles_in" "is" b "[i]"] by linarith
  have tx: "transmitter_ok (board_step E X) may is b" "uart_tx_busy i \<longrightarrow> may_be_busy (board_step E X) may is b"
    using snoc.prems(2) by (simp_all add: transmitter_snoc)
  have wide: "\<forall>t \<in> set (trace (board_step E X) (\<lambda>i. tiles_in) is b). length t = 288"
    using snoc.prems(3) by (simp add: trace_snoc)
  note l = board_lists [OF E b few refl refl refl] and t = conjunct1 [OF board_traffic [OF E b few tx(1) refl refl]]
  have "length (dma_send_write_queue_data2 (board_sender_in i ?b)) = 288"
    if "takes_tile (board_sender_in i ?b) (packet_sender ?b)"
  proof -
    have "contents (mem_write_command ?b) \<noteq> []" using takes_write(2) [OF t tx(2) l(10) that] by simp
    then have "o_data (mem_write_command ?b) \<in> set ?ws" using outputs(2) [OF l(10)] unfolding l(7) [symmetric] by simp
    then obtain a where a: "a < length ?ws" "o_data (mem_write_command ?b) = (of_nat a, if a < 32 then UnopALU (?ts ! a) else X)"
      unfolding arg_cong [OF l(1), of set] by auto
    have "?ts ! a \<in> set (trace (board_step E X) (\<lambda>i. tiles_in) is b)"
      using a(1) l(2) unfolding l(6) [symmetric] by simp
    then have "length (?ts ! a) = 288" using wide by blast
    then show ?thesis using a(2) X length_UnopALU by (simp add: board_sender_in_def)
  qed
  moreover have "system_ins E X (is @ [i]) b = system_ins E X is b @ [board_system_in i ?b]"
    by (simp add: system_ins_def trace_snoc)
  moreover have "run (system_clk E 16) (system_ins E X is b) (board_system b) = board_system ?b"
    by (rule system_run(1) [symmetric])
  ultimately show ?case
    using snoc.IH [OF few tx(1) wide] by (simp add: always_snoc board_system_def board_system_in_def)
qed (simp add: system_ins_def)

lemma board_sends:
  assumes E: "relu_env E" and b: "resting b" and few: "length (trace (board_step E X) (\<lambda>i. tiles_in) is b) \<le> 510"
    and tx: "transmitter_ok (board_step E X) may is b"
    and wide: "\<forall>t \<in> set (trace (board_step E X) (\<lambda>i. tiles_in) is b). length t = 288" and X: "length X = 288"
  shows "trace (board_step E X) board_byte is b @ board_owed (run (board_step E X) is b)
     = concat (map request_bytes (trace (board_step E X) board_requests is b))"
proof -
  have s: "system_start (board_system b)"
    using b by (simp add: resting_def top_start_def system_start_def board_system_def board_device_def)
  have "counts_ok (trace (system_clk E 16) (system_pushes E 16) (system_ins E X is b) (board_system b))"
    unfolding system_pushes_def front_run(2) using relu_prefix(1) [OF E] s by (simp add: system_start_def)
  from packets_conserved [OF s this board_wide [OF assms]] show ?thesis
    by (simp only: requests_run board_owed_def system_run(1))
qed

end
