(* ===== verification/BoardLoop.thy ===== *)
theory BoardLoop
  imports BoardTraffic "HOL-Library.Sublist"
begin

text \<open>
  The board and the host in a closed loop: what the board receives are the host's answers to the requests
  it made so far.
\<close>

section \<open>Requests in step\<close>

text \<open>A list of requests that reads the rows from \<open>r\<close> on and writes those from \<open>w\<close> on, each in order, and reads
  every row before it is written.\<close>

fun in_step :: "nat \<Rightarrow> nat \<Rightarrow> request list \<Rightarrow> bool" where
  "in_step r w [] \<longleftrightarrow> True"
| "in_step r w (ReadReq a # rs) \<longleftrightarrow> a = of_nat r \<and> r < 128 \<and> w \<le> r \<and> in_step (Suc r) w rs"
| "in_step r w (WriteReq a body # rs) \<longleftrightarrow> a = of_nat w \<and> w < 128 \<and> length body = 36 \<and> in_step r (Suc w) rs"
| "in_step r w (OtherReq k a # rs) \<longleftrightarrow> in_step r w rs"

lemma address_simps [simp]:
  "read_addresses [] = []" "read_addresses (ReadReq a # rs) = a # read_addresses rs"
  "read_addresses (WriteReq a body # rs) = read_addresses rs" "read_addresses (OtherReq k a # rs) = read_addresses rs"
  "read_addresses (rs @ rs') = read_addresses rs @ read_addresses rs'"
  "request_writes [] = []" "request_writes (ReadReq a # rs) = request_writes rs"
  "request_writes (WriteReq a body # rs) = WriteReq a body # request_writes rs" "request_writes (OtherReq k a # rs) = request_writes rs"
  "request_writes (rs @ rs') = request_writes rs @ request_writes rs'"
  "request_ends [] = []" "request_ends (ReadReq a # rs) = request_ends rs"
  "request_ends (WriteReq a body # rs) = request_ends rs" "request_ends (OtherReq k a # rs) = OtherReq k a # request_ends rs"
  "request_ends (rs @ rs') = request_ends rs @ request_ends rs'"
  by (simp_all add: read_addresses_def request_writes_def request_ends_def)

lemma in_step_append:
  "in_step r w (rs @ rs') \<longleftrightarrow>
     in_step r w rs \<and> in_step (r + length (read_addresses rs)) (w + length (request_writes rs)) rs'"
  by (induction r w rs rule: in_step.induct) auto

lemma row_number: "a < 128 \<Longrightarrow> unat (of_nat a :: 16 word) = a"
  by (simp add: unat_of_nat take_bit_nat_eq_self)

text \<open>Such requests read the rows as they were.\<close>

lemma in_step_tiles:
  "in_step r w rs \<Longrightarrow> \<forall>j. w \<le> j \<longrightarrow> pinned_mem h ! j = M ! j \<Longrightarrow>
     read_tiles rs h = map (\<lambda>j. ReadResult (row_tile (M ! j))) [r..<r + length (read_addresses rs)]"
proof (induction r w rs arbitrary: h rule: in_step.induct)
  case (2 r w a rs)
  then show ?case by (simp add: row_number upt_conv_Cons del: upt_Suc)
next
  case (3 r w a body rs)
  then show ?case by (simp add: row_number)
qed simp_all

lemma in_step_memory:
  "in_step r w rs \<Longrightarrow> length (pinned_mem h) = 128 \<Longrightarrow>
     pinned_mem (fold apply_request rs h) ! j =
       (if w \<le> j \<and> j < w + length (request_writes rs)
        then (case request_writes rs ! (j - w) of WriteReq _ body \<Rightarrow> map lane_f32 (lanes body) | _ \<Rightarrow> [])
        else pinned_mem h ! j)"
proof (induction r w rs arbitrary: h rule: in_step.induct)
  case (3 r w a body rs)
  let ?h = "apply_request (WriteReq a body) h"
  have IH: "pinned_mem (fold apply_request rs ?h) ! j =
       (if Suc w \<le> j \<and> j < Suc w + length (request_writes rs)
        then (case request_writes rs ! (j - Suc w) of WriteReq _ body \<Rightarrow> map lane_f32 (lanes body) | _ \<Rightarrow> [])
        else pinned_mem ?h ! j)"
    using 3 by (intro "3.IH") simp_all
  show ?case
  proof (cases "j = w")
    case True
    then show ?thesis using IH "3.prems" by (simp add: row_number)
  next
    case False
    then have "w \<le> j \<longleftrightarrow> Suc w \<le> j" "Suc w \<le> j \<Longrightarrow> j - w = Suc (j - Suc w)" by auto
    then show ?thesis using IH "3.prems" False by (simp add: row_number)
  qed
qed auto

text \<open>The end of a program neither asks for anything nor changes anything.\<close>

definition without_ends :: "request list \<Rightarrow> request list" where
  "without_ends rs = filter (\<lambda>r. case r of OtherReq _ _ \<Rightarrow> False | _ \<Rightarrow> True) rs"

lemma without_ends_same:
  "answers (without_ends rs) h = answers rs h" "read_tiles (without_ends rs) h = read_tiles rs h"
  "fold apply_request (without_ends rs) h = fold apply_request rs h"
proof (induction rs arbitrary: h)
  case (Cons q rs)
  {
    case 1
    then show ?case using Cons by (cases q) (simp_all add: without_ends_def)
  next
    case 2
    then show ?case using Cons by (cases q) (simp_all add: without_ends_def)
  next
    case 3
    then show ?case using Cons by (cases q) (simp_all add: without_ends_def)
  }
qed (simp_all add: without_ends_def)

lemma in_step_ok: "in_step r w rs \<Longrightarrow> length (pinned_mem h) = 128 \<Longrightarrow> list_all (request_ok h) (without_ends rs)"
  by (induction r w rs rule: in_step.induct) (simp_all add: without_ends_def row_number)

section \<open>Answers on their way\<close>

lemma receive_prefix:
  assumes "rows_ok h" and "list_all (request_ok h) (without_ends rs)" and "receiver.S s = receiver_state.IDLE" and "widths_ok s"
    and "prefix (bytes_of_line rxs) (answers rs h)"
  shows "prefix (fst (receive s rxs)) (read_tiles rs h)"
proof -
  obtain rest where rest: "answers rs h = bytes_of_line rxs @ rest" using assms(5) by (auto simp: prefix_def)
  have "fst (receive s (map Some (bytes_of_line rxs @ rest))) = read_tiles rs h"
    using receive_answers [OF assms(1-4)] by (simp add: without_ends_same rest)
  then show ?thesis
    using receive_gaps(1) [of rxs "bytes_of_line rxs" s]
    by (metis map_append receive_append(1) prefix_def)
qed

section \<open>A started control unit\<close>

text \<open>The control unit looks at the head of its queue in its first two states only.\<close>

definition same_sources :: "cu \<Rightarrow> env \<Rightarrow> env \<Rightarrow> bool" where
  "same_sources u E E' \<longleftrightarrow>
     icache E = icache E' \<and> prog_apu_formula E = prog_apu_formula E' \<and> prog_loop_ro_data E = prog_loop_ro_data E'
     \<and> (cu.S u = cu_state.IDLE \<longrightarrow> execution_queue_not_empty E = execution_queue_not_empty E')
     \<and> (cu.S u = PREPARE_PROGRAM_0 \<longrightarrow>
          env.execution_queue_start_pc E = env.execution_queue_start_pc E'
          \<and> env.execution_queue_end_pc E = env.execution_queue_end_pc E'
          \<and> env.execution_queue_start_ro_data_addr E = env.execution_queue_start_ro_data_addr E')"

lemma same_sources_clk: "same_sources u E E' \<Longrightarrow> cu_clk E W stall u = cu_clk E' W stall u"
  by (cases "cu.S u")
    (simp_all add: same_sources_def cu_clk_def cu_step_def cu_steps loop_instr_def Let_def)

lemma same_sources_step:
  "same_sources (control (board_device b)) E E' \<Longrightarrow> board_step E X i b = board_step E' X i b"
  using same_sources_clk [of "control (board_device b)" E E']
  by (simp add: board_step_def top_clk_def core_clk_def device_clk_def board_device_def)

definition only_tiles :: "board \<Rightarrow> bool" where
  "only_tiles b \<longleftrightarrow> (\<forall>e \<in> set (strobed (packet_receiver b)). case e of ReadResult _ \<Rightarrow> True | _ \<Rightarrow> False)"

definition started :: "icache_mem \<Rightarrow> bits \<Rightarrow> board \<Rightarrow> bool" where
  "started m dat b \<longleftrightarrow>
     smplfifo_ok (program_execution_queue b) \<and> icache_ram b = m
     \<and> (let u = control (board_device b) in
        cu.S u = cu_state.IDLE \<and> \<not> execution_queue_read_enable u \<and> contents (program_execution_queue b) = [dat]
        \<or> cu.S u = PREPARE_PROGRAM_0 \<and> contents (program_execution_queue b) = [dat]
        \<or> cu.S u \<notin> {cu_state.IDLE, PREPARE_PROGRAM_0})"

lemma started_env:
  assumes "started m dat b"
  shows "same_sources (control (board_device b)) (board_env b) (top_env m dat)"
  using assms outputs(1,2) [of "program_execution_queue b"]
  by (auto simp: started_def same_sources_def board_env_def top_env_def Let_def)

lemma only_tiles_strobes:
  assumes "only_tiles b"
  shows "\<not> enqueue_program_stb (packet_receiver b)" and "fold write_instr (strobed (packet_receiver b)) m = m"
    and "strobed (packet_receiver b) = map ReadResult (tiles_in b)"
  using assms
  by (auto simp: only_tiles_def strobed_def tiles_in_def write_instr_def split: if_splits)

lemma started_step:
  assumes s: "started m dat b" and "only_tiles b" and E: "execution_queue_not_empty E"
  shows "started m dat (board_step E X i b)"
proof -
  let ?u = "control (board_device b)" and ?q = "program_execution_queue b"
  obtain stall where u: "control (board_device (board_step E X i b)) = cu_clk E 16 stall ?u"
    by (simp add: board_device_def board_step_def top_clk_def core_clk_def device_clk_def)
  have q: "program_execution_queue (board_step E X i b) = smplfifo_clk (program_execution_queue_in b) ?q"
    "icache_ram (board_step E X i b) = icache_ram b"
    using only_tiles_strobes [OF assms(2)] by (simp_all add: board_step_def)
  have ok: "smplfifo_ok ?q" using s by (simp add: started_def)
  have c: "contents (smplfifo_clk (program_execution_queue_in b) ?q) = (if execution_queue_read_enable ?u then tl (contents ?q) else contents ?q)"
    unfolding contents_clk [OF ok] using only_tiles_strobes(1) [OF assms(2)]
    by (simp add: list_clk_def accepts_def program_execution_queue_in_def)
  have after: "cu.S ?u \<notin> {cu_state.IDLE} \<Longrightarrow> cu.S (cu_clk E 16 stall ?u) \<notin> {cu_state.IDLE, PREPARE_PROGRAM_0}"
    by (cases "cu.S ?u") (auto simp: cu_clk_def cu_step_def cu_steps Let_def split: instr_type.split)
  show ?thesis
  proof (cases "cu.S ?u = cu_state.IDLE")
    case True
    then have "cu.S (cu_clk E 16 stall ?u) = PREPARE_PROGRAM_0" using E by (simp add: cu_clk_def cu_step_def)
    then show ?thesis
      using s True by (simp add: started_def u q c smplfifo_ok_clk)
  next
    case False
    then show ?thesis using s after by (simp add: started_def u q smplfifo_ok_clk)
  qed
qed

text \<open>From the start of a program on the board runs as if the queue and the memories stayed.\<close>

lemma started_run:
  assumes "started m dat b" and "always (board_clk X) (\<lambda>i. only_tiles) is b"
  shows "run (board_clk X) is b = run (board_step (top_env m dat) X) is b"
    and "trace (board_clk X) f is b = trace (board_step (top_env m dat) X) f is b"
    and "transmitter_ok (board_clk X) may is b = transmitter_ok (board_step (top_env m dat) X) may is b"
proof -
  have "run (board_clk X) is b = run (board_step (top_env m dat) X) is b
     \<and> trace (board_clk X) f is b = trace (board_step (top_env m dat) X) f is b
     \<and> transmitter_ok (board_clk X) may is b = transmitter_ok (board_step (top_env m dat) X) may is b"
    using assms
  proof (induction "is" arbitrary: b may)
    case (Cons i "is")
    have step: "board_clk X i b = board_step (top_env m dat) X i b"
      unfolding board_clk_def by (rule same_sources_step [OF started_env [OF Cons.prems(1)]])
    have "execution_queue_not_empty (top_env m dat)" by (simp add: top_env_def)
    then have "started m dat (board_step (top_env m dat) X i b)"
      using started_step [OF Cons.prems(1)] Cons.prems(2) by simp
    moreover have "always (board_clk X) (\<lambda>i. only_tiles) is (board_step (top_env m dat) X i b)"
      using Cons.prems(2) step by simp
    ultimately show ?case using Cons.IH by (simp add: step)
  qed simp
  then show "run (board_clk X) is b = run (board_step (top_env m dat) X) is b"
    "trace (board_clk X) f is b = trace (board_step (top_env m dat) X) f is b"
    "transmitter_ok (board_clk X) may is b = transmitter_ok (board_step (top_env m dat) X) may is b"
    by simp_all
qed

section \<open>Step by step\<close>

text \<open>The requests of a clock: at most one read and then at most one of the others.\<close>

lemma requests_shape:
  obtains "board_requests i b = []" | a where "board_requests i b = [ReadReq a]"
    | q where "board_requests i b = [q]" "\<nexists>a. q = ReadReq a"
    | a q where "board_requests i b = [ReadReq a, q]" "\<nexists>a. q = ReadReq a"
proof -
  let ?t = "sender_takes (board_sender_in i b) (packet_sender b)"
  have t: "?t = [] \<or> (\<exists>q. ?t = [q] \<and> (\<nexists>a. q = ReadReq a))" by (auto simp: sender_takes_def)
  define as where "as = device_reads (front_input (board_system_in i b) (board_system b)) (system.front (board_system b))"
  have as: "taken_reads (board_system_in i b) (board_system b) = map (\<lambda>a. ReadReq (ucast a)) as" "length as \<le> 1"
    by (simp_all add: taken_reads_def as_def) (simp add: device_reads_def fifo_outs_def)
  have r: "board_requests i b = map (\<lambda>a. ReadReq (ucast a)) as @ ?t"
    using taken_kinds(3) [of i b] by (simp add: board_requests_def taken_def as(1)) (simp add: board_system_def)
  show thesis
  proof (cases as)
    case Nil
    then show ?thesis using t r that(1,3) by auto
  next
    case (Cons a as')
    then have "as' = []" using as(2) by simp
    then show ?thesis using t r that(2,4) Cons by auto
  qed
qed

lemma new_in_step:
  assumes "read_addresses (board_requests i b) = map of_nat [r..<r']" and "r' \<le> 128" and "w \<le> r"
    and "\<And>q. q \<in> set (request_writes (board_requests i b)) \<Longrightarrow> \<exists>body. q = WriteReq (of_nat w) body \<and> w < 128 \<and> length body = 36"
  shows "in_step r w (board_requests i b)"
proof (rule requests_shape [of i b])
  assume "board_requests i b = []"
  then show ?thesis by simp
next
  fix a
  assume q: "board_requests i b = [ReadReq a]"
  then have "map of_nat [r..<r'] = [a]" using assms(1) by simp
  then have "r < r'" "a = of_nat r" by (cases "r < r'"; simp add: upt_conv_Cons)+
  then show ?thesis using assms(2,3) by (simp add: q)
next
  fix q
  assume q: "board_requests i b = [q]" "\<nexists>a. q = ReadReq a"
  then show ?thesis using assms(4) by (cases q) simp_all
next
  fix a q
  assume q: "board_requests i b = [ReadReq a, q]" "\<nexists>a. q = ReadReq a"
  then have "map of_nat [r..<r'] = [a]" using assms(1) by (cases q) simp_all
  then have "r < r'" "a = of_nat r" by (cases "r < r'"; simp add: upt_conv_Cons)+
  then show ?thesis using assms(2-4) q by (cases q) simp_all
qed

text \<open>What has been written so far.\<close>

lemma board_writes:
  assumes E: "relu_env E" and b: "resting b" and few: "length (trace (board_step E X) (\<lambda>i. tiles_in) is b) \<le> 510"
    and tx: "transmitter_ok (board_step E X) may is b"
    and rqs: "rqs = trace (board_step E X) board_requests is b" and ts: "ts = trace (board_step E X) (\<lambda>i. tiles_in) is b"
  shows "request_writes rqs = map (\<lambda>a. WriteReq (of_nat a) (bits_bytes (if a < 32 then UnopALU (ts ! a) else X))) [0..<length (request_writes rqs)]"
    and "length (request_writes rqs) \<le> length ts" and "length (request_writes rqs) \<le> 128"
proof -
  let ?wo = "trace (board_step E X) (\<lambda>i. writes_out) is b" and ?ws = "trace (board_step E X) (\<lambda>i. writes_in) is b"
  let ?to = "trace (board_step E X) (\<lambda>i. tiles_out) is b"
  note l = board_lists [OF E b few refl refl refl]
  have w: "request_writes rqs = map write_request ?wo" using board_traffic [OF E b few tx refl rqs] by simp
  have le: "length ?wo \<le> length ?ws" unfolding l(7) [symmetric] by simp
  moreover have "length ?to \<le> length ts" unfolding ts l(6) [symmetric] by simp
  ultimately show "length (request_writes rqs) \<le> length ts" "length (request_writes rqs) \<le> 128"
    using l(2,3) by (simp_all add: w)
  have "?wo ! a = (of_nat a, if a < 32 then UnopALU (ts ! a) else X)" if a: "a < length ?wo" for a
  proof -
    have "?wo ! a = ?ws ! a" using a unfolding l(7) [symmetric] by (simp add: nth_append)
    also have "\<dots> = (of_nat a, if a < 32 then UnopALU (?to ! a) else X)"
      using arg_cong [OF l(1), of "\<lambda>xs. xs ! a"] a le by simp
    also have "?to ! a = ts ! a" using a le l(2) unfolding ts l(6) [symmetric] by (simp add: nth_append)
    finally show ?thesis .
  qed
  then show "request_writes rqs = map (\<lambda>a. WriteReq (of_nat a) (bits_bytes (if a < 32 then UnopALU (ts ! a) else X))) [0..<length (request_writes rqs)]"
    by (intro nth_equalityI) (simp_all add: w write_request_def)
qed

lemma board_in_step:
  assumes E: "relu_env E" and b: "resting b" and few: "length (trace (board_step E X) (\<lambda>i. tiles_in) (is @ [i]) b) \<le> 510"
    and tx: "transmitter_ok (board_step E X) may (is @ [i]) b"
    and wide: "\<forall>t \<in> set (trace (board_step E X) (\<lambda>i. tiles_in) (is @ [i]) b). length t = 288" and X: "length X = 288"
    and rqs: "rqs = trace (board_step E X) board_requests is b"
    and le: "length (request_writes rqs) \<le> length (read_addresses rqs)" and IH: "in_step 0 0 rqs"
  shows "in_step 0 0 (rqs @ board_requests i (run (board_step E X) is b))"
proof -
  let ?new = "board_requests i (run (board_step E X) is b)" and ?ts = "trace (board_step E X) (\<lambda>i. tiles_in) (is @ [i]) b"
  let ?w = "length (request_writes rqs)" and ?r = "length (read_addresses rqs)"
  have all: "rqs @ ?new = trace (board_step E X) board_requests (is @ [i]) b" by (simp add: rqs trace_snoc)
  obtain r' where r': "r' \<le> 128" "read_addresses (rqs @ ?new) = map of_nat [0..<r']" using board_reads [OF E b all] by metis
  have n: "?r + length (read_addresses ?new) = r'" using arg_cong [OF r'(2), of length] by simp
  have "read_addresses ?new = drop ?r (read_addresses (rqs @ ?new))" by simp
  also have "\<dots> = map of_nat [?r..<r']" unfolding r'(2) drop_map drop_upt by simp
  finally have reads: "read_addresses ?new = map of_nat [?r..<r']" .
  have "\<exists>body. q = WriteReq (of_nat ?w) body \<and> ?w < 128 \<and> length body = 36" if q: "q \<in> set (request_writes ?new)" for q
  proof -
    have one: "request_writes ?new = [q]" using q by (cases rule: requests_shape [of i "run (board_step E X) is b"]) (auto simp: request_writes_def split: if_splits)
    note w = board_writes [OF E b few tx all refl]
    have "length (request_writes (rqs @ ?new)) = Suc ?w" by (simp add: one)
    then have "q = WriteReq (of_nat ?w) (bits_bytes (if ?w < 32 then UnopALU (?ts ! ?w) else X))" "?w < 128" "?w < length ?ts"
      using arg_cong [OF w(1), of "\<lambda>xs. xs ! ?w"] w(2,3) by (simp_all add: one nth_append)
    moreover have "length (?ts ! ?w) = 288" using wide calculation(3) by simp
    ultimately show ?thesis using X by (simp add: length_UnopALU)
  qed
  then have "in_step ?r ?w ?new" by (rule new_in_step [OF reads r'(1) le])
  then show ?thesis using IH by (simp add: in_step_append)
qed

section \<open>The loop\<close>

lemma events_run:
  assumes "\<And>i b. packet_receiver (step i b) = clk (packet_receiver b) (rx i)"
  shows "trace step (\<lambda>i b. strobed (packet_receiver b)) is b @ strobed (packet_receiver (run step is b))
     = strobed (packet_receiver b) @ fst (receive (packet_receiver b) (map rx is))"
    and "packet_receiver (run step is b) = snd (receive (packet_receiver b) (map rx is))"
proof -
  show "packet_receiver (run step is b) = snd (receive (packet_receiver b) (map rx is))"
    by (induction "is" arbitrary: b) (simp_all add: assms Let_def)
  show "trace step (\<lambda>i b. strobed (packet_receiver b)) is b @ strobed (packet_receiver (run step is b))
     = strobed (packet_receiver b) @ fst (receive (packet_receiver b) (map rx is))"
  proof (induction "is" arbitrary: b)
    case (Cons i "is")
    then show ?case using Cons.IH [of "step i b"] by (simp add: assms Let_def)
  qed simp
qed

text \<open>What the board has received so far is a beginning of what the host sends in answer to the requests of the
  packets the board has begun so far, after the bytes \<open>bs\<close>.\<close>

definition answered :: "bits \<Rightarrow> byte list \<Rightarrow> host \<Rightarrow> board_in list \<Rightarrow> board \<Rightarrow> bool" where
  "answered X bs h is b \<longleftrightarrow>
     (\<forall>n \<le> length is. prefix (bytes_of_line (map rx (take n is)))
        (bs @ answers (trace (board_clk X) board_requests (take n is) b) h))"

lemma answered_snoc:
  "answered X bs h (is @ [i]) b \<longleftrightarrow>
     answered X bs h is b \<and> prefix (bytes_of_line (map rx (is @ [i]))) (bs @ answers (trace (board_clk X) board_requests (is @ [i]) b) h)"
  unfolding answered_def by (auto simp: le_Suc_eq)

text \<open>A board that finds the program in its memories, and a host with 128 rows.\<close>

definition loop_start :: "icache_mem \<Rightarrow> bits \<Rightarrow> board \<Rightarrow> host \<Rightarrow> bool" where
  "loop_start m dat b h \<longleftrightarrow>
     relu_env (top_env m dat) \<and> resting b \<and> started m dat b
     \<and> strobed (packet_receiver b) = [] \<and> receiver.S (packet_receiver b) = receiver_state.IDLE \<and> widths_ok (packet_receiver b)
     \<and> rows_ok h \<and> length (pinned_mem h) = 128"

text \<open>The tile events of the first rows.\<close>

definition row_events :: "host \<Rightarrow> nat \<Rightarrow> event list" where
  "row_events h k = map (\<lambda>j. ReadResult (row_tile (pinned_mem h ! j))) [0..<k]"

definition in_loop :: "bits \<Rightarrow> board_in list \<Rightarrow> board \<Rightarrow> host \<Rightarrow> bool" where
  "in_loop X is b h \<longleftrightarrow>
     always (board_clk X) (\<lambda>i. only_tiles) is b \<and> only_tiles (run (board_clk X) is b)
     \<and> in_step 0 0 (trace (board_clk X) board_requests is b)
     \<and> (\<exists>k \<le> length (read_addresses (trace (board_clk X) board_requests is b)).
          fst (receive (packet_receiver b) (map rx is)) = row_events h k)"

lemma prefix_rows:
  assumes "prefix es (row_events h r)"
  shows "\<exists>k \<le> r. es = row_events h k"
proof (intro exI conjI)
  show "length es \<le> r" using prefix_length_le [OF assms] by (simp add: row_events_def)
  have "es = take (length es) (row_events h r)" using assms by (metis append_eq_conv_conj prefixE)
  then show "es = row_events h (length es)" using \<open>length es \<le> r\<close> by (simp add: row_events_def take_map)
qed

lemma length_row_tile: "length row = 16 \<Longrightarrow> length (row_tile row) = 288"
proof -
  assume "length row = 16"
  then have "length (concat (map (uint_bits 18) (map f32_lane row))) = 288" by (simp only: length_lane_bits length_map)
  then show ?thesis by (simp add: row_tile_def o_def)
qed

text \<open>The tiles that the board's queue has taken in.\<close>

lemma loop_tiles:
  assumes s: "loop_start m dat b h" and "always (board_clk X) (\<lambda>i. only_tiles) (is @ [i]) b"
    and "fst (receive (packet_receiver b) (map rx is)) = row_events h k"
  shows "trace (board_clk X) (\<lambda>i. tiles_in) (is @ [i]) b = map (\<lambda>j. row_tile (pinned_mem h ! j)) [0..<k]"
proof -
  have "map ReadResult (trace (board_clk X) (\<lambda>i. tiles_in) (is @ [i]) b)
      = trace (board_clk X) (\<lambda>i b. strobed (packet_receiver b)) (is @ [i]) b"
    using assms(2) by (induction "is @ [i]" arbitrary: "is" b) (auto simp: only_tiles_strobes(3) Cons_eq_append_conv)
  also have "\<dots> = fst (receive (packet_receiver b) (map rx is))"
    using events_run(1) [of "board_clk X" "is" b] s
    by (simp add: trace_snoc loop_start_def) (simp add: board_clk_def board_step_def)
  also have "\<dots> = map ReadResult (map (\<lambda>j. row_tile (pinned_mem h ! j)) [0..<k])" by (simp add: assms(3) row_events_def)
  finally show ?thesis by (rule map_injective) (simp add: inj_def)
qed

lemma loop_run:
  assumes s: "loop_start m dat b h" and X: "length X = 288"
    and tx: "transmitter_ok (board_clk X) may is b" and host: "answered X [] h is b"
  shows "in_loop X is b h"
  using tx host
proof (induction "is" rule: rev_induct)
  case Nil
  have "row_events h 0 = []" by (simp add: row_events_def)
  then show ?case using s by (auto simp: in_loop_def loop_start_def only_tiles_def)
next
  case (snoc i "is")
  let ?E = "top_env m dat" and ?is = "is @ [i]" and ?b = "run (board_clk X) is b"
  let ?rqs = "trace (board_clk X) board_requests is b" and ?new = "board_requests i (run (board_clk X) is b)"
  have E: "relu_env ?E" and b: "resting b" and st: "started m dat b" using s by (simp_all add: loop_start_def)
  have h: "rows_ok h" "length (pinned_mem h) = 128" using s by (simp_all add: loop_start_def)
  have IH: "in_loop X is b h" using snoc by (simp add: transmitter_snoc answered_snoc)
  obtain k where k: "k \<le> length (read_addresses ?rqs)" "fst (receive (packet_receiver b) (map rx is)) = row_events h k"
    using IH by (auto simp: in_loop_def)
  have tiles: "always (board_clk X) (\<lambda>i. only_tiles) ?is b" and step0: "in_step 0 0 ?rqs"
    using IH by (simp_all add: in_loop_def always_snoc)
  have tiles0: "always (board_clk X) (\<lambda>i. only_tiles) is b" using tiles by (simp add: always_snoc)
  note same = started_run [OF st tiles] and same0 = started_run [OF st tiles0]
  have ts: "trace (board_step ?E X) (\<lambda>i. tiles_in) ?is b = map (\<lambda>j. row_tile (pinned_mem h ! j)) [0..<k]"
    using loop_tiles [OF s tiles k(2)] by (simp only: same(2))
  have r128: "length (read_addresses ?rqs) \<le> 128"
    using board_reads [OF E b same0(2) [of board_requests]] by (metis length_map length_upt minus_nat.diff_0)
  have few: "length (trace (board_step ?E X) (\<lambda>i. tiles_in) ?is b) \<le> 510" using k(1) r128 by (simp add: ts)
  have wide: "\<forall>t \<in> set (trace (board_step ?E X) (\<lambda>i. tiles_in) ?is b). length t = 288"
    using k(1) r128 h by (auto simp: ts rows_ok_def intro!: length_row_tile)
  have tx1: "transmitter_ok (board_step ?E X) may ?is b" using snoc.prems(1) by (simp only: same(3))
  then have tx: "transmitter_ok (board_step ?E X) may ?is b" "transmitter_ok (board_step ?E X) may is b"
    by (simp_all add: transmitter_snoc)
  have few0: "length (trace (board_step ?E X) (\<lambda>i. tiles_in) is b) \<le> 510"
    using few trace_concat_le [of "board_step ?E X" "\<lambda>i. tiles_in" "is" b "[i]"] by linarith
  have "length (request_writes ?rqs) \<le> length (trace (board_step ?E X) (\<lambda>i. tiles_in) is b)"
    by (rule board_writes(2) [OF E b few0 tx(2) same0(2) refl])
  also have "\<dots> \<le> length (read_addresses ?rqs)"
    using trace_concat_le [of "board_step ?E X" "\<lambda>i. tiles_in" "is" b "[i]"] k(1) by (simp add: ts)
  finally have le: "length (request_writes ?rqs) \<le> length (read_addresses ?rqs)" .
  have step: "in_step 0 0 (?rqs @ ?new)"
    using board_in_step [OF E b few tx(1) wide X same0(2) le step0] by (simp only: same0(1))
  have all: "trace (board_clk X) board_requests ?is b = ?rqs @ ?new" by (simp add: trace_snoc)
  have "prefix (bytes_of_line (map rx ?is)) (answers (?rqs @ ?new) h)"
    using snoc.prems(2) by (simp add: answered_snoc all)
  then have "prefix (fst (receive (packet_receiver b) (map rx ?is))) (row_events h (length (read_addresses (?rqs @ ?new))))"
    using receive_prefix [OF h(1) in_step_ok [OF step h(2)]] s in_step_tiles [OF step, of h "pinned_mem h"]
    by (simp add: loop_start_def row_events_def)
  then obtain k' where k': "k' \<le> length (read_addresses (?rqs @ ?new))" "fst (receive (packet_receiver b) (map rx ?is)) = row_events h k'"
    using prefix_rows by blast
  have "trace (board_clk X) (\<lambda>i b. strobed (packet_receiver b)) ?is b @ strobed (packet_receiver (run (board_clk X) ?is b)) = row_events h k'"
    using events_run(1) [of "board_clk X" ?is b] s k'(2) by (simp add: board_clk_def board_step_def loop_start_def)
  then have "set (strobed (packet_receiver (run (board_clk X) ?is b))) \<subseteq> set (row_events h k')" by (metis set_append Un_upper2)
  then have "only_tiles (run (board_clk X) ?is b)" by (auto simp: only_tiles_def row_events_def)
  then show ?case using tiles step k' unfolding in_loop_def all by blast
qed

end
