(* ===== verification/BoardStart.thy ===== *)
theory BoardStart
  imports BoardLoop
begin

text \<open>
  The board while it waits: nothing moves until a program is in its queue.  So the host's first two packets
  leave the program in its memories and the start command in its queue.
\<close>

section \<open>Waiting\<close>

lemma iq_rests:
  assumes "\<not> q_re i" and "\<not> q_we i" and "empty q" and "no_output q"
  shows "iq_clk i q = q"
proof -
  have "varray_clk (varr_in t i q) v = v" for t v using assms(1,2) by (simp add: varray_clk_def varr_in_def)
  then show ?thesis
    using assms by (simp add: iq_clk_def Let_def no_output_def empty_next_def)
qed

lemma prefetch_rests: "fifo_step (False, None) q = q"
  by (simp add: fifo_step_def fifo_clk_def fifo_read_def fifo_write_def)

lemma core_rests:
  assumes d: "device_start (dev c)" and "iq_start (queue c)" and "no_output (queue c)"
    and "\<not> execution_queue_read_enable (control (dev c))" and "\<not> execution_queue_not_empty E"
  shows "core_clk E W (frozen, False) c = c"
proof -
  let ?u = "control (dev c)"
  have u: "cu.S ?u = cu_state.IDLE" "\<not> queue_we ?u" and we: "\<not> prefetch_command_we (dev c)"
    using d by (simp_all add: device_start_def waiting_def)
  have "cu_clk E W stall ?u = ?u" for stall using u(1) assms(4,5) by (simp add: cu_clk_def cu_step_def)
  moreover have "prefetch_command ?u = None" using u(2) by (simp add: prefetch_command_def)
  ultimately have dev: "device_clk E W (stall, False) (dev c) = dev c" for stall
    using we by (simp add: device_clk_def device_write_def prefetch_rests)
  have e: "empty (queue c)" using assms(2) by (simp add: iq_start_def)
  have "iq_clk (queue_input frozen c) (queue c) = queue c"
    by (rule iq_rests [OF _ _ e assms(3)]) (use e u(2) in \<open>simp_all add: queue_input_def q_re_wire_def Let_def\<close>)
  then show ?thesis by (simp add: core_clk_def dev)
qed

lemma exec_rests:
  assumes "\<not> freeze i" and "\<not> is_write_back (dma_stage_1_instr i)"
    and "length (single_tile_slot s) = 32" and "length (regfile_mem s) = 64" and "\<not> is_write_back (dma_stage_2_instr s)"
  shows "length (single_tile_slot (exec_clk X i s)) = 32" and "length (regfile_mem (exec_clk X i s)) = 64"
    and "\<not> is_write_back (dma_stage_2_instr (exec_clk X i s))" and "\<not> is_write_back (dma_stage_3_instr (exec_clk X i s))"
  using assms by (simp_all add: exec_clk_def tiles_after_def regs_after_def Let_def)

lemma top_rests:
  assumes s: "top_start s" and "\<not> execution_queue_read_enable (control (dev (front s)))" and "\<not> execution_queue_not_empty E"
    and "\<not> top_in.dma_send_read_queue_re i"
  shows "top_start (top_clk E W X i s)" and "control (dev (front (top_clk E W X i s))) = control (dev (front s))"
    and "\<not> dma_busy i s" and "fetched i s = []" and "written_back i s = []" and "program_ends i s = []"
proof -
  let ?q = "queue (front s)"
  have parts: "device_start (dev (front s))" "iq_start ?q" "no_output ?q" "length (single_tile_slot (pipes s)) = 32"
    "length (regfile_mem (pipes s)) = 64" "\<not> is_write_back (dma_stage_2_instr (pipes s))" "\<not> is_write_back (dma_stage_3_instr (pipes s))"
    using s by (simp_all add: top_start_def)
  have none: "\<not> is_fetch (out_dma_instr ?q)" "\<not> is_write_back (out_dma_instr ?q)" "\<not> out_prog_end_valid ?q"
    using parts(3) by (simp_all add: no_output_def is_fetch_def is_write_back_def)
  show nb: "\<not> dma_busy i s" and "fetched i s = []" "written_back i s = []" "program_ends i s = []"
    using none parts(7) by (simp_all add: dma_busy_def fetched_def written_back_def program_ends_def L3_cache_read_enable_def
        packet_send_fifo_mem_write_command_we_def prog_end_instr_valid_def)
  have f: "front (top_clk E W X i s) = front s"
    using core_rests [OF parts(1-3) assms(2,3)] assms(4) by (simp add: top_clk_def)
  then show "control (dev (front (top_clk E W X i s))) = control (dev (front s))" by simp
  have p: "pipes (top_clk E W X i s) = exec_clk X (pipeline_input i s) (pipes s)" by (simp add: top_clk_def)
  have "\<not> freeze (pipeline_input i s)" "\<not> is_write_back (dma_stage_1_instr (pipeline_input i s))"
    using nb none(2) by (simp_all add: pipeline_input_def)
  from exec_rests [OF this parts(4,5,6)] show "top_start (top_clk E W X i s)"
    using parts by (simp add: top_start_def f p)
qed

lemma empty_clk:
  assumes "smplfifo_ok q" and "contents q = []" and "\<not> i_reset j" and "\<not> o_err q"
  shows "smplfifo_ok (smplfifo_clk j q)" and "contents (smplfifo_clk j q) = (if i_wr j then [i_data j] else [])"
    and "\<not> o_err (smplfifo_clk j q)"
  using assms by (simp_all add: smplfifo_ok_clk contents_clk list_clk_def accepts_def err_step)

lemma sender_rests:
  assumes "sender.S s = sender_state.IDLE" and "\<not> dma_send_read_queue_available j"
    and "\<not> dma_send_write_queue_available j" and "\<not> dma_send_end_program_queue_available j"
  shows "sender_clk j s = clear_outputs s" and "sender_takes j s = []"
  using assms by (simp_all add: sender_clk_def sender_idle_def clear_outputs_def sender_takes_def Let_def)

text \<open>One clock: without tiles nothing happens but what the receiver does to the memory and the program queue.\<close>

lemma resting_step:
  assumes b: "resting b" and q: "contents (program_execution_queue b) = []" and tile: "\<not> mem_read_result_stb (packet_receiver b)"
  shows "resting (board_clk X i b)" and "board_requests i b = []" and "board_byte i b = []"
    and "contents (program_execution_queue (board_clk X i b))
      = (if enqueue_program_stb (packet_receiver b) then [enqueue_program_dat (packet_receiver b)] else [])"
    and "control (board_device (board_clk X i b)) = control (board_device b)"
proof -
  let ?b = "board_clk X i b" and ?s = "packet_sender b" and ?j = "board_sender_in i b"
  have top: "top_start (machine b)" "\<not> execution_queue_read_enable (control (dev (front (machine b))))"
    and ok: "smplfifo_ok (program_execution_queue b)" "smplfifo_ok (l3_cache b)" "contents (l3_cache b) = []"
      "smplfifo_ok (mem_write_command b)" "contents (mem_write_command b) = []"
      "smplfifo_ok (prog_complete_message b)" "contents (prog_complete_message b) = []"
    and s: "sender.S ?s = sender_state.IDLE" "\<not> sender.dma_send_read_queue_re ?s" "\<not> sender.dma_send_write_queue_re ?s"
      "\<not> dma_send_end_program_queue_re ?s"
    and err: "\<not> o_err (program_execution_queue b)" "\<not> o_err (l3_cache b)" "\<not> o_err (mem_write_command b)" "\<not> o_err (prog_complete_message b)"
    using b by (simp_all add: resting_def board_device_def board_error_def)
  have ne: "\<not> execution_queue_not_empty (board_env b)" using outputs(1) [OF ok(1)] q by (simp add: board_env_def)
  have nr: "\<not> top_in.dma_send_read_queue_re (board_top_in b)" using s by (simp add: board_top_in_def)
  note rest = top_rests [OF top ne nr]
  have "\<not> emptyn (prefetch (board_device b))"
    using top(1) by (simp add: top_start_def device_start_def board_device_def emptyn_def fifo_size_def)
  then have avail: "\<not> dma_send_read_queue_available ?j" "\<not> dma_send_write_queue_available ?j" "\<not> dma_send_end_program_queue_available ?j"
    using ok by (simp_all add: board_sender_in_def outputs(1))
  note sender = sender_rests [OF s(1) avail]
  have ins: "\<not> i_wr (l3_cache_in b)" "\<not> i_wr (mem_write_command_in b)" "\<not> i_wr (prog_complete_message_in b)"
    using rest(5,6) tile
    by (auto simp: l3_cache_in_def mem_write_command_in_def prog_complete_message_in_def written_back_def program_ends_def
        freeze_wire_def board_top_in_def split: if_splits)
  note queues = empty_clk [OF ok(1) q no_resets(4) err(1)] empty_clk [OF ok(2,3) no_resets(1) err(2)]
    empty_clk [OF ok(4,5) no_resets(2) err(3)] empty_clk [OF ok(6,7) no_resets(3) err(4)]
  show "control (board_device ?b) = control (board_device b)"
    using rest(2) by (simp add: board_device_def board_clk_def board_step_def)
  then have "\<not> execution_queue_read_enable (control (board_device ?b))" using top(2) by (simp add: board_device_def)
  then show "resting ?b"
    unfolding resting_def board_error_def
    using rest(1) queues ins s by (simp add: board_clk_def board_step_def sender(1) clear_outputs_def)
  show "contents (program_execution_queue ?b)
      = (if enqueue_program_stb (packet_receiver b) then [enqueue_program_dat (packet_receiver b)] else [])"
    using queues(2) by (simp add: board_clk_def board_step_def) (simp add: program_execution_queue_in_def)
  show "board_byte i b = []" by (simp add: board_byte_def sender(1) sender_byte_def clear_outputs_def)
  have "taken_reads (board_system_in i b) (board_system b) = []"
    using s by (simp add: taken_reads_def device_reads_def fifo_outs_def front_input_def board_system_def)
  then show "board_requests i b = []"
    using sender(2) taken_kinds(3) [of i b] by (simp add: board_requests_def taken_def) (simp add: board_system_def)
qed

section \<open>The first two packets\<close>

definition start_bytes :: "byte list" where
  "start_bytes = (29 # 0 # 6 # relu_fast_prog_instructions) @ [2, 0, 0, 6, 0, 13]"

lemma host_starts:
  "upload_prog 0 6 h = Inr (sendall (29 # 0 # 6 # relu_fast_prog_instructions) h)"
  "start_prog 0 6 13 h = Inr (sendall [2, 0, 0, 6, 0, 13] h)"
proof -
  have "upload_packet relu_fast_prog_instructions 6 = Inr (29 # 0 # 6 # relu_fast_prog_instructions)"
    "start_packet 0 6 13 = Inr [2, 0, 0, 6, 0, 13]"
    by code_simp+
  then show "upload_prog 0 6 h = Inr (sendall (29 # 0 # 6 # relu_fast_prog_instructions) h)"
    "start_prog 0 6 13 h = Inr (sendall [2, 0, 0, 6, 0, 13] h)"
    by (simp_all add: upload_prog_def start_prog_def)
qed

lemma start_bytes_sent:
  assumes "upload_prog 0 6 h = Inr h1" and "start_prog 0 6 13 h1 = Inr h2"
  shows "sent h2 = sent h @ start_bytes" and "pinned_mem h2 = pinned_mem h"
  using assms by (auto simp: host_starts sendall_def start_bytes_def)

definition write_events :: "event list" where
  "write_events = map (\<lambda>k. WriteInstr (6 + of_nat k) (fake_icache (6 + of_nat k))) [0..<7]"

text \<open>Only the last byte starts the program.\<close>

lemma last_byte_starts:
  assumes "receiver.S s = receiver_state.IDLE"
  shows "fst (receive s (map Some (butlast start_bytes))) = write_events"
proof -
  have h: "take_bit 2 (29 :: byte) = 1" "uint (drop_bit 2 (29 :: byte)) = int 7" "(0::nat) < 7" "(7::nat) < 64"
    "length relu_fast_prog_instructions = 2 * 7"
    by code_simp+
  note one = receive_upload_packet [OF assms h, of 0 6]
  have w: "map (\<lambda>j. WriteInstr (word_cat (0 :: byte) (6 :: byte) + of_nat j) (words_of relu_fast_prog_instructions ! j)) [0..<7]
      = write_events"
    unfolding write_events_def by code_simp
  have "take_bit 2 (2 :: byte) = 2" by code_simp
  then have "fst (receive r (map Some [2, 0, 0, 6, 0])) = []" if "receiver.S r = receiver_state.IDLE" for r
    using that by (simp add: clk_def receive_defs strobed_def Let_def)
  moreover have b: "butlast start_bytes = (29 # 0 # 6 # relu_fast_prog_instructions) @ [2, 0, 0, 6, 0]"
    by (simp add: start_bytes_def butlast_append)
  ultimately show ?thesis
    using one w by (simp only: b map_append receive_append append_Nil2)
qed

lemma bytes_of_line_append: "bytes_of_line (xs @ ys) = bytes_of_line xs @ bytes_of_line ys"
proof (induction xs)
  case (Cons x xs)
  then show ?case by (cases x) (simp_all add: bytes_of_line_def map_filter_simps)
qed (simp add: bytes_of_line_def map_filter_simps)

lemma split_line:
  "bytes_of_line xs = bs @ c # cs \<Longrightarrow>
     \<exists>ys zs. xs = ys @ Some c # zs \<and> bytes_of_line ys = bs \<and> bytes_of_line zs = cs"
proof (induction xs arbitrary: bs)
  case (Cons x xs)
  show ?case
  proof (cases x)
    case None
    then have "bytes_of_line xs = bs @ c # cs" using Cons.prems by (simp add: bytes_of_line_def map_filter_simps)
    then obtain ys zs where "xs = ys @ Some c # zs" "bytes_of_line ys = bs" "bytes_of_line zs = cs" using Cons.IH by blast
    then show ?thesis using None
      by (intro exI [of _ "None # ys"] exI [of _ zs]) (simp add: bytes_of_line_def map_filter_simps)
  next
    case (Some d)
    then have d: "d # bytes_of_line xs = bs @ c # cs" using Cons.prems by (simp add: bytes_of_line_def map_filter_simps)
    show ?thesis
    proof (cases bs)
      case Nil
      then show ?thesis using d Some
        by (intro exI [of _ "[]"] exI [of _ xs]) (simp add: bytes_of_line_def map_filter_simps)
    next
      case (Cons e es)
      then have "bytes_of_line xs = es @ c # cs" using d by simp
      then obtain ys zs where "xs = ys @ Some c # zs" "bytes_of_line ys = es" "bytes_of_line zs = cs" using Cons.IH by blast
      then show ?thesis using Some d Cons
        by (intro exI [of _ "Some d # ys"] exI [of _ zs]) (simp add: bytes_of_line_def map_filter_simps)
    qed
  qed
qed (simp add: bytes_of_line_def map_filter_simps)

section \<open>Until the program starts\<close>

definition board_start :: "board \<Rightarrow> bool" where
  "board_start b \<longleftrightarrow>
     resting b \<and> contents (program_execution_queue b) = [] \<and> strobed (packet_receiver b) = []
     \<and> receiver.S (packet_receiver b) = receiver_state.IDLE \<and> widths_ok (packet_receiver b)"

definition only_writes :: "event list \<Rightarrow> bool" where
  "only_writes es \<longleftrightarrow> (\<forall>e \<in> set es. case e of WriteInstr _ _ \<Rightarrow> True | _ \<Rightarrow> False)"

lemma only_writes_append: "only_writes (es @ es') \<longleftrightarrow> only_writes es \<and> only_writes es'"
  by (auto simp: only_writes_def)

lemma only_writes_strobes:
  "only_writes (strobed r) \<Longrightarrow> \<not> mem_read_result_stb r \<and> \<not> enqueue_program_stb r"
  by (auto simp: only_writes_def strobed_def split: if_splits)

lemma board_receiver: "packet_receiver (board_clk X i b) = clk (packet_receiver b) (rx i)"
  by (simp add: board_clk_def board_step_def)

lemma strobes_among:
  "strobed (packet_receiver b) = [] \<Longrightarrow>
     \<exists>es. fst (receive (packet_receiver b) (map rx is)) = es @ strobed (packet_receiver (run (board_clk X) is b))"
  using events_run(1) [of "board_clk X" "is" b]
  by (intro exI [of _ "trace (board_clk X) (\<lambda>i b. strobed (packet_receiver b)) is b"]) (simp add: board_receiver)

lemma events_snoc:
  "fst (receive (packet_receiver b) (map rx (is @ [i])))
     = fst (receive (packet_receiver b) (map rx is)) @ strobed (packet_receiver (board_clk X i (run (board_clk X) is b)))"
  using events_run(2) [of "board_clk X" "is" b] by (simp add: receive_append board_receiver Let_def)

text \<open>While only instructions are written the board rests.\<close>

lemma waiting_run:
  assumes b: "board_start b" and w: "only_writes (fst (receive (packet_receiver b) (map rx is)))"
  shows "resting (run (board_clk X) is b) \<and> contents (program_execution_queue (run (board_clk X) is b)) = []
     \<and> trace (board_clk X) board_requests is b = [] \<and> trace (board_clk X) board_byte is b = []
     \<and> fold write_instr (strobed (packet_receiver (run (board_clk X) is b))) (icache_ram (run (board_clk X) is b))
       = fold write_instr (fst (receive (packet_receiver b) (map rx is))) (icache_ram b)"
  using w
proof (induction "is" rule: rev_induct)
  case Nil
  then show ?case using b by (simp add: board_start_def)
next
  case (snoc i "is")
  let ?b = "run (board_clk X) is b" and ?r = "packet_receiver b"
  have quiet: "strobed ?r = []" using b by (simp add: board_start_def)
  note es = events_snoc [of b "is" i X]
  have w: "only_writes (fst (receive ?r (map rx is)))" using snoc.prems unfolding es by (simp add: only_writes_append)
  note IH = snoc.IH [OF w]
  have "only_writes (strobed (packet_receiver ?b))"
    using strobes_among [OF quiet, of "is" X] w by (metis only_writes_append)
  then have stb: "\<not> mem_read_result_stb (packet_receiver ?b)" "\<not> enqueue_program_stb (packet_receiver ?b)"
    using only_writes_strobes by blast+
  have rest: "resting ?b" "contents (program_execution_queue ?b) = []" using IH by simp_all
  note step = resting_step(1,4) [OF rest stb(1), of X i] resting_step(2,3) [OF rest stb(1), of i]
  have "icache_ram (board_clk X i ?b) = fold write_instr (strobed (packet_receiver ?b)) (icache_ram ?b)"
    by (simp add: board_clk_def board_step_def)
  then show ?case
    using IH step stb(2) by (simp add: run_snoc trace_snoc es del: List.map_append)
qed

lemma start_bytes_idle:
  assumes "receiver.S s = receiver_state.IDLE" and "widths_ok s" and "bytes_of_line rxs = start_bytes"
  shows "receiver.S (snd (receive s rxs)) = receiver_state.IDLE"
proof -
  have h: "take_bit 2 (29 :: byte) = 1" "uint (drop_bit 2 (29 :: byte)) = int 7" "(0::nat) < 7" "(7::nat) < 64"
    "length relu_fast_prog_instructions = 2 * 7" "take_bit 2 (2 :: byte) = 2" "length [0, 0, 6, 0, 13 :: byte] = 5"
    by code_simp+
  note one = receive_upload_packet [OF assms(1) h(1-5), of 0 6]
  have "receiver.S (snd (receive s (map Some start_bytes))) = receiver_state.IDLE"
    using receive_enqueue_packet(2) [OF one(2) widths_ok_receive [OF assms(2)] h(6,7)]
    by (simp only: start_bytes_def map_append receive_append)
  then show ?thesis using receive_clear [OF assms(3), of s] by simp
qed

text \<open>The clock after the last byte.\<close>

lemma last_byte:
  assumes b: "board_start b" and j: "bytes_of_line (map rx js) = butlast start_bytes" and i: "rx i = Some (last start_bytes)"
    and b1: "b1 = run (board_clk X) (js @ [i]) b"
  obtains m dat where "relu_env (top_env m dat)" and "icache_ram b1 = m" and "strobed (packet_receiver b1) = [EnqueueProgram dat]"
    and "resting b1" and "contents (program_execution_queue b1) = []" and "receiver.S (packet_receiver b1) = receiver_state.IDLE"
    and "widths_ok (packet_receiver b1)"
    and "trace (board_clk X) board_requests (js @ [i]) b = []" and "trace (board_clk X) board_byte (js @ [i]) b = []"
proof -
  let ?r = "packet_receiver b" and ?b = "run (board_clk X) js b" and ?h = "\<lparr>pinned_mem = [], sent = []\<rparr>"
  have r: "receiver.S ?r = receiver_state.IDLE" "widths_ok ?r" "strobed ?r = []" using b by (simp_all add: board_start_def)
  have "start_bytes \<noteq> []" by (simp add: start_bytes_def)
  then have all: "bytes_of_line (map rx (js @ [i])) = start_bytes"
    using j i by (simp add: bytes_of_line_append) (simp add: bytes_of_line_def map_filter_simps)
  then have sent: "sent (sendall [2, 0, 0, 6, 0, 13] (sendall (29 # 0 # 6 # relu_fast_prog_instructions) ?h))
      = sent ?h @ bytes_of_line (map rx (js @ [i]))"
    by (simp add: sendall_def start_bytes_def)
  have es: "fst (receive ?r (map rx js)) = write_events"
    using last_byte_starts [OF r(1)] receive_gaps(1) [OF j, of ?r] by simp
  have w: "only_writes (fst (receive ?r (map rx js)))" unfolding es by (auto simp: only_writes_def write_events_def)
  obtain dat' where dat': "fst (receive ?r (map rx (js @ [i]))) = write_events @ [EnqueueProgram dat']"
    using startup_events [OF host_starts sent r(1,2)] unfolding write_events_def by blast
  have step: "b1 = board_clk X i ?b" by (simp add: b1 run_snoc)
  have s1: "strobed (packet_receiver b1) = [EnqueueProgram dat']" using events_snoc [of b js i X] unfolding es dat' step by simp
  obtain dat where dat: "EnqueueProgram dat \<in> set (fst (receive ?r (map rx (js @ [i]))))"
    "relu_env (top_env (fold write_instr (fst (receive ?r (map rx (js @ [i])))) (icache_ram b)) dat)"
    by (rule uploaded_relu_env [OF host_starts sent r(1,2)])
  have "fold write_instr (fst (receive ?r (map rx (js @ [i])))) (icache_ram b) = fold write_instr write_events (icache_ram b)"
    unfolding dat' by (simp add: write_instr_def)
  moreover have "dat = dat'" using dat(1) unfolding dat' write_events_def by auto
  ultimately have E: "relu_env (top_env (fold write_instr write_events (icache_ram b)) dat')" using dat(2) by simp
  note run = waiting_run [OF b w, of X]
  have quiet: "only_writes (strobed (packet_receiver ?b))"
    using strobes_among [OF r(3), of js X] w by (metis only_writes_append)
  then have stb: "\<not> mem_read_result_stb (packet_receiver ?b)" "\<not> enqueue_program_stb (packet_receiver ?b)"
    using only_writes_strobes by blast+
  have rest: "resting ?b" "contents (program_execution_queue ?b) = []" using run by simp_all
  note after = resting_step(1,4) [OF rest stb(1), of X i] resting_step(2,3) [OF rest stb(1), of i]
  have m: "icache_ram b1 = fold write_instr write_events (icache_ram b)"
    using run by (simp add: step board_clk_def board_step_def es)
  have rec: "packet_receiver b1 = snd (receive ?r (map rx (js @ [i])))"
    using events_run(2) [of "board_clk X" "js @ [i]" b] by (simp add: b1 board_receiver)
  have idle: "receiver.S (packet_receiver b1) = receiver_state.IDLE" "widths_ok (packet_receiver b1)"
    unfolding rec by (rule start_bytes_idle [OF r(1,2) all]) (rule widths_ok_receive [OF r(2)])
  show thesis
    by (rule that [OF E m s1 _ _ idle]) (use after run stb(2) in \<open>simp_all add: step trace_snoc\<close>)
qed

text \<open>The clock in which the start command reaches its queue.\<close>

lemma start_of_program:
  assumes b: "board_start b" and j: "bytes_of_line (map rx js) = butlast start_bytes"
    and i: "rx i = Some (last start_bytes)" and i': "rx i' = None"
    and h: "rows_ok h" "length (pinned_mem h) = 128"
  obtains m dat where "loop_start m dat (run (board_clk X) (js @ [i, i']) b) h"
    and "trace (board_clk X) board_requests (js @ [i, i']) b = []" and "trace (board_clk X) board_byte (js @ [i, i']) b = []"
proof -
  let ?b1 = "run (board_clk X) (js @ [i]) b" and ?b2 = "board_clk X i' (run (board_clk X) (js @ [i]) b)"
  obtain m dat where E: "relu_env (top_env m dat)" and m: "icache_ram ?b1 = m" and s: "strobed (packet_receiver ?b1) = [EnqueueProgram dat]"
    and rest: "resting ?b1" "contents (program_execution_queue ?b1) = []"
    and r: "receiver.S (packet_receiver ?b1) = receiver_state.IDLE" "widths_ok (packet_receiver ?b1)"
    and none: "trace (board_clk X) board_requests (js @ [i]) b = []" "trace (board_clk X) board_byte (js @ [i]) b = []"
    by (rule last_byte [OF b j i refl])
  have stb: "\<not> mem_read_result_stb (packet_receiver ?b1)" "enqueue_program_stb (packet_receiver ?b1)"
    "enqueue_program_dat (packet_receiver ?b1) = dat"
    using s by (auto simp: strobed_def split: if_splits)
  note step = resting_step(1,4,5) [OF rest stb(1), of X i'] resting_step(2,3) [OF rest stb(1), of i']
  have run: "run (board_clk X) (js @ [i, i']) b = ?b2"
    using run_snoc [of "board_clk X" "js @ [i]" i' b] by simp
  have tr: "trace (board_clk X) f (js @ [i, i']) b = trace (board_clk X) f (js @ [i]) b @ f i' ?b1" for f :: "board_in \<Rightarrow> board \<Rightarrow> 'z list"
    using trace_snoc [of "board_clk X" f "js @ [i]" i' b] by simp
  have mem: "icache_ram ?b2 = m" using s m by (simp add: board_clk_def board_step_def write_instr_def)
  have rec: "packet_receiver ?b2 = clear_strobes (packet_receiver ?b1)" using i' by (simp add: board_receiver clk_def)
  have "started m dat ?b2"
    using step stb mem rest(1)
    by (simp add: started_def resting_def top_start_def device_start_def waiting_def board_device_def)
  then have "loop_start m dat (run (board_clk X) (js @ [i, i']) b) h"
    unfolding run loop_start_def using E step(1) r h rec widths_ok_clk [OF r(2), of None]
    by (simp add: clk_def) (simp add: clear_strobes_def strobed_def)
  then show thesis using that none step(4,5) by (simp add: tr)
qed

section \<open>The two phases of a run\<close>

lemma transmitter_append:
  "transmitter_ok step may (xs @ ys) b \<longleftrightarrow>
     transmitter_ok step may xs b \<and> transmitter_ok step (may_be_busy step may xs b) ys (run step xs b)"
  by (induction xs arbitrary: may b) simp_all

lemma answered_rest:
  assumes "answered X (bytes_of_line (map rx js)) h (js @ ks) b" and "trace (board_clk X) board_requests js b = []"
  shows "answered X [] h ks (run (board_clk X) js b)"
  unfolding answered_def
proof (intro allI impI)
  fix n
  assume "n \<le> length ks"
  moreover have "take (length js + n) (js @ ks) = js @ take n ks" by simp
  ultimately have "prefix (bytes_of_line (map rx (js @ take n ks)))
      (bytes_of_line (map rx js) @ answers (trace (board_clk X) board_requests (js @ take n ks) b) h)"
    using assms(1) unfolding answered_def by (metis add_le_cancel_left length_append)
  then show "prefix (bytes_of_line (map rx (take n ks)))
      ([] @ answers (trace (board_clk X) board_requests (take n ks) (run (board_clk X) js b)) h)"
    using assms(2) by (simp add: bytes_of_line_append trace_append)
qed

lemma resting_owed: "resting b \<Longrightarrow> board_owed b = []"
  by (simp add: resting_def board_owed_def owed_def packet_left_def board_system_def)

lemma few_bytes:
  assumes "receiver.S r = receiver_state.IDLE" and "prefix (bytes_of_line rxs) (butlast start_bytes)"
  shows "only_writes (fst (receive r rxs))"
proof -
  obtain rest where "butlast start_bytes = bytes_of_line rxs @ rest" using assms(2) by (auto simp: prefix_def)
  then have "write_events = fst (receive r rxs) @ fst (receive (snd (receive r (map Some (bytes_of_line rxs)))) (map Some rest))"
    using last_byte_starts [OF assms(1)] receive_gaps(1) [of rxs "bytes_of_line rxs" r] by (simp add: receive_append)
  moreover have "only_writes write_events" by (auto simp: only_writes_def write_events_def)
  ultimately show ?thesis by (metis only_writes_append)
qed

lemma board_phases:
  assumes b: "board_start b" and tx: "transmitter_ok (board_clk X) may is b" and host: "answered X start_bytes h is b"
    and h: "rows_ok h" "length (pinned_mem h) = 128"
  obtains (waiting) "resting (run (board_clk X) is b)"
      and "trace (board_clk X) board_requests is b = []" and "trace (board_clk X) board_byte is b = []"
      and "length (bytes_of_line (map rx (butlast is))) < length start_bytes"
  | (working) js ks m dat may' where "is = js @ ks" and "bytes_of_line (map rx js) = start_bytes"
      and "loop_start m dat (run (board_clk X) js b) h" and "trace (board_clk X) board_requests js b = []" and "trace (board_clk X) board_byte js b = []"
      and "answered X [] h ks (run (board_clk X) js b)" and "transmitter_ok (board_clk X) may' ks (run (board_clk X) js b)"
proof (cases "prefix (bytes_of_line (map rx is)) (butlast start_bytes)")
  case True
  have "receiver.S (packet_receiver b) = receiver_state.IDLE" using b by (simp add: board_start_def)
  note run = waiting_run [OF b few_bytes [OF this True], of X]
  have "map rx is = map rx (butlast is) @ drop (length is - 1) (map rx is)" by (simp add: butlast_conv_take drop_map flip: map_append)
  then have "length (bytes_of_line (map rx (butlast is))) \<le> length (bytes_of_line (map rx is))"
    by (metis bytes_of_line_append length_append le_add1)
  also have "\<dots> < length start_bytes"
    using prefix_length_le [OF True] by (simp add: start_bytes_def)
  finally show thesis using run waiting by simp
next
  case False
  let ?c = "last start_bytes"
  have sb: "start_bytes = butlast start_bytes @ [?c]" by (simp add: start_bytes_def butlast_append)
  have "prefix (bytes_of_line (map rx is)) (start_bytes @ answers (trace (board_clk X) board_requests is b) h)"
    using host unfolding answered_def by (metis le_refl take_all)
  then have "\<exists>cs. bytes_of_line (map rx is) = butlast start_bytes @ ?c # cs"
    using False sb by (metis append.assoc append_Cons append_Nil prefix_append prefix_def prefix_snoc prefixE)
  then obtain ys zs where split: "map rx is = ys @ Some ?c # zs" "bytes_of_line ys = butlast start_bytes"
    using split_line by blast
  then obtain js i ks' where js: "is = js @ i # ks'" "map rx js = ys" "rx i = Some ?c"
    by (auto simp: map_eq_append_conv Cons_eq_map_conv)
  then have j: "bytes_of_line (map rx js) = butlast start_bytes" using split(2) by simp
  obtain m dat where s: "strobed (packet_receiver (run (board_clk X) (js @ [i]) b)) = [EnqueueProgram dat]"
    and rest: "resting (run (board_clk X) (js @ [i]) b)" "contents (program_execution_queue (run (board_clk X) (js @ [i]) b)) = []"
    and none: "trace (board_clk X) board_requests (js @ [i]) b = []" "trace (board_clk X) board_byte (js @ [i]) b = []"
    by (rule last_byte [OF b j js(3) refl])
  show thesis
  proof (cases ks')
    case Nil
    have "length (butlast start_bytes) < length start_bytes" by (simp add: start_bytes_def)
    then show ?thesis using Nil waiting rest(1) none js(1) j by simp
  next
    case (Cons i' ks)
    have "\<not> mem_read_result_stb (packet_receiver (run (board_clk X) (js @ [i]) b))" using s by (auto simp: strobed_def split: if_splits)
    then have "board_requests i' (run (board_clk X) (js @ [i]) b) = []" by (rule resting_step(2) [OF rest])
    then have q: "trace (board_clk X) board_requests (js @ [i, i']) b = []"
      using none(1) trace_snoc [of "board_clk X" board_requests "js @ [i]" i' b] by simp
    have is': "is = (js @ [i, i']) @ ks" by (simp add: js(1) Cons)
    have one: "bytes_of_line (map rx (js @ [i])) = start_bytes"
      using j js(3) sb by (simp add: bytes_of_line_append) (simp add: bytes_of_line_def map_filter_simps)
    have "take (length js + 2) is = js @ [i, i']" by (simp add: is')
    moreover have "length js + 2 \<le> length is" by (simp add: is')
    ultimately have "prefix (bytes_of_line (map rx (js @ [i, i']))) (start_bytes @ answers [] h)"
      using host q unfolding answered_def by metis
    moreover have "bytes_of_line (map rx (js @ [i, i'])) = start_bytes @ bytes_of_line [rx i']"
      using bytes_of_line_append [of "map rx (js @ [i])" "[rx i']"] one by simp
    ultimately have "bytes_of_line [rx i'] = []" by simp
    then have i': "rx i' = None" by (cases "rx i'") (simp_all add: bytes_of_line_def map_filter_simps)
    have two: "bytes_of_line (map rx (js @ [i, i'])) = start_bytes"
      using bytes_of_line_append [of "map rx (js @ [i])" "[rx i']"] one \<open>bytes_of_line [rx i'] = []\<close> by simp
    obtain m dat where l: "loop_start m dat (run (board_clk X) (js @ [i, i']) b) h"
      "trace (board_clk X) board_byte (js @ [i, i']) b = []"
      by (rule start_of_program [OF b j js(3) i' h])
    have "answered X [] h ks (run (board_clk X) (js @ [i, i']) b)"
      by (rule answered_rest [OF _ q]) (use host two is' in simp)
    moreover have "transmitter_ok (board_clk X) (may_be_busy (board_clk X) may (js @ [i, i']) b) ks (run (board_clk X) (js @ [i, i']) b)"
      using tx unfolding is' transmitter_append by blast
    ultimately show ?thesis by (rule working [OF is' two l(1) q l(2)])
  qed
qed

end
