(* ===== verification/PromptHost.thy ===== *)
theory PromptHost
  imports BoardStart
begin

text \<open>
  A board after reset, and a host that sends the next byte of its answers in every clock, over a line that is
  never busy: the runs of the board that the theorems on whole runs speak of exist.
\<close>

section \<open>A board after reset\<close>

definition empty_smplfifo :: "'a \<Rightarrow> 'a smplfifo" where
  "empty_smplfifo x =
     \<lparr>fifo = (\<lambda>_. x), r_first = 0, r_last = 0, r_next = 1, will_overflow = False, r_ovfl = False, will_underflow = True,
      fifo_here = x, fifo_next = x, r_data = x, osrc = 0, r_empty_n = False, r_fill = 0\<rparr>"

lemma empty_smplfifo: "smplfifo_ok (empty_smplfifo x)" "contents (empty_smplfifo x) = []" "\<not> o_err (empty_smplfifo x)"
  by (simp_all add: smplfifo_ok_def empty_smplfifo_def contents_empty size_of_def o_err_def)

definition idle_board :: board where
  "idle_board =
     \<lparr>machine = idle_top, icache_ram = (\<lambda>_. 0), program_execution_queue = empty_smplfifo [], l3_cache = empty_smplfifo [],
      mem_write_command = empty_smplfifo (0, []), prog_complete_message = empty_smplfifo False,
      packet_sender = idle_sender, packet_receiver = idle_receiver\<rparr>"

lemma idle_board_start: "board_start idle_board"
proof -
  have "strobed idle_receiver = []" by (simp add: strobed_def idle_receiver_def)
  moreover have "\<not> execution_queue_read_enable (control (board_device idle_board))"
    by (simp add: board_device_def idle_board_def idle_top_def idle_device_def cu_reset_def cu_blank_def)
  ultimately show ?thesis
    by (simp add: board_start_def resting_def board_error_def idle_board_def empty_smplfifo idle_top_start idle_receiver_ok)
      (simp add: idle_sender_def)
qed

section \<open>A prompt host\<close>

fun prompt :: "bits \<Rightarrow> byte list \<Rightarrow> host \<Rightarrow> board \<Rightarrow> nat \<Rightarrow> board_in list" where
  "prompt X bs h b 0 = []"
| "prompt X bs h b (Suc n) =
     (let is = prompt X bs h b n; k = length (bytes_of_line (map rx is));
        cs = bs @ answers (trace (board_clk X) board_requests is b) h in
      is @ [\<lparr>rx = (if k < length cs then Some (cs ! k) else None), uart_tx_busy = False\<rparr>])"

definition prompt_in :: "bits \<Rightarrow> byte list \<Rightarrow> host \<Rightarrow> board \<Rightarrow> nat \<Rightarrow> board_in" where
  "prompt_in X bs h b n = last (prompt X bs h b (Suc n))"

lemma prompt_upto: "map (prompt_in X bs h b) [0..<n] = prompt X bs h b n"
  by (induction n) (simp_all add: prompt_in_def Let_def)

lemma length_prompt [simp]: "length (prompt X bs h b n) = n"
  by (induction n) (simp_all add: Let_def)

lemma take_prompt: "k \<le> n \<Longrightarrow> take k (prompt X bs h b n) = prompt X bs h b k"
  by (simp flip: prompt_upto add: take_map)

lemma not_busy: "\<not> uart_tx_busy (prompt_in X bs h b n)"
  by (simp add: prompt_in_def Let_def)

lemma never_busy: "(\<forall>i \<in> set is. \<not> uart_tx_busy i) \<Longrightarrow> transmitter_ok step may is b"
  by (induction "is" arbitrary: may b) simp_all

lemma prompt_transmitter: "transmitter_ok step may (prompt X bs h b n) b'"
  by (rule never_busy) (auto simp: not_busy simp flip: prompt_upto)

lemma answers_append: "answers (rs @ rs') h = answers rs h @ answers rs' (fold apply_request rs h)"
  by (induction rs arbitrary: h) simp_all

definition prompt_sent :: "bits \<Rightarrow> byte list \<Rightarrow> host \<Rightarrow> board \<Rightarrow> nat \<Rightarrow> byte list" where
  "prompt_sent X bs h b n = bytes_of_line (map rx (prompt X bs h b n))"

definition prompt_owes :: "bits \<Rightarrow> byte list \<Rightarrow> host \<Rightarrow> board \<Rightarrow> nat \<Rightarrow> byte list" where
  "prompt_owes X bs h b n = bs @ answers (trace (board_clk X) board_requests (prompt X bs h b n) b) h"

lemma prompt_owes_grows: "m \<le> n \<Longrightarrow> prefix (prompt_owes X bs h b m) (prompt_owes X bs h b n)"
proof -
  assume "m \<le> n"
  then have "prompt X bs h b n = prompt X bs h b m @ drop m (prompt X bs h b n)" by (metis append_take_drop_id take_prompt)
  then show ?thesis unfolding prompt_owes_def by (metis answers_append append_assoc prefix_def trace_append)
qed

lemma prompt_sends:
  "prefix (prompt_sent X bs h b n) (prompt_owes X bs h b n)"
  "length (prompt_sent X bs h b (Suc n))
     = length (prompt_sent X bs h b n) + (if length (prompt_sent X bs h b n) < length (prompt_owes X bs h b n) then 1 else 0)"
proof -
  let ?s = "prompt_sent X bs h b" and ?o = "prompt_owes X bs h b"
  have step: "?s (Suc n) = ?s n @ (if length (?s n) < length (?o n) then [?o n ! length (?s n)] else [])" for n
    by (simp add: prompt_sent_def prompt_owes_def Let_def bytes_of_line_append)
      (simp add: bytes_of_line_def map_filter_simps)
  show "length (?s (Suc n)) = length (?s n) + (if length (?s n) < length (?o n) then 1 else 0)" by (simp add: step)
  show "prefix (?s n) (?o n)"
  proof (induction n)
    case 0
    then show ?case by (simp add: prompt_sent_def bytes_of_line_def map_filter_simps)
  next
    case (Suc n)
    have "prefix (?s (Suc n)) (?o n)"
    proof (cases "length (?s n) < length (?o n)")
      case True
      have "?s n = take (length (?s n)) (?o n)" using Suc by (metis append_eq_conv_conj prefixE)
      then have "?s (Suc n) = take (Suc (length (?s n))) (?o n)" using True step by (simp add: take_Suc_conv_app_nth)
      then show ?thesis by (simp add: take_is_prefix)
    qed (use Suc step in simp)
    then show ?case using prompt_owes_grows [of n "Suc n"] by (rule prefix_order.trans) simp
  qed
qed

lemma prompt_answered: "answered X bs h (prompt X bs h b n) b"
  unfolding answered_def
proof (intro allI impI)
  fix k
  assume "k \<le> length (prompt X bs h b n)"
  then have "take k (prompt X bs h b n) = prompt X bs h b k" by (simp add: take_prompt)
  then show "prefix (bytes_of_line (map rx (take k (prompt X bs h b n))))
      (bs @ answers (trace (board_clk X) board_requests (take k (prompt X bs h b n)) b) h)"
    using prompt_sends(1) [of X bs h b k] unfolding prompt_sent_def prompt_owes_def by simp
qed

lemma prompt_answers: "\<exists>k. prefix (prompt_owes X bs h b n) (prompt_sent X bs h b k)"
proof -
  let ?s = "prompt_sent X bs h b" and ?o = "prompt_owes X bs h b"
  have longer: "length (?o n) \<le> length (?o (n + d))" for d using prefix_length_le [OF prompt_owes_grows [of n "n + d"]] by simp
  have "min d (length (?o n)) \<le> length (?s (n + d))" for d
  proof (induction d)
    case (Suc d)
    then show ?case using prompt_sends(2) [of X bs h b "n + d"] longer [of d] by simp linarith
  qed simp
  from this [of "length (?o n)"] have "length (?o n) \<le> length (?s (n + length (?o n)))" by simp
  then show ?thesis
    using prompt_sends(1) [of X bs h b "n + length (?o n)"] prompt_owes_grows [of n "n + length (?o n)" X bs h b] prefix_length_prefix by fastforce
qed

end
