(* ===== verification/WholeRun.thy ===== *)
theory WholeRun
  imports PromptHost
begin

text \<open>
  The relu program from end to end: the host sends it, the board asks for the rows, computes and writes back,
  and the host's memory holds the result.
\<close>

section \<open>What the board does\<close>

lemma loop_facts:
  assumes s: "loop_start m dat b h" and X: "length X = 288" and tx: "transmitter_ok (board_clk X) may is b"
    and host: "answered X [] h is b"
  shows "always (board_clk X) (\<lambda>i. only_tiles) is b"
    and "length (trace (board_step (top_env m dat) X) (\<lambda>i. tiles_in) is b) \<le> 128"
    and "\<forall>t \<in> set (trace (board_step (top_env m dat) X) (\<lambda>i. tiles_in) is b). length t = 288"
    and "a < length (trace (board_step (top_env m dat) X) (\<lambda>i. tiles_in) is b) \<Longrightarrow>
      trace (board_step (top_env m dat) X) (\<lambda>i. tiles_in) is b ! a = row_tile (pinned_mem h ! a)"
    and "in_step 0 0 (trace (board_clk X) board_requests is b)"
    and "length (trace (board_step (top_env m dat) X) (\<lambda>i. tiles_in) is b)
      \<le> length (read_addresses (trace (board_clk X) board_requests is b))"
proof -
  let ?E = "top_env m dat" and ?i = "undefined :: board_in"
  let ?ts = "trace (board_step (top_env m dat) X) (\<lambda>i. tiles_in) is b"
  have E: "relu_env ?E" and b: "resting b" and st: "started m dat b" and h: "rows_ok h" "length (pinned_mem h) = 128"
    using s by (simp_all add: loop_start_def)
  have loop: "in_loop X is b h" by (rule loop_run [OF s X tx host])
  then obtain k where k: "k \<le> length (read_addresses (trace (board_clk X) board_requests is b))"
    "fst (receive (packet_receiver b) (map rx is)) = row_events h k"
    by (auto simp: in_loop_def)
  have tiles: "always (board_clk X) (\<lambda>i. only_tiles) is b" "always (board_clk X) (\<lambda>i. only_tiles) (is @ [?i]) b"
    using loop by (simp_all add: in_loop_def always_snoc)
  note same = started_run [OF st tiles(1)]
  have "trace (board_step ?E X) (\<lambda>i. tiles_in) (is @ [?i]) b = map (\<lambda>j. row_tile (pinned_mem h ! j)) [0..<k]"
    using loop_tiles [OF s tiles(2) k(2)] by (simp only: started_run(2) [OF st tiles(2)])
  then have p: "prefix ?ts (map (\<lambda>j. row_tile (pinned_mem h ! j)) [0..<k])" by (simp add: trace_snoc prefix_def) metis
  then have ts: "?ts = take (length ?ts) (map (\<lambda>j. row_tile (pinned_mem h ! j)) [0..<k])" by (metis append_eq_conv_conj prefixE)
  have le: "length ?ts \<le> k" using prefix_length_le [OF p] by simp
  have r128: "length (read_addresses (trace (board_clk X) board_requests is b)) \<le> 128"
    using board_reads [OF E b same(2) [of board_requests]] by (metis length_map length_upt minus_nat.diff_0)
  show at: "?ts ! a = row_tile (pinned_mem h ! a)" if "a < length ?ts" for a
    using that le arg_cong [OF ts, of "\<lambda>xs. xs ! a"] by simp
  show l: "length ?ts \<le> 128" and "length ?ts \<le> length (read_addresses (trace (board_clk X) board_requests is b))"
    using le k(1) r128 by linarith+
  show "\<forall>t \<in> set ?ts. length t = 288"
  proof
    fix t
    assume "t \<in> set ?ts"
    then obtain a where a: "a < length ?ts" "t = ?ts ! a" by (metis in_set_conv_nth)
    then have "pinned_mem h ! a \<in> set (pinned_mem h)" using l h(2) by simp
    then show "length t = 288" using a at h(1) by (simp add: rows_ok_def length_row_tile)
  qed
  show "always (board_clk X) (\<lambda>i. only_tiles) is b" "in_step 0 0 (trace (board_clk X) board_requests is b)"
    using loop by (simp_all add: in_loop_def)
qed

text \<open>The light stays off.\<close>

lemma program_queue_err:
  "smplfifo_ok (program_execution_queue b) \<Longrightarrow> always (board_clk X) (\<lambda>i. only_tiles) is b \<Longrightarrow>
     o_err (program_execution_queue (run (board_clk X) is b)) = o_err (program_execution_queue b)"
proof (induction "is" arbitrary: b)
  case (Cons i "is")
  have q: "program_execution_queue (board_clk X i b) = smplfifo_clk (program_execution_queue_in b) (program_execution_queue b)"
    by (simp add: board_clk_def board_step_def)
  have "\<not> enqueue_program_stb (packet_receiver b)" using only_tiles_strobes(1) Cons.prems(2) by simp
  then have "o_err (program_execution_queue (board_clk X i b)) = o_err (program_execution_queue b)"
    unfolding q err_step [OF Cons.prems(1)] by (simp add: program_execution_queue_in_def)
  then show ?case using Cons smplfifo_ok_clk [OF Cons.prems(1)] by (simp add: q)
qed simp

lemma lanes_of_row: "length row = 16 \<Longrightarrow> lanes (bits_bytes (row_tile row)) = map f32_lane row"
  using tile_of_answer [of row] lanes_lane_bytes [of "map f32_lane row"]
  by (metis bits_bytes_bytes_bits f32_lane_ok length_map list_all_length nth_map)

text \<open>The tile that is written for a row.\<close>

definition written_tile :: "bits \<Rightarrow> f32 list list \<Rightarrow> nat \<Rightarrow> byte list" where
  "written_tile X M j = bits_bytes (if j < 32 then UnopALU (row_tile (M ! j)) else X)"

definition relu_row :: "f32 list \<Rightarrow> f32 list" where
  "relu_row row = map (\<lambda>x. lane_f32 (relu_lane (f32_lane x))) row"

lemma written_lanes:
  assumes "length (M ! j) = 16"
  shows "map lane_f32 (lanes (written_tile X M j)) = (if j < 32 then relu_row (M ! j) else map lane_f32 (lanes (bits_bytes X)))"
  using lanes_UnopALU [OF length_row_tile [OF assms]] lanes_of_row [OF assms]
  by (simp add: written_tile_def relu_row_def)

lemma loop_writes:
  assumes s: "loop_start m dat b h" and X: "length X = 288" and tx: "transmitter_ok (board_clk X) may is b"
    and host: "answered X [] h is b" and rqs: "rqs = trace (board_clk X) board_requests is b"
  shows "request_writes rqs = map (\<lambda>a. WriteReq (of_nat a) (written_tile X (pinned_mem h) a)) [0..<length (request_writes rqs)]"
    and "length (request_writes rqs) \<le> length (read_addresses rqs)"
    and "read_addresses rqs = map of_nat [0..<length (read_addresses rqs)]" and "length (read_addresses rqs) \<le> 128"
    and "trace (board_clk X) board_byte is b @ board_owed (run (board_clk X) is b) = concat (map request_bytes rqs)"
    and "\<not> board_error (run (board_clk X) is b)"
proof -
  let ?E = "top_env m dat"
  let ?ts = "trace (board_step ?E X) (\<lambda>i. tiles_in) is b"
  have E: "relu_env ?E" and b: "resting b" and st: "started m dat b" using s by (simp_all add: loop_start_def)
  note f = loop_facts [OF s X tx host]
  note same = started_run [OF st f(1)]
  have few: "length ?ts \<le> 510" using f(2) by simp
  have tx: "transmitter_ok (board_step ?E X) may is b" using tx by (simp only: same(3))
  have rqs': "rqs = trace (board_step ?E X) board_requests is b" unfolding rqs by (rule same(2))
  note w = board_writes [OF E b few tx rqs' refl]
  have "bits_bytes (if a < 32 then UnopALU (?ts ! a) else X) = written_tile X (pinned_mem h) a" if "a < length (request_writes rqs)" for a
    using f(4) [of a] w(2) that by (simp add: written_tile_def)
  then show "request_writes rqs = map (\<lambda>a. WriteReq (of_nat a) (written_tile X (pinned_mem h) a)) [0..<length (request_writes rqs)]"
    by (intro trans [OF w(1)] map_cong) simp_all
  show "length (request_writes rqs) \<le> length (read_addresses rqs)" using w(2) f(6) unfolding rqs by linarith
  obtain r where "r \<le> 128" "read_addresses rqs = map of_nat [0..<r]" using board_reads [OF E b rqs'] by metis
  then show "read_addresses rqs = map of_nat [0..<length (read_addresses rqs)]" "length (read_addresses rqs) \<le> 128" by simp_all
  show "trace (board_clk X) board_byte is b @ board_owed (run (board_clk X) is b) = concat (map request_bytes rqs)"
    unfolding rqs same(1,2) by (rule board_sends [OF E b few tx f(3) X])
  have "\<not> o_err (program_execution_queue (run (board_clk X) is b))"
    using program_queue_err [OF _ f(1)] b by (simp add: resting_def board_error_def)
  then show "\<not> board_error (run (board_clk X) is b)"
    using board_lists(14) [OF E b few refl refl refl] by (simp add: board_error_def same(1))
qed

text \<open>The end of the program comes once, after all rows, and nothing follows it.\<close>

lemma board_end:
  assumes s: "loop_start m dat b h" and X: "length X = 288" and tx: "transmitter_ok (board_clk X) may is b"
    and host: "answered X [] h is b" and rqs: "rqs = trace (board_clk X) board_requests is b"
  shows "request_ends rqs = [] \<or>
     (\<exists>qs. rqs = qs @ [OtherReq 4 0] \<and> request_ends qs = [] \<and> length (request_writes qs) = 128)"
  using tx host unfolding rqs
proof (induction "is" rule: rev_induct)
  case (snoc i "is")
  let ?E = "top_env m dat" and ?is = "is @ [i]" and ?b = "run (board_clk X) is b"
  let ?rqs = "trace (board_clk X) board_requests is b" and ?new = "board_requests i (run (board_clk X) is b)"
  have E: "relu_env ?E" and b: "resting b" and st: "started m dat b" using s by (simp_all add: loop_start_def)
  have tx: "transmitter_ok (board_clk X) may is b" and host: "answered X [] h is b"
    using snoc.prems by (simp_all add: transmitter_snoc answered_snoc)
  have all: "trace (board_clk X) board_requests ?is b = ?rqs @ ?new" by (simp add: trace_snoc)
  note f = loop_facts [OF s X tx host] and f' = loop_facts [OF s X snoc.prems]
  note same = started_run [OF st f(1)] and same' = started_run [OF st f'(1)]
  have few: "length (trace (board_step ?E X) (\<lambda>i. tiles_in) is b) \<le> 510" "length (trace (board_step ?E X) (\<lambda>i. tiles_in) ?is b) \<le> 510"
    using f(2) f'(2) by simp_all
  have tx1: "transmitter_ok (board_step ?E X) may is b" using tx by (simp only: same(3))
  have tx2: "transmitter_ok (board_step ?E X) may ?is b" using snoc.prems(1) by (simp only: same'(3))
  note t = board_traffic [OF E b few(1) tx1 same(1) same(2)] and t' = board_traffic [OF E b few(2) tx2 same'(1) same'(2)]
  note l = board_lists [OF E b few(1) same(1) refl refl] and l' = board_lists [OF E b few(2) same'(1) refl refl]
  have w': "length (request_writes (?rqs @ ?new)) \<le> 128" "length (read_addresses (?rqs @ ?new)) \<le> 128"
    using loop_writes(2,4) [OF s X snoc.prems refl] unfolding all by linarith+
  have le: "length (request_writes ?rqs) \<le> length (read_addresses ?rqs)" by (rule loop_writes(2) [OF s X tx host refl])
  have one: "length (request_ends (?rqs @ ?new)) \<le> 1"
  proof -
    have "of_bool (dma_send_end_program_queue_re (packet_sender (run (board_clk X) ?is b)))
        \<le> length (contents (prog_complete_message (run (board_clk X) ?is b)))"
      using t' by (auto simp: traffic_ok_def contents_empty)
    then show ?thesis using t' l'(4,8) unfolding all by linarith
  qed
  have full: "length (request_writes ?rqs) = 128 \<Longrightarrow> read_addresses ?new = [] \<and> request_writes ?new = []"
  proof -
    assume "length (request_writes ?rqs) = 128"
    then have "length (read_addresses ?new) = 0" "length (request_writes ?new) = 0"
      using w' le unfolding address_simps length_append by linarith+
    then show ?thesis by blast
  qed
  show ?case
  proof (cases "request_ends ?rqs = []")
    case False
    then obtain qs where qs: "?rqs = qs @ [OtherReq 4 0]" "request_ends qs = []" "length (request_writes qs) = 128"
      using snoc.IH [OF tx host] by blast
    then have "read_addresses ?new = []" "request_writes ?new = []" "request_ends ?new = []" using full one by auto
    then have "?new = []"
      by (cases rule: requests_shape [of i ?b]) (auto simp: read_addresses_def request_writes_def request_ends_def split: request.splits)
    then show ?thesis using qs unfolding all by simp
  next
    case none: True
    show ?thesis
    proof (cases "request_ends ?new = []")
      case True
      then show ?thesis using none unfolding all by simp
    next
      case False
      have q: "contents (mem_write_command ?b) = []" "contents (prog_complete_message ?b) \<noteq> []"
        using takes_end(4) [OF conjunct1 [OF t] l(10,11) False] by simp_all
      then have "trace (board_step ?E X) (\<lambda>i. ends_in) is b \<noteq> []" using l(8) by (auto simp: contents_empty)
      then have "length (trace (board_step ?E X) (\<lambda>i. writes_out) is b) = 128" using l(5,7) q(1) by simp
      then have w: "length (request_writes ?rqs) = 128" using t by simp
      have "set (request_ends ?new) \<subseteq> {OtherReq 4 0}" by (rule takes_end(3) [OF conjunct1 [OF t] l(10,11)])
      then have "?new = [OtherReq 4 0]"
        using full [OF w] False
        by (cases rule: requests_shape [of i ?b]) (auto simp: read_addresses_def request_writes_def request_ends_def split: request.splits)
      then show ?thesis using none w unfolding all by blast
    qed
  qed
qed simp

section \<open>From reset\<close>

lemma board_run:
  assumes b: "board_start b" and X: "length X = 288" and tx: "transmitter_ok (board_clk X) may is b"
    and host: "answered X start_bytes h is b" and h: "rows_ok h" "length (pinned_mem h) = 128"
    and rqs: "rqs = trace (board_clk X) board_requests is b"
  shows "trace (board_clk X) board_byte is b @ board_owed (run (board_clk X) is b) = concat (map request_bytes rqs)"
    and "read_addresses rqs = map of_nat [0..<length (read_addresses rqs)]" and "in_step 0 0 rqs"
    and "request_writes rqs = map (\<lambda>a. WriteReq (of_nat a) (written_tile X (pinned_mem h) a)) [0..<length (request_writes rqs)]"
    and "length (request_writes rqs) \<le> length (read_addresses rqs)"
    and "request_ends rqs = [] \<or>
     (\<exists>qs. rqs = qs @ [OtherReq 4 0] \<and> request_ends qs = [] \<and> length (request_writes qs) = 128)"
    and "\<not> board_error (run (board_clk X) is b)"
proof -
  have "trace (board_clk X) board_byte is b @ board_owed (run (board_clk X) is b) = concat (map request_bytes rqs)
     \<and> read_addresses rqs = map of_nat [0..<length (read_addresses rqs)] \<and> in_step 0 0 rqs
     \<and> request_writes rqs = map (\<lambda>a. WriteReq (of_nat a) (written_tile X (pinned_mem h) a)) [0..<length (request_writes rqs)]
     \<and> length (request_writes rqs) \<le> length (read_addresses rqs)
     \<and> (request_ends rqs = [] \<or>
       (\<exists>qs. rqs = qs @ [OtherReq 4 0] \<and> request_ends qs = [] \<and> length (request_writes qs) = 128))
     \<and> \<not> board_error (run (board_clk X) is b)"
  proof (rule board_phases [OF b tx host h])
    assume r: "resting (run (board_clk X) is b)" "trace (board_clk X) board_requests is b = []" "trace (board_clk X) board_byte is b = []"
    then show ?thesis using resting_owed [OF r(1)] by (simp add: rqs resting_def)
  next
    fix js ks m dat may'
    assume is': "is = js @ ks" and l: "loop_start m dat (run (board_clk X) js b) h"
      and none: "trace (board_clk X) board_requests js b = []" "trace (board_clk X) board_byte js b = []"
      and a: "answered X [] h ks (run (board_clk X) js b)" and t: "transmitter_ok (board_clk X) may' ks (run (board_clk X) js b)"
    have "rqs = trace (board_clk X) board_requests ks (run (board_clk X) js b)"
      by (simp add: rqs is' trace_append none)
    then show ?thesis
      using loop_writes [OF l X t a] board_end [OF l X t a] loop_facts(5) [OF l X t a]
      by (simp add: is' trace_append none run_append)
  qed
  then show "trace (board_clk X) board_byte is b @ board_owed (run (board_clk X) is b) = concat (map request_bytes rqs)"
    "read_addresses rqs = map of_nat [0..<length (read_addresses rqs)]" "in_step 0 0 rqs"
    "request_writes rqs = map (\<lambda>a. WriteReq (of_nat a) (written_tile X (pinned_mem h) a)) [0..<length (request_writes rqs)]"
    "length (request_writes rqs) \<le> length (read_addresses rqs)"
    "request_ends rqs = [] \<or>
     (\<exists>qs. rqs = qs @ [OtherReq 4 0] \<and> request_ends qs = [] \<and> length (request_writes qs) = 128)"
    "\<not> board_error (run (board_clk X) is b)"
    by blast+
qed

lemma loop_reads_bound: "in_step r w rs \<Longrightarrow> r \<le> 128 \<Longrightarrow> r + length (read_addresses rs) \<le> 128"
  by (induction r w rs rule: in_step.induct) auto

text \<open>C2. The board and the host compute relu together: from reset, while the host sends its two start packets and then
  answers the requests that the board has begun to send, at whatever pace, and the serial transmitter is busy
  whenever it likes after a byte, the bytes on the line are whole packets and the beginning of one; they read the rows
  0, 1, 2, ... in order, and write them in order, each after it was read, with relu of what the host's
  memory held at the start for the first 32 and with the unknown \<open>X\<close> of the cache after them; the end of the program comes
  after all 128 writes and nothing after it, and the error light stays off.\<close>

theorem board_computes_relu:
  assumes "upload_prog 0 6 h = Inr h1" and "start_prog 0 6 13 h1 = Inr h2" and "sent h = []"
    and "rows_ok h" and "length (pinned_mem h) = 128"
    and "board_start b" and "length X = 288" and "transmitter_ok (board_clk X) may is b" and "answered X (sent h2) h2 is b"
  shows "let rqs = trace (board_clk X) board_requests is b; ws = request_writes rqs in
     trace (board_clk X) board_byte is b @ board_owed (run (board_clk X) is b) = concat (map request_bytes rqs)
     \<and> read_addresses rqs = map of_nat [0..<length (read_addresses rqs)] \<and> in_step 0 0 rqs
     \<and> (\<forall>j < length ws. \<exists>body. ws ! j = WriteReq (of_nat j) body
          \<and> map lane_f32 (lanes body) = (if j < 32 then relu_row (pinned_mem h ! j) else map lane_f32 (lanes (bits_bytes X))))
     \<and> length ws \<le> length (read_addresses rqs)
     \<and> (request_ends rqs = [] \<or>
          (\<exists>qs. rqs = qs @ [OtherReq 4 0] \<and> request_ends qs = [] \<and> length (request_writes qs) = 128))
     \<and> \<not> board_error (run (board_clk X) is b)"
proof -
  let ?rqs = "trace (board_clk X) board_requests is b"
  have h2: "sent h2 = start_bytes" "pinned_mem h2 = pinned_mem h" using start_bytes_sent [OF assms(1,2)] assms(3) by simp_all
  have ok: "rows_ok h2" "length (pinned_mem h2) = 128" using assms(4,5) by (simp_all add: h2(2) rows_ok_def)
  note r = board_run [OF assms(6-8) assms(9) [unfolded h2(1)] ok refl]
  have w: "length (request_writes ?rqs) \<le> 128" using r(2,5) loop_reads_bound [OF r(3)] by simp
  have "\<exists>body. request_writes ?rqs ! j = WriteReq (of_nat j) body
      \<and> map lane_f32 (lanes body) = (if j < 32 then relu_row (pinned_mem h ! j) else map lane_f32 (lanes (bits_bytes X)))"
    if j: "j < length (request_writes ?rqs)" for j
  proof (intro exI conjI)
    show "request_writes ?rqs ! j = WriteReq (of_nat j) (written_tile X (pinned_mem h) j)"
      using j by (subst r(4)) (simp add: h2(2))
    have "pinned_mem h ! j \<in> set (pinned_mem h)" using j w assms(5) by simp
    then have "length (pinned_mem h ! j) = 16" using assms(4) by (simp add: rows_ok_def)
    then show "map lane_f32 (lanes (written_tile X (pinned_mem h) j))
        = (if j < 32 then relu_row (pinned_mem h ! j) else map lane_f32 (lanes (bits_bytes X)))"
      by (rule written_lanes)
  qed
  then show ?thesis using r(1-3,5-7) unfolding Let_def by blast
qed

text \<open>A witness: the prompt host, for any number of clocks.\<close>

theorem board_computes_relu_witness:
  "\<forall>n. let h = \<lparr>pinned_mem = replicate 128 (replicate 16 0), sent = start_bytes\<rparr>; X = replicate 288 True;
       rqs = trace (board_clk X) board_requests (prompt X start_bytes h idle_board n) idle_board in
     request_ends rqs = [] \<or>
       (\<exists>qs. rqs = qs @ [OtherReq 4 0] \<and> request_ends qs = [] \<and> length (request_writes qs) = 128)"
proof
  fix n
  let ?h = "\<lparr>pinned_mem = replicate 128 (replicate 16 0), sent = []\<rparr>" and ?h2 = "\<lparr>pinned_mem = replicate 128 (replicate 16 0), sent = start_bytes\<rparr>"
  have "upload_prog 0 6 ?h = Inr (sendall (29 # 0 # 6 # relu_fast_prog_instructions) ?h)"
    "start_prog 0 6 13 (sendall (29 # 0 # 6 # relu_fast_prog_instructions) ?h) = Inr ?h2"
    using host_starts by (simp_all add: sendall_def start_bytes_def)
  note run = board_computes_relu [of ?h _ ?h2 idle_board "replicate 288 True" False "prompt (replicate 288 True) start_bytes ?h2 idle_board n",
      OF this _ rows_ok_initial _ idle_board_start]
  show "let h = ?h2; X = replicate 288 True; rqs = trace (board_clk X) board_requests (prompt X start_bytes h idle_board n) idle_board in
     request_ends rqs = [] \<or>
       (\<exists>qs. rqs = qs @ [OtherReq 4 0] \<and> request_ends qs = [] \<and> length (request_writes qs) = 128)"
    using run by (simp add: Let_def prompt_answered prompt_transmitter del: replicate.simps)
qed

end
