(* ===== verification/WholeEnd.thy ===== *)
theory WholeEnd
  imports WholeRun
begin

text \<open>
  The relu program ends: if the serial transmitter always becomes free again and the host answers everything, the
  board reads all rows, writes all rows, and reports the end, and the host leaves its loop with the result in its memory.
\<close>

section \<open>Endless inputs\<close>

abbreviation upto_clock :: "(nat \<Rightarrow> board_in) \<Rightarrow> nat \<Rightarrow> board_in list" where
  "upto_clock I n \<equiv> map I [0..<n]"

definition requests_upto :: "bits \<Rightarrow> (nat \<Rightarrow> board_in) \<Rightarrow> board \<Rightarrow> nat \<Rightarrow> request list" where
  "requests_upto X I b n = trace (board_clk X) board_requests (upto_clock I n) b"

definition state_at :: "bits \<Rightarrow> (nat \<Rightarrow> board_in) \<Rightarrow> board \<Rightarrow> nat \<Rightarrow> board" where
  "state_at X I b n = run (board_clk X) (upto_clock I n) b"

text \<open>The transmitter becomes free again and again, and the host answers every request at some time.\<close>

definition transmitter_frees :: "bits \<Rightarrow> (nat \<Rightarrow> board_in) \<Rightarrow> board \<Rightarrow> bool" where
  "transmitter_frees X I b \<longleftrightarrow>
     (\<forall>n. \<exists>k \<ge> n. \<not> uart_tx_busy (I k) \<and> \<not> tx_en (packet_sender (state_at X I b k)))"

definition host_answers :: "bits \<Rightarrow> byte list \<Rightarrow> host \<Rightarrow> (nat \<Rightarrow> board_in) \<Rightarrow> board \<Rightarrow> bool" where
  "host_answers X bs h I b \<longleftrightarrow>
     (\<forall>n. answered X bs h (upto_clock I n) b)
     \<and> (\<forall>n. \<exists>k. prefix (bs @ answers (requests_upto X I b n) h) (bytes_of_line (map rx (upto_clock I k))))"

section \<open>The sender comes back\<close>

definition send_left :: "sender \<Rightarrow> nat" where
  "send_left s =
     (case sender.S s of
        sender_state.IDLE \<Rightarrow> 0
      | SENDING_WRITE \<Rightarrow> 39 - unat (sender.counter s)
      | _ \<Rightarrow> 3 - unat (sender.counter s))"

lemma send_left_0:
  assumes "traffic_ok may b"
  shows "send_left (packet_sender b) = 0 \<longleftrightarrow> sender.S (packet_sender b) = sender_state.IDLE"
  using assms by (cases "sender.S (packet_sender b)") (auto simp: send_left_def traffic_ok_def count_word)

lemma send_left_step:
  assumes "traffic_ok may b" and "sender.S (packet_sender b) \<noteq> sender_state.IDLE"
    and "tx_busyn (board_sender_in i b) (packet_sender b)"
  shows "send_left (packet_sender (board_step E X i b)) < send_left (packet_sender b)"
  using assms
  by (cases "sender.S (packet_sender b)")
    (auto simp: send_left_def traffic_ok_def board_step_def sender_defs count_word)

lemma send_left_waits:
  "\<not> tx_busyn (board_sender_in i b) (packet_sender b) \<Longrightarrow>
     send_left (packet_sender (board_step E X i b)) = send_left (packet_sender b)"
  by (simp add: send_left_def board_step_def sender_clk_def clear_outputs_def Let_def cong: sender_state.case_cong)

text \<open>If something happens again and again and shrinks a measure until it is zero, it happens again and again
  while the measure is zero.\<close>

lemma again_at_zero:
  fixes f :: "nat \<Rightarrow> nat"
  assumes again: "\<forall>n. \<exists>k \<ge> n. P k" and step: "\<And>k. P k \<Longrightarrow> f k \<noteq> 0 \<Longrightarrow> f (Suc k) < f k"
    and waits: "\<And>k. \<not> P k \<Longrightarrow> f (Suc k) = f k"
  shows "\<exists>k \<ge> n. P k \<and> f k = 0"
proof (induction "f n" arbitrary: n rule: less_induct)
  case less
  define k where "k = (LEAST k. k \<ge> n \<and> P k)"
  obtain k0 where "k0 \<ge> n \<and> P k0" using again by blast
  then have k: "k \<ge> n \<and> P k" unfolding k_def by (rule LeastI)
  have before: "\<not> P j" if "n \<le> j" "j < k" for j using not_less_Least [of j "\<lambda>k. k \<ge> n \<and> P k"] that unfolding k_def by blast
  have same: "n + d \<le> k \<Longrightarrow> f (n + d) = f n" for d
    by (induction d) (use before waits in auto)
  have "n + (k - n) = k" using k by simp
  then have fk: "f k = f n" using same [of "k - n"] by simp
  show ?case
  proof (cases "f k = 0")
    case False
    then have "f (Suc k) < f n" using step [of k] k fk by simp
    then obtain k' where "k' \<ge> Suc k" "P k' \<and> f k' = 0" using less by blast
    then show ?thesis using k by (intro exI [of _ k']) simp
  qed (use k in blast)
qed

section \<open>A working board\<close>

definition working :: "icache_mem \<Rightarrow> bits \<Rightarrow> bits \<Rightarrow> bool \<Rightarrow> (nat \<Rightarrow> board_in) \<Rightarrow> board \<Rightarrow> host \<Rightarrow> bool" where
  "working m dat X may I b h \<longleftrightarrow>
     loop_start m dat b h \<and> length X = 288 \<and> (\<forall>n. transmitter_ok (board_clk X) may (upto_clock I n) b)
     \<and> transmitter_frees X I b \<and> host_answers X [] h I b"

abbreviation work_step :: "icache_mem \<Rightarrow> bits \<Rightarrow> bits \<Rightarrow> board_in \<Rightarrow> board \<Rightarrow> board" where
  "work_step m dat X \<equiv> board_step (top_env m dat) X"

lemma working_run:
  assumes w: "working m dat X may I b h"
  shows "state_at X I b n = run (work_step m dat X) (upto_clock I n) b"
    and "trace (board_clk X) f (upto_clock I n) b = trace (work_step m dat X) f (upto_clock I n) b"
    and "transmitter_ok (work_step m dat X) may (upto_clock I n) b"
    and "length (trace (work_step m dat X) (\<lambda>i. tiles_in) (upto_clock I n) b) \<le> 510"
    and "relu_env (top_env m dat)" and "resting b"
    and "loop_start m dat b h" and "length X = 288" and "transmitter_ok (board_clk X) may (upto_clock I n) b"
    and "answered X [] h (upto_clock I n) b"
proof -
  show s: "loop_start m dat b h" "length X = 288" "transmitter_ok (board_clk X) may (upto_clock I n) b"
    "answered X [] h (upto_clock I n) b"
    using w by (simp_all add: working_def host_answers_def)
  show "relu_env (top_env m dat)" and r: "resting b" using s(1) by (simp_all add: loop_start_def)
  have st: "started m dat b" using s(1) by (simp add: loop_start_def)
  note f = loop_facts [OF s]
  note same = started_run [OF st f(1)]
  show "state_at X I b n = run (work_step m dat X) (upto_clock I n) b" unfolding state_at_def by (rule same(1))
  show "trace (board_clk X) f (upto_clock I n) b = trace (work_step m dat X) f (upto_clock I n) b" by (rule same(2))
  show "transmitter_ok (work_step m dat X) may (upto_clock I n) b" using s(3) by (simp only: same(3))
  show "length (trace (work_step m dat X) (\<lambda>i. tiles_in) (upto_clock I n) b) \<le> 510" using f(2) by simp
qed

lemma working_step: "working m dat X may I b h \<Longrightarrow> state_at X I b (Suc n) = work_step m dat X (I n) (state_at X I b n)"
  using working_run(1) [of m dat X may I b h n] working_run(1) [of m dat X may I b h "Suc n"] by (simp add: run_snoc)

lemma working_traffic:
  assumes w: "working m dat X may I b h"
  obtains now where "traffic_ok now (state_at X I b n)" and "uart_tx_busy (I n) \<longrightarrow> now"
proof -
  note r = working_run [OF w]
  have "traffic_ok (may_be_busy (work_step m dat X) may (upto_clock I n) b) (state_at X I b n)"
    using board_traffic [OF r(5,6,4,3) r(1) refl] by blast
  moreover have "uart_tx_busy (I n) \<longrightarrow> may_be_busy (work_step m dat X) may (upto_clock I n) b"
    using r(3) [of "Suc n"] by (simp add: transmitter_snoc)
  ultimately show thesis by (rule that)
qed

text \<open>Again and again the sender may begin a packet.\<close>

definition may_begin :: "bits \<Rightarrow> (nat \<Rightarrow> board_in) \<Rightarrow> board \<Rightarrow> nat \<Rightarrow> bool" where
  "may_begin X I b k \<longleftrightarrow>
     tx_busyn (board_sender_in (I k) (state_at X I b k)) (packet_sender (state_at X I b k))
     \<and> sender.S (packet_sender (state_at X I b k)) = sender_state.IDLE"

lemma begins_again:
  assumes w: "working m dat X may I b h"
  shows "\<exists>k \<ge> n. may_begin X I b k"
proof -
  let ?s = "state_at X I b" and ?P = "\<lambda>k. tx_busyn (board_sender_in (I k) (state_at X I b k)) (packet_sender (state_at X I b k))"
  have zero: "send_left (packet_sender (?s k)) = 0 \<longleftrightarrow> sender.S (packet_sender (?s k)) = sender_state.IDLE" for k
    by (rule working_traffic [OF w, of k]) (rule send_left_0)
  have "\<forall>n. \<exists>k \<ge> n. ?P k"
    using w by (simp add: working_def transmitter_frees_def tx_busyn_def board_sender_in_def conj_commute)
  moreover have "send_left (packet_sender (?s (Suc k))) < send_left (packet_sender (?s k))"
    if "?P k" "send_left (packet_sender (?s k)) \<noteq> 0" for k
    using that zero [of k] by (rule_tac working_traffic [OF w, of k]) (auto simp: working_step [OF w] intro: send_left_step)
  moreover have "send_left (packet_sender (?s (Suc k))) = send_left (packet_sender (?s k))" if "\<not> ?P k" for k
    using that by (simp add: working_step [OF w] send_left_waits)
  ultimately obtain k where "k \<ge> n" "?P k" "send_left (packet_sender (?s k)) = 0"
    using again_at_zero [of ?P "\<lambda>k. send_left (packet_sender (?s k))" n] by blast
  then show ?thesis using zero unfolding may_begin_def by blast
qed

section \<open>The control unit\<close>

text \<open>The control unit runs through the program without a stall.\<close>

lemma working_core:
  assumes w: "working m dat X may I b h"
  shows "control (board_device (state_at X I b n)) = unit_at (top_env m dat) 16 (control (board_device b)) n"
    and "\<not> stall_push (queue (front (machine (state_at X I b n))))"
proof -
  let ?E = "top_env m dat" and ?c = "front (machine b)"
  note r = working_run [OF w]
  have top: "device_start (dev ?c)" "iq_start (queue ?c)" using r(6) by (simp_all add: resting_def top_start_def)
  then have u: "waiting (control (dev ?c))" by (simp add: device_start_def)
  define cs where "cs n = core_ins ?E 16 X (top_ins ?E X (upto_clock I n) b) (machine b)" for n
  have len: "length (cs n) = n" for n
  proof -
    have "length (trace (work_step m dat X) (\<lambda>i b. [board_top_in b]) js s) = length js" for js s
      by (induction js arbitrary: s) simp_all
    moreover have "length (core_ins ?E 16 X js s) = length js" for js s
      unfolding core_ins_def by (induction js arbitrary: s) simp_all
    ultimately show ?thesis by (simp add: cs_def top_ins_def)
  qed
  have front: "front (machine (state_at X I b n)) = run (core_clk ?E 16) (cs n) ?c" for n
    unfolding r(1) machine_run(1) core_run cs_def ..
  note full = relu_never_full [OF r(5) top(1)]
  have sched: "on_schedule ?E 16 (cs n) ?c" for n
    by (rule on_schedule_run [OF top relu_early [OF r(5) u] full])
  then have ins: "map fst (device_ins ?E 16 (cs n) ?c) = replicate n False" for n
    by (simp add: on_schedule_def Let_def len)
  show "control (board_device (state_at X I b n)) = unit_at ?E 16 (control (board_device b)) n"
    using control_on_schedule [OF full, of "cs n"] ins by (simp add: board_device_def front len)
  have "cs (Suc n) = cs n @ [(dma_busy (board_top_in (state_at X I b n)) (machine (state_at X I b n)),
      top_in.dma_send_read_queue_re (board_top_in (state_at X I b n)))]"
    unfolding cs_def r(1) machine_run(1) by (simp add: top_ins_def core_ins_def trace_snoc)
  then have "last (map fst (device_ins ?E 16 (cs (Suc n)) ?c)) = stall_push (queue (front (machine (state_at X I b n))))"
    by (simp add: device_ins_def trace_snoc front)
  then show "\<not> stall_push (queue (front (machine (state_at X I b n))))"
    unfolding ins by (metis last_replicate nat.distinct(1))
qed

text \<open>After its clocks the control unit is silent.\<close>

lemma quiet_unit:
  assumes w: "working m dat X may I b h" and n: "163 \<le> n"
  shows "\<not> prefetch_command_we (board_device (state_at X I b n))" and "pushed (control (board_device (state_at X I b n))) = []"
proof -
  let ?E = "top_env m dat" and ?u = "control (board_device b)"
  note r = working_run [OF w]
  have u: "waiting ?u" using r(6) by (simp add: resting_def top_start_def device_start_def board_device_def)
  have silent: "pushed (unit_at ?E 16 ?u t) = []" if t: "162 \<le> t" for t
  proof -
    obtain k where k: "t = Suc k" "161 \<le> k" by (rule that [of "t - 1"]) (use t in simp_all)
    then have "pushes_by ?E 16 ?u (Suc k) = pushes_by ?E 16 ?u k"
      using relu_all_pushes [OF r(5) u, of k] relu_all_pushes [OF r(5) u, of "Suc k"] by simp
    then show ?thesis using k(1) by (simp add: unit_at_simps(4))
  qed
  show "pushed (control (board_device (state_at X I b n))) = []"
    unfolding working_core(1) [OF w] using n by (intro silent) simp
  obtain k where k: "n = Suc k" "162 \<le> k" by (rule that [of "n - 1"]) (use n in simp_all)
  have "pushed (control (board_device (state_at X I b k))) = []"
    unfolding working_core(1) [OF w] using k by (intro silent) simp
  then have "\<not> queue_we (control (board_device (state_at X I b k)))" by (simp add: pushed_def split: if_splits)
  then have "prefetch_command (control (board_device (state_at X I b k))) = None" by (simp add: prefetch_command_def)
  then show "\<not> prefetch_command_we (board_device (state_at X I b n))"
    unfolding k(1) working_step [OF w] by (simp add: board_device_def board_step_def top_clk_def core_clk_def device_clk_def)
qed

section \<open>Progress\<close>

lemma reaches:
  fixes f :: "nat \<Rightarrow> nat"
  assumes "\<And>n. n0 \<le> n \<Longrightarrow> f n < c \<Longrightarrow> \<exists>k \<ge> n. f n < f k"
  shows "\<exists>k \<ge> n0. c \<le> f k"
proof -
  have "\<exists>k \<ge> n0. d \<le> f k" if "d \<le> c" for d
    using that
  proof (induction d)
    case (Suc d)
    then obtain k where k: "k \<ge> n0" "d \<le> f k" by auto
    show ?case
    proof (cases "f k < c")
      case True
      then obtain k' where "k' \<ge> k" "f k < f k'" using assms k(1) by blast
      then show ?thesis using k by (intro exI [of _ k']) simp
    qed (use k Suc.prems in \<open>auto intro!: exI [of _ k]\<close>)
  qed auto
  then show ?thesis by blast
qed

lemma upto_split: "m \<le> n \<Longrightarrow> upto_clock I n = upto_clock I m @ map I [m..<n]"
  by (metis le0 le_add_diff_inverse map_append upt_add_eq_append)

text \<open>What has passed through the queues.\<close>

abbreviation passed :: "icache_mem \<Rightarrow> bits \<Rightarrow> bits \<Rightarrow> (board \<Rightarrow> 'a list) \<Rightarrow> (nat \<Rightarrow> board_in) \<Rightarrow> board \<Rightarrow> nat \<Rightarrow> 'a list" where
  "passed m dat X f I b n \<equiv> trace (work_step m dat X) (\<lambda>i. f) (upto_clock I n) b"

lemma passed_mono: "k \<le> n \<Longrightarrow> length (passed m dat X f I b k) \<le> length (passed m dat X f I b n)"
  by (simp add: upto_split [of k n] trace_append)

lemma requests_split:
  "k \<le> n \<Longrightarrow> requests_upto X I b n = requests_upto X I b k @ trace (board_clk X) board_requests (map I [k..<n]) (state_at X I b k)"
  by (simp add: upto_split [of k n] trace_append requests_upto_def state_at_def)

lemma requests_Suc: "requests_upto X I b (Suc n) = requests_upto X I b n @ board_requests (I n) (state_at X I b n)"
  by (simp add: requests_upto_def state_at_def trace_snoc)

lemma working_lists:
  assumes w: "working m dat X may I b h"
  shows "passed m dat X tiles_out I b n @ contents (l3_cache (state_at X I b n)) = passed m dat X tiles_in I b n"
    and "passed m dat X writes_out I b n @ contents (mem_write_command (state_at X I b n)) = passed m dat X writes_in I b n"
    and "length (passed m dat X ends_out I b n) + length (contents (prog_complete_message (state_at X I b n)))
       = length (passed m dat X ends_in I b n)"
    and "smplfifo_ok (l3_cache (state_at X I b n))" and "smplfifo_ok (mem_write_command (state_at X I b n))"
    and "smplfifo_ok (prog_complete_message (state_at X I b n))"
    and "\<not> will_overflow (mem_write_command (state_at X I b n))" and "\<not> will_overflow (prog_complete_message (state_at X I b n))"
    and "length (passed m dat X writes_in I b n) \<le> 128" and "length (passed m dat X tiles_out I b n) \<le> 128"
    and "length (passed m dat X ends_in I b n) \<le> 1"
    and "length (request_writes (requests_upto X I b n)) = length (passed m dat X writes_out I b n)"
    and "length (request_ends (requests_upto X I b n)) = length (passed m dat X ends_out I b n)
       + of_bool (dma_send_end_program_queue_re (packet_sender (state_at X I b n)))"
proof -
  note r = working_run(1-4) [OF w, where n = n] working_run(5-8) [OF w] working_run(9,10) [OF w, where n = n]
  note l = board_lists [OF r(5,6,4) r(1) refl refl] and t = board_traffic [OF r(5,6,4,3) r(1) refl]
  show "passed m dat X tiles_out I b n @ contents (l3_cache (state_at X I b n)) = passed m dat X tiles_in I b n"
    "passed m dat X writes_out I b n @ contents (mem_write_command (state_at X I b n)) = passed m dat X writes_in I b n"
    "length (passed m dat X ends_out I b n) + length (contents (prog_complete_message (state_at X I b n)))
       = length (passed m dat X ends_in I b n)"
    "smplfifo_ok (l3_cache (state_at X I b n))" "smplfifo_ok (mem_write_command (state_at X I b n))"
    "smplfifo_ok (prog_complete_message (state_at X I b n))"
    "\<not> will_overflow (mem_write_command (state_at X I b n))" "\<not> will_overflow (prog_complete_message (state_at X I b n))"
    "length (passed m dat X tiles_out I b n) \<le> 128" "length (passed m dat X ends_in I b n) \<le> 1"
    by (rule l(6) l(7) l(8) l(9) l(10) l(11) l(12) l(13) l(3) l(4))+
  show "length (passed m dat X writes_in I b n) \<le> 128" using l(2,3) by linarith
  have q: "requests_upto X I b n = trace (work_step m dat X) board_requests (upto_clock I n) b"
    unfolding requests_upto_def by (rule r(2))
  show "length (request_writes (requests_upto X I b n)) = length (passed m dat X writes_out I b n)"
    "length (request_ends (requests_upto X I b n)) = length (passed m dat X ends_out I b n)
       + of_bool (dma_send_end_program_queue_re (packet_sender (state_at X I b n)))"
    unfolding q using t by simp_all
qed

lemma working_system:
  assumes w: "working m dat X may I b h"
  shows "system_ok (board_system (state_at X I b n))"
proof -
  let ?E = "top_env m dat"
  note r = working_run(1-4) [OF w, where n = n] working_run(5-8) [OF w] working_run(9,10) [OF w, where n = n]
  have s: "system_start (board_system b)"
    using r(6) by (simp add: resting_def top_start_def system_start_def board_system_def board_device_def)
  have c: "counts_ok (trace (system_clk ?E 16) (system_pushes ?E 16) (system_ins ?E X (upto_clock I n) b) (board_system b))"
    unfolding system_pushes_def front_run(2) using relu_prefix(1) [OF r(5)] s by (simp add: system_start_def)
  have wide: "\<forall>t \<in> set (trace (work_step m dat X) (\<lambda>i. tiles_in) (upto_clock I n) b). length t = 288"
    by (rule loop_facts(3) [OF r(7-10)])
  show ?thesis
    using system_queue.run_conserves [of "board_system b" ?E 16 "system_ins ?E X (upto_clock I n) b"]
      system_start_ok [OF s] c board_wide [OF r(5,6,4,3) wide r(8)]
    by (simp add: always_input_ok r(1) system_run(1))
qed

lemma passed_Suc:
  assumes w: "working m dat X may I b h"
  shows "passed m dat X f I b (Suc n) = passed m dat X f I b n @ f (state_at X I b n)"
  by (simp add: trace_snoc working_run(1) [OF w])

section \<open>All rows are requested\<close>

text \<open>Once the program has run, what is left to be read is in the prefetch queue.\<close>

lemma working_reads:
  assumes w: "working m dat X may I b h" and n: "163 \<le> n"
  shows "length (read_addresses (requests_upto X I b n)) < 128 \<longleftrightarrow> emptyn (prefetch (board_device (state_at X I b n)))"
    and "length (read_addresses (requests_upto X I b n)) \<le> 128"
proof -
  let ?E = "top_env m dat" and ?d = "board_device (state_at X I b n)" and ?js = "system_ins (top_env m dat) X (upto_clock I n) b"
  let ?is = "trace (system_clk (top_env m dat) 16) (\<lambda>i s. [front_input i s]) ?js (board_system b)"
  note r = working_run(1-4) [OF w, where n = n] working_run(5-8) [OF w] working_run(9,10) [OF w, where n = n]
  have d: "device_start (system.front (board_system b))"
    using r(6) by (simp add: resting_def top_start_def board_system_def board_device_def)
  have dev: "?d = run (device_clk ?E 16) ?is (system.front (board_system b))"
    using system_run(1) [of ?E X "upto_clock I n" b] front_run(1) [of ?E 16 ?js "board_system b"] r(1)
    by (metis board_system_def system.select_convs(1))
  have a: "read_addresses (requests_upto X I b n) = map ucast (trace (device_clk ?E 16) device_reads ?is (system.front (board_system b)))"
    unfolding requests_upto_def r(2) requests_run(1) read_addresses_trace unfolding system_reads_def front_run(2) ..
  have stalls: "map fst ?is = replicate n False"
  proof -
    have "map fst ?is = map (\<lambda>k. stall_push (queue (front (machine (state_at X I b k))))) [0..<n]"
    proof (induction n)
      case (Suc n)
      have "system_ins ?E X (upto_clock I (Suc n)) b
          = system_ins ?E X (upto_clock I n) b @ [board_system_in (I n) (state_at X I b n)]"
        by (simp add: system_ins_def trace_snoc working_run(1) [OF w])
      then show ?case using Suc by (simp add: trace_snoc front_input_def board_system_in_def)
    qed (simp add: system_ins_def)
    also have "\<dots> = map (\<lambda>k. False) [0..<n]" using working_core(2) [OF w] by simp
    finally show ?thesis by (simp add: map_replicate_const)
  qed
  have "length (filter (Not \<circ> fst) ?is) = length (filter Not (map fst ?is))" by (simp add: filter_map)
  then have "161 \<le> length (filter (Not \<circ> fst) ?is)" using n by (simp add: stalls)
  then have all: "trace (device_clk ?E 16) device_reads ?is (system.front (board_system b)) @ in_device ?d = map of_nat [0..<128]"
    unfolding dev by (rule relu_requests_input [OF r(5) d])
  have "prefetch_command_we ?d = False \<and> pushed (control ?d) = []"
    using quiet_unit [OF w n] by simp
  then have "in_device ?d = outstanding (prefetch ?d)" by (simp add: in_device_def device_write_def fifo_ins_def)
  then have len: "length (read_addresses (requests_upto X I b n)) + length (outstanding (prefetch ?d)) = 128"
    using arg_cong [OF all, of length] by (simp add: a)
  have ok: "fifo_ok (prefetch ?d)" using working_system [OF w, of n] by (simp add: system_ok_def device_ok_def board_system_def)
  have "outstanding (prefetch ?d) \<noteq> [] \<longleftrightarrow> emptyn (prefetch ?d)"
    using fifo_read_ok(2) [OF ok] pending_Nil [of "prefetch ?d"] by (metis concat.simps(1) drop_Nil list.distinct(1) list.simps(8) outstanding_def)
  then show "length (read_addresses (requests_upto X I b n)) < 128 \<longleftrightarrow> emptyn (prefetch ?d)"
    "length (read_addresses (requests_upto X I b n)) \<le> 128"
    using len by (metis add_cancel_right_right length_0_conv less_irrefl less_add_same_cancel1 length_greater_0_conv, linarith)
qed

lemma sender_begins:
  assumes "may_begin X I b k" and w: "working m dat X may I b h"
  shows "packet_sender (state_at X I b (Suc k))
     = sender_idle (board_sender_in (I k) (state_at X I b k)) (clear_outputs (packet_sender (state_at X I b k)))"
  using assms(1) by (simp add: may_begin_def working_step [OF w] board_step_def sender_clk_def Let_def)

lemma requests_grow:
  "k \<le> n \<Longrightarrow> length (read_addresses (requests_upto X I b k)) \<le> length (read_addresses (requests_upto X I b n))"
  "k \<le> n \<Longrightarrow> length (request_writes (requests_upto X I b k)) \<le> length (request_writes (requests_upto X I b n))"
  by (simp_all add: requests_split [of k n])

lemma all_requested:
  assumes w: "working m dat X may I b h"
  shows "\<exists>N \<ge> 163. \<forall>n \<ge> N. length (read_addresses (requests_upto X I b n)) = 128"
proof -
  let ?R = "\<lambda>n. length (read_addresses (requests_upto X I b n))"
  have "\<exists>k \<ge> n. ?R n < ?R k" if n: "163 \<le> n" "?R n < 128" for n
  proof -
    obtain k where k: "k \<ge> n" "may_begin X I b k" using begins_again [OF w] by blast
    let ?s = "state_at X I b k" and ?s' = "state_at X I b (Suc k)"
    show ?thesis
    proof (cases "?R n < ?R k")
      case False
      then have "?R k < 128" using n(2) by simp
      then have "emptyn (prefetch (board_device ?s))" using working_reads(1) [OF w, of k] n(1) k(1) by simp
      then have "sender.dma_send_read_queue_re (packet_sender ?s')"
        using sender_begins [OF k(2) w] by (simp add: sender_idle_def board_sender_in_def)
      moreover from this have "emptyn (prefetch (board_device ?s'))"
        using working_system [OF w, of "Suc k"] by (simp add: system_ok_def board_system_def)
      ultimately have "length (taken_reads (board_system_in (I (Suc k)) ?s') (board_system ?s')) = 1"
        by (simp add: taken_reads_def device_reads_def fifo_outs_def front_input_def board_system_def)
      then have "length (read_addresses (board_requests (I (Suc k)) ?s')) = 1"
        by (auto simp: board_requests_def taken_def sender_takes_def taken_reads_def length_Suc_conv)
      then have "?R (Suc k) < ?R (Suc (Suc k))" by (simp add: requests_Suc [of X I b "Suc k"])
      then have "?R n < ?R (Suc (Suc k))" using requests_grow(1) [of n "Suc k" X I b] k(1) by simp
      then show ?thesis using k(1) by (intro exI [of _ "Suc (Suc k)"]) simp
    qed (use k(1) in blast)
  qed
  then obtain N where N: "N \<ge> 163" "128 \<le> ?R N" using reaches [of 163 ?R 128] by blast
  have "?R n = 128" if "n \<ge> N" for n
    using requests_grow(1) [OF that, of X I b] working_reads(2) [OF w, of n] N that by simp
  then show ?thesis using N(1) by blast
qed

section \<open>All tiles arrive\<close>

lemma all_arrived:
  assumes w: "working m dat X may I b h"
  shows "\<exists>N \<ge> 163. \<forall>n \<ge> N. length (passed m dat X tiles_in I b n) = 128"
proof -
  note f = loop_facts [OF working_run(7,8,9,10) [OF w]]
  have l: "loop_start m dat b h" by (rule working_run(7) [OF w])
  then have h: "rows_ok h" "length (pinned_mem h) = 128" and rec: "receiver.S (packet_receiver b) = receiver_state.IDLE" "widths_ok (packet_receiver b)"
    by (simp_all add: loop_start_def)
  obtain n where n: "length (read_addresses (requests_upto X I b n)) = 128" using all_requested [OF w] by blast
  let ?rqs = "requests_upto X I b n"
  have step: "in_step 0 0 ?rqs" using f(5) by (simp add: requests_upto_def)
  have tiles: "length (fst (receive (packet_receiver b) (map Some (answers ?rqs h)))) = 128"
    using receive_answers [OF h(1) in_step_ok [OF step h(2)] rec] in_step_tiles [OF step, of h "pinned_mem h"] n
    by (simp add: without_ends_same)
  have "\<exists>k. prefix (answers ?rqs h) (bytes_of_line (map rx (upto_clock I k)))"
    using w by (simp add: working_def host_answers_def)
  then obtain k where "prefix (answers ?rqs h) (bytes_of_line (map rx (upto_clock I k)))" by blast
  then obtain rest where rest: "bytes_of_line (map rx (upto_clock I k)) = answers ?rqs h @ rest" by (auto simp: prefix_def)
  then have "128 \<le> length (fst (receive (packet_receiver b) (map rx (upto_clock I k))))"
    using receive_gaps(1) [OF rest, of "packet_receiver b"] tiles by (simp add: receive_append)
  moreover obtain k' where "k' \<le> length (read_addresses (requests_upto X I b k))"
    "fst (receive (packet_receiver b) (map rx (upto_clock I k))) = row_events h k'"
    using loop_run [OF working_run(7,8,9,10) [OF w], of k] by (auto simp: in_loop_def requests_upto_def)
  ultimately have k': "128 \<le> k'" "fst (receive (packet_receiver b) (map rx (upto_clock I k))) = row_events h k'"
    by (simp_all add: row_events_def)
  have "trace (board_clk X) (\<lambda>i. tiles_in) (upto_clock I k @ [I k]) b = map (\<lambda>j. row_tile (pinned_mem h ! j)) [0..<k']"
    by (rule loop_tiles [OF l _ k'(2)]) (use f(1) [of "Suc k"] in simp)
  moreover have "upto_clock I (Suc k) = upto_clock I k @ [I k]" by simp
  ultimately have "length (passed m dat X tiles_in I b (Suc k)) = k'"
    by (metis (no_types, lifting) diff_zero length_map length_upt working_run(2) [OF w])
  with k'(1) have "128 \<le> length (passed m dat X tiles_in I b (Suc k))" by simp
  then have "length (passed m dat X tiles_in I b i) = 128" if "Suc k \<le> i" for i
    using passed_mono [OF that, of m dat X tiles_in I b] f(2) [of i] by simp
  then show ?thesis by (intro exI [of _ "max 163 (Suc k)"]) simp
qed

section \<open>All rows are computed\<close>

lemma working_machine:
  assumes w: "working m dat X may I b h"
  shows "machine (state_at X I b n) = run (top_clk (top_env m dat) 16 X) (top_ins (top_env m dat) X (upto_clock I n) b) (machine b)"
    and "top_ins (top_env m dat) X (upto_clock I (Suc n)) b = top_ins (top_env m dat) X (upto_clock I n) b @ [board_top_in (state_at X I b n)]"
    and "\<forall>i \<in> set (top_ins (top_env m dat) X (upto_clock I n) b). \<not> send_write_packet_queue_full i"
    and "length (top_ins (top_env m dat) X (upto_clock I n) b) = n"
proof -
  show "machine (state_at X I b n) = run (top_clk (top_env m dat) 16 X) (top_ins (top_env m dat) X (upto_clock I n) b) (machine b)"
    unfolding working_run(1) [OF w] by (rule machine_run(1))
  show step: "top_ins (top_env m dat) X (upto_clock I (Suc n)) b = top_ins (top_env m dat) X (upto_clock I n) b @ [board_top_in (state_at X I b n)]" for n
    by (simp add: top_ins_def trace_snoc working_run(1) [OF w])
  have 0: "top_ins (top_env m dat) X (upto_clock I 0) b = []" by (simp add: top_ins_def)
  show "\<forall>i \<in> set (top_ins (top_env m dat) X (upto_clock I n) b). \<not> send_write_packet_queue_full i"
    by (induction n) (use 0 step working_lists(7) [OF w] in \<open>simp_all add: board_top_in_def\<close>)
  show "length (top_ins (top_env m dat) X (upto_clock I n) b) = n"
    by (induction n) (use 0 step in simp_all)
qed

text \<open>Nothing is frozen when all tiles are there: an instruction that still waited for one would be the 129th.\<close>

lemma never_frozen:
  assumes w: "working m dat X may I b h" and all: "length (passed m dat X tiles_in I b n) = 128"
  shows "\<not> dma_busy (board_top_in (state_at X I b n)) (machine (state_at X I b n))"
proof
  let ?s = "state_at X I b n" and ?js = "top_ins (top_env m dat) X (upto_clock I n) b"
  let ?i = "(board_top_in (state_at X I b n))\<lparr>L3_not_empty := True\<rparr>"
  assume busy: "dma_busy (board_top_in ?s) (machine ?s)"
  note l = working_lists [OF w, of n]
  have none: "\<not> o_empty_n (l3_cache ?s)" "L3_cache_read_enable (machine ?s)"
    using busy l(7,8) by (auto simp: dma_busy_def board_top_in_def)
  then have "contents (l3_cache ?s) = []" using outputs(1) [OF l(4)] by simp
  then have "length (passed m dat X tiles_out I b n) = 128" using l(1) all by (metis append_Nil2)
  then have before: "length (trace (top_clk (top_env m dat) 16 X) fetched ?js (machine b)) = 128" by (simp add: machine_traces)
  have "fetched ?i (machine ?s) = [L3_head ?i]"
    using none(2) l(7,8) by (simp add: fetched_def dma_busy_def board_top_in_def)
  then have "length (trace (top_clk (top_env m dat) 16 X) fetched (?js @ [?i]) (machine b)) = 129"
    using before by (simp add: trace_snoc working_machine(1) [OF w])
  moreover have "length (trace (top_clk (top_env m dat) 16 X) fetched (?js @ [?i]) (machine b)) \<le> 128"
    using relu_transfers [OF working_run(5) [OF w] _ refl refl, of "machine b" X "?js @ [?i]"] working_run(6) [OF w]
    by (simp add: resting_def)
  ultimately show False by simp
qed

lemma all_computed:
  assumes w: "working m dat X may I b h"
  shows "\<exists>N \<ge> 163. \<forall>n \<ge> N. length (passed m dat X writes_in I b n) = 128 \<and> length (passed m dat X ends_in I b n) = 1"
proof -
  let ?E = "top_env m dat"
  obtain N where N: "N \<ge> 163" "\<forall>n \<ge> N. length (passed m dat X tiles_in I b n) = 128" using all_arrived [OF w] by blast
  define xs where "xs = top_ins ?E X (upto_clock I N) b"
  define js where "js d = drop N (top_ins ?E X (upto_clock I (N + d)) b)" for d
  have js: "js 0 = []" "js (Suc d) = js d @ [board_top_in (state_at X I b (N + d))]" "top_ins ?E X (upto_clock I (N + d)) b = xs @ js d" for d
  proof -
    show "js 0 = []" by (simp add: js_def working_machine(4) [OF w])
    show "js (Suc d) = js d @ [board_top_in (state_at X I b (N + d))]"
      using working_machine(2) [OF w, of "N + d"] by (simp add: js_def working_machine(4) [OF w])
    have "take N (top_ins ?E X (upto_clock I (N + d)) b) = xs"
      by (induction d) (use working_machine(2,4) [OF w] in \<open>simp_all add: xs_def\<close>)
    then show "top_ins ?E X (upto_clock I (N + d)) b = xs @ js d" unfolding js_def by (metis append_take_drop_id)
  qed
  have run: "run (top_clk ?E 16 X) (js d) (run (top_clk ?E 16 X) xs (machine b)) = machine (state_at X I b (N + d))" for d
    unfolding working_machine(1) [OF w] js(3) run_append ..
  have "length (unfrozen_ins ?E 16 X (js d) (run (top_clk ?E 16 X) xs (machine b))) = d" for d
  proof (induction d)
    case (Suc d)
    have "\<not> dma_busy (board_top_in (state_at X I b (N + d))) (machine (state_at X I b (N + d)))"
      by (rule never_frozen [OF w]) (use N(2) in simp)
    then show ?case using Suc by (simp add: js(2) unfrozen_ins_def trace_snoc run)
  qed (simp add: js(1) unfrozen_ins_def)
  then have "318 < length (unfrozen_ins ?E 16 X (js 319) (run (top_clk ?E 16 X) xs (machine b)))" by simp
  moreover have "162 \<le> length xs" using N(1) by (simp add: xs_def working_machine(4) [OF w])
  moreover have "top_start (machine b)" using working_run(6) [OF w] by (simp add: resting_def)
  ultimately have all_done: "length (map fst (trace (top_clk ?E 16 X) written_back (xs @ js 319) (machine b))) = 128"
    "trace (top_clk ?E 16 X) program_ends (xs @ js 319) (machine b) = [()]"
    using relu_done [OF working_run(5) [OF w], of "machine b" xs X "js 319"] working_machine(3) [OF w, of "N + 319"]
    by (simp_all add: js(3))
  have "length (passed m dat X writes_in I b n) = 128 \<and> length (passed m dat X ends_in I b n) = 1" if n: "N + 319 \<le> n" for n
    using all_done passed_mono [OF n, of m dat X writes_in I b] passed_mono [OF n, of m dat X ends_in I b] working_lists(9,11) [OF w, of n]
    by (simp add: machine_traces js(3))
  then show ?thesis using N(1) by (intro exI [of _ "N + 319"]) simp
qed

section \<open>All rows are written\<close>

text \<open>When all rows are requested and computed, the sender has only writes and the end left.\<close>

lemma all_settled:
  assumes w: "working m dat X may I b h"
  shows "\<exists>N \<ge> 163. \<forall>n \<ge> N. length (passed m dat X writes_in I b n) = 128 \<and> length (passed m dat X ends_in I b n) = 1
     \<and> \<not> emptyn (prefetch (board_device (state_at X I b n)))"
proof -
  obtain N M where N: "N \<ge> 163" "\<forall>n \<ge> N. length (read_addresses (requests_upto X I b n)) = 128"
    and M: "\<forall>n \<ge> M. length (passed m dat X writes_in I b n) = 128 \<and> length (passed m dat X ends_in I b n) = 1"
    using all_requested [OF w] all_computed [OF w] by blast
  have "\<not> emptyn (prefetch (board_device (state_at X I b n)))" if "max N M \<le> n" for n
    using N that working_reads(1) [OF w, of n] by simp
  then show ?thesis using N(1) M by (intro exI [of _ "max N M"]) simp
qed

lemma all_written:
  assumes w: "working m dat X may I b h"
  shows "\<exists>N \<ge> 163. \<forall>n \<ge> N. length (request_writes (requests_upto X I b n)) = 128 \<and> contents (mem_write_command (state_at X I b n)) = []
     \<and> length (passed m dat X ends_in I b n) = 1 \<and> \<not> emptyn (prefetch (board_device (state_at X I b n)))"
proof -
  let ?W = "\<lambda>n. length (passed m dat X writes_out I b n)"
  obtain N where N: "N \<ge> 163" "\<forall>n \<ge> N. length (passed m dat X writes_in I b n) = 128 \<and> length (passed m dat X ends_in I b n) = 1
     \<and> \<not> emptyn (prefetch (board_device (state_at X I b n)))"
    using all_settled [OF w] by blast
  have "\<exists>k \<ge> n. ?W n < ?W k" if n: "N \<le> n" "?W n < 128" for n
  proof -
    obtain k where k: "k \<ge> n" "may_begin X I b k" using begins_again [OF w] by blast
    let ?s = "state_at X I b k" and ?s' = "state_at X I b (Suc k)"
    show ?thesis
    proof (cases "?W n < ?W k")
      case False
      then have "?W k < 128" using n(2) by simp
      then have "contents (mem_write_command ?s) \<noteq> []"
        using working_lists(2) [OF w, of k] N(2) n(1) k(1) by (metis append_Nil2 le_trans less_irrefl)
      then have "sender.dma_send_write_queue_re (packet_sender ?s')"
        using sender_begins [OF k(2) w] N(2) n(1) k(1) outputs(1) [OF working_lists(5) [OF w, of k]]
        by (simp add: sender_idle_def board_sender_in_def)
      moreover from this have "contents (mem_write_command ?s') \<noteq> []"
        by (rule_tac working_traffic [OF w, of "Suc k"]) (simp add: traffic_ok_def)
      ultimately have "length (writes_out ?s') = 1"
        using outputs(1) [OF working_lists(5) [OF w, of "Suc k"]] by (simp add: writes_out_def)
      then have "?W (Suc k) < ?W (Suc (Suc k))" unfolding passed_Suc [OF w, of writes_out "Suc k"] length_append by linarith
      then have "?W n < ?W (Suc (Suc k))" using passed_mono [of n "Suc k" m dat X writes_out I b] k(1) by simp
      then show ?thesis using k(1) by (intro exI [of _ "Suc (Suc k)"]) simp
    qed (use k(1) in blast)
  qed
  then obtain M where M: "M \<ge> N" "128 \<le> ?W M" using reaches [of N ?W 128] by blast
  have "?W n = 128 \<and> contents (mem_write_command (state_at X I b n)) = []" if n: "M \<le> n" for n
  proof -
    have "length (passed m dat X writes_in I b n) = 128" using N(2) M(1) n by simp
    then have "?W n + length (contents (mem_write_command (state_at X I b n))) = 128"
      using arg_cong [OF working_lists(2) [OF w, of n], of length] by (simp only: length_append)
    moreover have "128 \<le> ?W n" using passed_mono [OF n, of m dat X writes_out I b] M(2) by linarith
    ultimately show ?thesis by (simp add: contents_empty)
  qed
  then show ?thesis using N M(1) working_lists(12) [OF w] by (intro exI [of _ M]) simp
qed

section \<open>The end\<close>

lemma is_ended:
  assumes w: "working m dat X may I b h"
  shows "\<exists>n. request_ends (requests_upto X I b n) \<noteq> []"
proof -
  obtain N where N: "\<forall>n \<ge> N. contents (mem_write_command (state_at X I b n)) = []
     \<and> length (passed m dat X ends_in I b n) = 1 \<and> \<not> emptyn (prefetch (board_device (state_at X I b n)))"
    using all_written [OF w] by blast
  obtain k where k: "k \<ge> N" "may_begin X I b k" using begins_again [OF w] by blast
  let ?s = "state_at X I b k"
  note l = working_lists [OF w, of k]
  show ?thesis
  proof (cases "request_ends (requests_upto X I b k) = []")
    case True
    then have "length (contents (prog_complete_message ?s)) = 1" using l(3,13) N k(1) by simp
    then have "contents (prog_complete_message ?s) \<noteq> []" by (simp add: contents_empty)
    then have "sender_takes (board_sender_in (I k) ?s) (packet_sender ?s) = [OtherReq 4 0]"
      using k N outputs(1) [OF l(5)] outputs(1) [OF l(6)] by (simp add: may_begin_def sender_takes_def board_sender_in_def)
    then have "request_ends (board_requests (I k) ?s) \<noteq> []" unfolding taken_kinds by simp
    then show ?thesis by (intro exI [of _ "Suc k"]) (simp add: requests_Suc)
  qed blast
qed

lemma ended_once:
  assumes "qs @ [OtherReq 4 0] @ rest = qs' @ [OtherReq 4 0]" and "request_ends qs' = []"
  shows "rest = []"
proof (rule ccontr)
  assume "rest \<noteq> []"
  then have "qs' = qs @ OtherReq 4 0 # butlast rest" using assms(1) by (metis append_Cons append_Nil append_assoc append_butlast_last_id butlast_snoc)
  then show False using assms(2) by simp
qed

lemma working_end:
  assumes w: "working m dat X may I b h"
  obtains N qs where "\<forall>n \<ge> N. trace (board_clk X) board_byte (upto_clock I n) b = concat (map request_bytes qs) @ end_bytes"
    and "requests_upto X I b N = qs @ [OtherReq 4 0]" and "request_ends qs = []" and "length (request_writes qs) = 128"
proof -
  let ?q = "requests_upto X I b" and ?bytes = "\<lambda>n. trace (board_clk X) board_byte (upto_clock I n) b"
  have shape: "request_ends (?q n) = [] \<or>
      (\<exists>qs. ?q n = qs @ [OtherReq 4 0] \<and> request_ends qs = [] \<and> length (request_writes qs) = 128)" for n
    unfolding requests_upto_def by (rule board_end [OF working_run(7,8,9,10) [OF w] refl])
  obtain k where k: "request_ends (?q k) \<noteq> []" using is_ended [OF w] by blast
  then obtain qs where qs: "?q k = qs @ [OtherReq 4 0]" "request_ends qs = []" "length (request_writes qs) = 128" using shape by blast
  have stays: "?q n = ?q k" if n: "k \<le> n" for n
  proof -
    obtain rest where rest: "?q n = ?q k @ rest" using requests_split [OF n] by blast
    then have "request_ends (?q n) \<noteq> []" using k by simp
    then obtain qs' where "?q n = qs' @ [OtherReq 4 0]" "request_ends qs' = []" using shape by blast
    then show ?thesis using ended_once [of qs rest qs'] rest qs(1) by simp
  qed
  obtain N where N: "N \<ge> k" "may_begin X I b N" using begins_again [OF w] by blast
  have sent: "?bytes n @ board_owed (state_at X I b n) = concat (map request_bytes (?q n))" for n
    unfolding requests_upto_def state_at_def by (rule loop_writes(5) [OF working_run(7,8,9,10) [OF w] refl])
  have "board_owed (state_at X I b N) = []"
    using N(2) by (simp add: may_begin_def board_owed_def owed_def packet_left_def board_system_def)
  then have all: "?bytes N = concat (map request_bytes (?q k))" using sent [of N] stays [OF N(1)] by simp
  have ends: "request_bytes (OtherReq 4 0) = end_bytes" by (simp add: end_bytes_def addr_bytes_def)
  have "?bytes n = concat (map request_bytes qs) @ end_bytes" if n: "N \<le> n" for n
  proof -
    obtain rest where rest: "?bytes n = ?bytes N @ rest" unfolding upto_split [OF n] trace_append by blast
    have "?bytes n @ board_owed (state_at X I b n) = ?bytes N" using sent [of n] stays [of n] N(1) n all by simp
    then have "rest = []" unfolding rest by simp
    then show ?thesis using rest all ends by (simp add: qs(1) del: request_bytes.simps)
  qed
  then show thesis using that stays [OF N(1)] qs by metis
qed

lemma no_ends: "request_ends qs = [] \<Longrightarrow> without_ends (qs @ [OtherReq k a]) = qs"
  by (induction qs) (auto simp: without_ends_def request_ends_def split: request.splits)

text \<open>What the host is left with.\<close>

definition relu_done_by :: "bits \<Rightarrow> host \<Rightarrow> host \<Rightarrow> bool" where
  "relu_done_by X h h' \<longleftrightarrow>
     length (pinned_mem h') = 128
     \<and> (\<forall>j < 128. pinned_mem h' ! j = (if j < 32 then relu_row (pinned_mem h ! j) else map lane_f32 (lanes (bits_bytes X))))"

lemma working_result:
  assumes w: "working m dat X may I b h" and L: "libs_ok L"
  shows "\<exists>N. \<forall>n \<ge> N. \<forall>line. sock_ok line \<and> concat line = trace (board_clk X) board_byte (upto_clock I n) b \<longrightarrow>
     (\<exists>h' line'. serve L sock_recv h line = Some (Exited, h', line') \<and> concat line' = [] \<and> relu_done_by X h h')"
proof -
  have "loop_start m dat b h" by (rule working_run(7) [OF w])
  then have h: "rows_ok h" "length (pinned_mem h) = 128" by (simp_all add: loop_start_def)
  obtain N qs where N: "\<forall>n \<ge> N. trace (board_clk X) board_byte (upto_clock I n) b = concat (map request_bytes qs) @ end_bytes"
    and qs: "requests_upto X I b N = qs @ [OtherReq 4 0]" "request_ends qs = []" "length (request_writes qs) = 128"
    by (rule working_end [OF w])
  have step: "in_step 0 0 (qs @ [OtherReq 4 0])"
    using loop_facts(5) [OF working_run(7,8,9,10) [OF w], of N] by (simp add: requests_upto_def [symmetric] qs(1))
  have writes: "request_writes qs = map (\<lambda>a. WriteReq (of_nat a) (written_tile X (pinned_mem h) a)) [0..<128]"
    using loop_writes(1) [OF working_run(7,8,9,10) [OF w] refl, of N] by (simp add: requests_upto_def [symmetric] qs(1,3))
  have ok: "list_all (request_ok h) qs" using in_step_ok [OF step h(2)] by (simp add: no_ends [OF qs(2)])
  have "pinned_mem (fold apply_request qs h) ! j
      = (if j < 32 then relu_row (pinned_mem h ! j) else map lane_f32 (lanes (bits_bytes X)))" if j: "j < 128" for j
  proof -
    have "pinned_mem h ! j \<in> set (pinned_mem h)" using j h(2) by simp
    then have "length (pinned_mem h ! j) = 16" using h(1) by (simp add: rows_ok_def)
    then have "map lane_f32 (lanes (written_tile X (pinned_mem h) j))
        = (if j < 32 then relu_row (pinned_mem h ! j) else map lane_f32 (lanes (bits_bytes X)))"
      by (rule written_lanes)
    moreover have "in_step 0 0 qs" using step by (simp add: in_step_append)
    ultimately show ?thesis using j in_step_memory [of 0 0 qs h j] h(2) qs(3) by (simp add: writes)
  qed
  moreover have "length (pinned_mem (fold apply_request qs h)) = 128" using h(2) by simp
  ultimately have "relu_done_by X h (fold apply_request qs h)" by (simp add: relu_done_by_def)
  then show ?thesis
    using N serve_session [OF L h(1) _ ok, of _ "[]"] by (intro exI [of _ N]) (metis append_Nil2)
qed

end
