(* ===== verification/WholeProgram.thy ===== *)
theory WholeProgram
  imports WholeEnd
begin

text \<open>
  The whole program, from reset to the end of the host's loop: the clocks until the start command has arrived are
  put before the working board, and the prompt host shows that there are such runs.
\<close>

section \<open>The clocks before the program\<close>

abbreviation later :: "nat \<Rightarrow> (nat \<Rightarrow> board_in) \<Rightarrow> nat \<Rightarrow> board_in" where
  "later k I \<equiv> \<lambda>t. I (k + t)"

lemma upto_later: "upto_clock I (k + n) = upto_clock I k @ upto_clock (later k I) n"
  by (rule nth_equalityI) (simp_all add: nth_append)

lemma state_later: "state_at X I b (k + n) = state_at X (later k I) (state_at X I b k) n"
  by (simp only: state_at_def upto_later run_append)

lemma requests_later: "requests_upto X I b (k + n) = requests_upto X I b k @ requests_upto X (later k I) (state_at X I b k) n"
  by (simp only: requests_upto_def state_at_def upto_later trace_append)

lemma frees_later: "transmitter_frees X I b \<Longrightarrow> transmitter_frees X (later k I) (state_at X I b k)"
  unfolding transmitter_frees_def state_later [symmetric] by (metis le_Suc_ex add.assoc add_leD1 nat_add_left_cancel_le)

lemma answers_later:
  assumes host: "host_answers X bs h I b" and js: "bytes_of_line (map rx (upto_clock I k)) = bs" and none: "requests_upto X I b k = []"
  shows "host_answers X [] h (later k I) (state_at X I b k)"
  unfolding host_answers_def
proof (intro conjI allI)
  fix n
  have "answered X (bytes_of_line (map rx (upto_clock I k))) h (upto_clock I k @ upto_clock (later k I) n) b"
    using host unfolding host_answers_def js upto_later [symmetric] by blast
  then show "answered X [] h (upto_clock (later k I) n) (state_at X I b k)"
    using none unfolding state_at_def requests_upto_def by (rule answered_rest)
  let ?bytes = "\<lambda>n. bytes_of_line (map rx (upto_clock I n))" and ?A = "answers (requests_upto X (later k I) (state_at X I b k) n) h"
  have "requests_upto X I b (k + n) = requests_upto X (later k I) (state_at X I b k) n" by (simp only: requests_later none append_Nil)
  then obtain l where l: "prefix (bs @ ?A) (?bytes l)" using host unfolding host_answers_def by metis
  have "upto_clock I (k + l) = upto_clock I l @ map I [l..<k + l]" by (rule upto_split) simp
  then have "prefix (bs @ ?A) (?bytes (k + l))" using l by (simp only: map_append bytes_of_line_append prefix_prefix)
  moreover have "?bytes (k + l) = bs @ bytes_of_line (map rx (upto_clock (later k I) l))"
    by (simp only: upto_later map_append bytes_of_line_append js)
  ultimately show "\<exists>l. prefix ([] @ ?A) (bytes_of_line (map rx (upto_clock (later k I) l)))" by auto
qed

lemma working_later:
  assumes b: "board_start b" and X: "length X = 288" and tx: "\<forall>n. transmitter_ok (board_clk X) may (upto_clock I n) b"
    and frees: "transmitter_frees X I b" and host: "host_answers X start_bytes h I b"
    and h: "rows_ok h" "length (pinned_mem h) = 128"
  obtains k m dat may' where "working m dat X may' (later k I) (state_at X I b k) h"
    and "trace (board_clk X) board_byte (upto_clock I k) b = []"
proof -
  obtain l where "prefix (start_bytes @ answers (requests_upto X I b 0) h) (bytes_of_line (map rx (upto_clock I l)))"
    using host unfolding host_answers_def by metis
  then have l: "length start_bytes \<le> length (bytes_of_line (map rx (upto_clock I l)))"
    by (metis append_prefixD prefix_length_le)
  have answered: "answered X start_bytes h (upto_clock I (Suc l)) b" using host unfolding host_answers_def by blast
  show thesis
  proof (rule board_phases [OF b tx [rule_format] answered h])
    assume "length (bytes_of_line (map rx (butlast (upto_clock I (Suc l))))) < length start_bytes"
    then show thesis using l by simp
  next
    fix js ks m dat may'
    assume parts: "upto_clock I (Suc l) = js @ ks" and js: "bytes_of_line (map rx js) = start_bytes"
      and start: "loop_start m dat (run (board_clk X) js b) h" and none: "trace (board_clk X) board_requests js b = []"
        "trace (board_clk X) board_byte js b = []"
    define k where "k = length js"
    have "k \<le> Suc l" using arg_cong [OF parts, of length] by (simp add: k_def)
    then have k: "js = upto_clock I k"
      using arg_cong [OF parts, of "take k"] by (simp add: k_def take_map del: upt_Suc)
    have "transmitter_ok (board_clk X) (may_be_busy (board_clk X) may js b) (upto_clock (later k I) n) (state_at X I b k)" for n
      using tx [rule_format, of "k + n"] unfolding upto_later transmitter_append state_at_def k by blast
    moreover have "host_answers X [] h (later k I) (state_at X I b k)"
      by (rule answers_later [OF host]) (use js none in \<open>simp_all add: k requests_upto_def\<close>)
    ultimately have "working m dat X (may_be_busy (board_clk X) may js b) (later k I) (state_at X I b k) h"
      using start X frees_later [OF frees] unfolding working_def by (simp add: state_at_def k)
    then show thesis using that none(2) k by blast
  qed
qed

section \<open>From reset to the end\<close>

text \<open>C1. Cherry computes relu: from reset, with any board inputs in which the serial transmitter becomes free again
  and again and the host sends its two start packets and at some time everything it owes in answer to the
  requests begun so far, there is a clock from which on the bytes the board has sent are one complete session of the host,
  however the line cuts them: the host's loop exits with no byte left, and its memory holds relu of what it held, for
  the first 32 rows, and the unknown \<open>X\<close> of the too small cache in the others.\<close>

theorem board_finishes:
  assumes "upload_prog 0 6 h = Inr h1" and "start_prog 0 6 13 h1 = Inr h2" and "sent h = []"
    and "rows_ok h" and "length (pinned_mem h) = 128" and "libs_ok L"
    and "board_start b" and "length X = 288" and "\<forall>n. transmitter_ok (board_clk X) may (upto_clock I n) b"
    and "transmitter_frees X I b" and "host_answers X (sent h2) h2 I b"
  shows "\<exists>N. \<forall>n \<ge> N. \<forall>line. sock_ok line \<and> concat line = trace (board_clk X) board_byte (upto_clock I n) b \<longrightarrow>
     (\<exists>h' line'. serve L sock_recv h2 line = Some (Exited, h', line') \<and> concat line' = []
        \<and> length (pinned_mem h') = 128
        \<and> (\<forall>j < 128. pinned_mem h' ! j = (if j < 32 then relu_row (pinned_mem h ! j) else map lane_f32 (lanes (bits_bytes X)))))"
proof -
  have h2: "sent h2 = start_bytes" "pinned_mem h2 = pinned_mem h" using start_bytes_sent [OF assms(1,2)] assms(3) by simp_all
  have ok: "rows_ok h2" "length (pinned_mem h2) = 128" using assms(4,5) by (simp_all add: h2(2) rows_ok_def)
  obtain k m dat may' where w: "working m dat X may' (later k I) (state_at X I b k) h2"
    and none: "trace (board_clk X) board_byte (upto_clock I k) b = []"
    by (rule working_later [OF assms(7-10) assms(11) [unfolded h2(1)] ok])
  obtain N where N: "\<forall>n \<ge> N. \<forall>line. sock_ok line \<and> concat line = trace (board_clk X) board_byte (upto_clock (later k I) n) (state_at X I b k) \<longrightarrow>
     (\<exists>h' line'. serve L sock_recv h2 line = Some (Exited, h', line') \<and> concat line' = [] \<and> relu_done_by X h2 h')"
    using working_result [OF w assms(6)] by blast
  show ?thesis
  proof (rule exI [of _ "k + N"], intro allI impI)
    fix n line
    assume n: "k + N \<le> n" and line: "sock_ok line \<and> concat line = trace (board_clk X) board_byte (upto_clock I n) b"
    have "n = k + (n - k)" "N \<le> n - k" using n by simp_all
    then have "concat line = trace (board_clk X) board_byte (upto_clock (later k I) (n - k)) (state_at X I b k)"
      using line none by (metis append_Nil state_at_def trace_append upto_later)
    then show "\<exists>h' line'. serve L sock_recv h2 line = Some (Exited, h', line') \<and> concat line' = []
        \<and> length (pinned_mem h') = 128
        \<and> (\<forall>j < 128. pinned_mem h' ! j = (if j < 32 then relu_row (pinned_mem h ! j) else map lane_f32 (lanes (bits_bytes X))))"
      using N \<open>N \<le> n - k\<close> line unfolding relu_done_by_def h2(2) by blast
  qed
qed

section \<open>A run\<close>

lemma prompt_frees: "transmitter_frees X (prompt_in X bs h b) b"
  unfolding transmitter_frees_def
proof
  fix n
  let ?I = "prompt_in X bs h b" and ?s = "state_at X (prompt_in X bs h b) b n"
  have "tx_en (packet_sender ?s) \<Longrightarrow> \<not> tx_en (packet_sender (state_at X ?I b (Suc n)))"
    by (simp add: state_at_def run_snoc board_clk_def board_step_def sender_clk_def tx_busyn_def clear_outputs_def Let_def)
  then show "\<exists>k \<ge> n. \<not> uart_tx_busy (?I k) \<and> \<not> tx_en (packet_sender (state_at X ?I b k))"
    using not_busy by (metis le_Suc_eq order_refl)
qed

lemma prompt_host_answers: "host_answers X bs h (prompt_in X bs h b) b"
  unfolding host_answers_def prompt_upto requests_upto_def
  using prompt_answered [of X bs h b] prompt_answers [of X bs h b] unfolding prompt_owes_def prompt_sent_def by blast

text \<open>A memory whose rows are all ones and all minus ones by turns.\<close>

definition plus_minus :: host where
  "plus_minus = \<lparr>pinned_mem = map (\<lambda>j. replicate 16 (if even j then 0x3F800000 else 0xBF800000)) [0..<128], sent = []\<rparr>"

theorem board_finishes_witness:
  "\<exists>N. \<forall>n \<ge> N. \<forall>line. sock_ok line \<and> concat line = trace (board_clk (replicate 288 True)) board_byte
       (upto_clock (prompt_in (replicate 288 True) start_bytes (plus_minus\<lparr>sent := start_bytes\<rparr>) idle_board) n) idle_board \<longrightarrow>
     (\<exists>h' line'. serve std_libs sock_recv (plus_minus\<lparr>sent := start_bytes\<rparr>) line = Some (Exited, h', line')
        \<and> pinned_mem h' ! 8 = replicate 16 0x3F800000 \<and> pinned_mem h' ! 9 = replicate 16 0)"
proof -
  let ?X = "replicate 288 True" and ?h = "plus_minus\<lparr>sent := start_bytes\<rparr>" and ?I = "prompt_in (replicate 288 True) start_bytes (plus_minus\<lparr>sent := start_bytes\<rparr>) idle_board"
  have starts: "upload_prog 0 6 plus_minus = Inr (sendall (29 # 0 # 6 # relu_fast_prog_instructions) plus_minus)"
    "start_prog 0 6 13 (sendall (29 # 0 # 6 # relu_fast_prog_instructions) plus_minus) = Inr ?h"
    using host_starts by (simp_all add: sendall_def start_bytes_def plus_minus_def)
  have mem: "sent plus_minus = []" "rows_ok plus_minus" "length (pinned_mem plus_minus) = 128"
    by (auto simp: plus_minus_def rows_ok_def)
  have tx: "\<forall>n. transmitter_ok (board_clk ?X) False (upto_clock ?I n) idle_board"
    unfolding prompt_upto by (simp only: prompt_transmitter simp_thms)
  have "host_answers ?X (sent ?h) ?h ?I idle_board" using prompt_host_answers by simp
  then obtain N where N: "\<forall>n \<ge> N. \<forall>line. sock_ok line \<and> concat line = trace (board_clk ?X) board_byte (upto_clock ?I n) idle_board \<longrightarrow>
     (\<exists>h' line'. serve std_libs sock_recv ?h line = Some (Exited, h', line') \<and> concat line' = [] \<and> length (pinned_mem h') = 128
        \<and> (\<forall>j < 128. pinned_mem h' ! j = (if j < 32 then relu_row (pinned_mem plus_minus ! j) else map lane_f32 (lanes (bits_bytes ?X)))))"
    using board_finishes [OF starts mem libs_ok_std idle_board_start _ tx prompt_frees] by (metis length_replicate)
  have rows: "relu_row (pinned_mem plus_minus ! 8) = replicate 16 0x3F800000" "relu_row (pinned_mem plus_minus ! 9) = replicate 16 0"
    by code_simp+
  have small: "(8 :: nat) < 128" "(8 :: nat) < 32" "(9 :: nat) < 128" "(9 :: nat) < 32" by simp_all
  show ?thesis using N small rows by metis
qed

end
