(* ===== verification/Tools.thy ===== *)
theory Tools
  imports Complex_Main Prelude
begin

text \<open>
  Two small programs: makehex.py, which prints a file as the words of a hex file for \<^verbatim>\<open>$readmemh\<close>, and
  experiments/ex2/approxexp.py, which prints the coefficients of an approximation of \<open>2 ^ x\<close>.
\<close>

section \<open>makehex.py\<close>

definition hex_digit :: "nat \<Rightarrow> char" where
  "hex_digit n = ''0123456789abcdef'' ! n"

definition hexlify :: "byte list \<Rightarrow> string" where
  "hexlify bs = concat (map (\<lambda>b. [hex_digit (unat b div 16), hex_digit (unat b mod 16)]) bs)"

text \<open>The slices \<^verbatim>\<open>memory[i:i+4]\<close> for \<open>i\<close> in \<^verbatim>\<open>range(0, len(memory), 4)\<close>; the last may be shorter.\<close>

fun words4 :: "byte list \<Rightarrow> byte list list" where
  "words4 [] = []"
| "words4 (b # bs) = take 4 (b # bs) # words4 (drop 3 bs)"

fun join_lines :: "string list \<Rightarrow> string" where
  "join_lines [] = ''''"
| "join_lines [l] = l"
| "join_lines (l # m # ls) = l @ CHR 0x0A # join_lines (m # ls)"

definition makehex :: "byte list \<Rightarrow> string" where
  "makehex memory = join_lines (map (\<lambda>w. hexlify (rev w)) (words4 memory)) @ [CHR 0x0A]"

text \<open>What reads the file: the lines as hexadecimal numbers.\<close>

definition hex_value :: "char \<Rightarrow> nat" where
  "hex_value c = (let n = of_char c in if 97 \<le> n then n - 87 else n - 48)"

definition line_value :: "string \<Rightarrow> nat" where
  "line_value l = foldl (\<lambda>v c. 16 * v + hex_value c) 0 l"

definition split_lines :: "string \<Rightarrow> string list" where
  "split_lines s = fold (\<lambda>c ls. if c = CHR 0x0A then [] # ls else (hd ls @ [c]) # tl ls) s [[]]"

text \<open>The value of bytes with the least significant one first.\<close>

fun le_value :: "byte list \<Rightarrow> nat" where
  "le_value [] = 0"
| "le_value (b # bs) = unat b + 256 * le_value bs"

lemma hex_value_digit: "n < 16 \<Longrightarrow> hex_value (hex_digit n) = n"
proof -
  have "\<forall>n \<in> {0..<16}. hex_value (hex_digit n) = n" by code_simp
  then show "n < 16 \<Longrightarrow> hex_value (hex_digit n) = n" by simp
qed

lemma hex_digit_no_newline: "n < 16 \<Longrightarrow> hex_digit n \<noteq> CHR 0x0A"
proof -
  have "\<forall>n \<in> {0..<16}. hex_digit n \<noteq> CHR 0x0A" by code_simp
  then show "n < 16 \<Longrightarrow> hex_digit n \<noteq> CHR 0x0A" by simp
qed

lemma byte_digits: "unat (b :: byte) div 16 < 16" "unat b mod 16 < 16"
proof -
  have "unat b < 256" using unsigned_less [of b] by simp
  then show "unat b div 16 < 16" by (simp add: div_less_iff_less_mult)
qed simp

lemma hexlify_append: "hexlify (xs @ ys) = hexlify xs @ hexlify ys"
  by (simp add: hexlify_def)

lemma line_value_byte:
  "line_value (l @ hexlify [b]) = 256 * line_value l + unat b"
  using hex_value_digit [OF byte_digits(1), of b] hex_value_digit [OF byte_digits(2), of b]
  by (simp add: line_value_def hexlify_def algebra_simps)

lemma line_value_hexlify: "line_value (hexlify (rev w)) = le_value w"
proof (induction w)
  case Nil
  show ?case by (simp add: hexlify_def line_value_def)
next
  case (Cons b w)
  have "line_value (hexlify (rev (b # w))) = line_value (hexlify (rev w) @ hexlify [b])"
    by (simp add: hexlify_append)
  then show ?case using Cons by (simp only: line_value_byte le_value.simps add.commute)
qed

lemma no_newline: "CHR 0x0A \<notin> set (hexlify bs)"
  by (induction bs) (simp_all add: hexlify_def byte_digits hex_digit_no_newline [symmetric])

lemma split_plain:
  "CHR 0x0A \<notin> set l \<Longrightarrow>
     fold (\<lambda>c ls. if c = CHR 0x0A then [] # ls else (hd ls @ [c]) # tl ls) l (x # ls) = (x @ l) # ls"
  by (induction l arbitrary: x) auto

lemma split_joined:
  "\<forall>l \<in> set ls. CHR 0x0A \<notin> set l \<Longrightarrow> ls \<noteq> [] \<Longrightarrow>
     fold (\<lambda>c ls. if c = CHR 0x0A then [] # ls else (hd ls @ [c]) # tl ls) (join_lines ls @ [CHR 0x0A]) ([] # ks)
     = [] # rev ls @ ks"
proof (induction ls arbitrary: ks rule: join_lines.induct)
  case (2 l)
  then show ?case by (simp add: split_plain)
next
  case (3 l m ls)
  then show ?case using 3(1) [of "l # ks"] by (simp add: split_plain)
qed simp

lemma concat_words4: "concat (words4 bs) = bs"
  by (induction bs rule: words4.induct) simp_all

text \<open>The words of the file: every line of the hex file is the value of the next four bytes, least
  significant first, and nothing is lost; a file whose length is no multiple of four ends with a
  shorter word.  An empty file gives one empty line.\<close>

theorem makehex_words:
  "split_lines (makehex memory) =
     [] # rev (if memory = [] then [[]] else map (\<lambda>w. hexlify (rev w)) (words4 memory))
   \<and> map line_value (map (\<lambda>w. hexlify (rev w)) (words4 memory)) = map le_value (words4 memory)
   \<and> concat (words4 memory) = memory"
proof (cases memory)
  case Nil
  then show ?thesis by (simp add: split_lines_def makehex_def)
next
  case (Cons b bs)
  then have "map (\<lambda>w. hexlify (rev w)) (words4 memory) \<noteq> []" by simp
  then have "split_lines (makehex memory) = [] # rev (map (\<lambda>w. hexlify (rev w)) (words4 memory)) @ []"
    unfolding split_lines_def makehex_def by (intro split_joined) (auto simp: no_newline)
  then show ?thesis using Cons concat_words4 [of memory] by (simp add: line_value_hexlify del: words4.simps)
qed

section \<open>approxexp.py\<close>

definition c_0 :: int where "c_0 = 0x3f805123"
definition c_1 :: int where "c_1 = 0x3f26ab00"
definition c_2 :: int where "c_2 = 0x3eb020ea"

definition get_mantissa :: "int \<Rightarrow> int" where
  "get_mantissa val = and (drop_bit (23 - 9) val) 0x1FF"

definition c_0_fixed_point :: int where "c_0_fixed_point = get_mantissa c_0"
definition c_1_fixed_point :: int where "c_1_fixed_point = push_bit 1 (get_mantissa c_1)"
definition c_2_fixed_point :: int where "c_2_fixed_point = push_bit 2 (get_mantissa c_2)"

text \<open>The value of the bits of a positive normal single.\<close>

definition single_value :: "int \<Rightarrow> rat" where
  "single_value x = (1 + of_int (x mod 2 ^ 23) / 2 ^ 23) * 2 powi (x div 2 ^ 23 - 127)"

text \<open>The numbers it prints are not the fraction bits of the coefficients: the exponents of the second and
  third are \<open>-1\<close> and \<open>-2\<close>, and their mantissas are shifted to the left instead of to the right.  With the hidden
  bit and shifted to the right the mantissas are the coefficients in steps of 1/512.\<close>

theorem printed_coefficients:
  "(c_0_fixed_point, c_1_fixed_point, c_2_fixed_point) = (1, 308, 768)
   \<and> \<bar>single_value c_0 - (512 + of_int (get_mantissa c_0)) / 512\<bar> < 1 / 512
   \<and> \<bar>single_value c_1 - of_int (drop_bit 1 (512 + get_mantissa c_1)) / 512\<bar> < 1 / 512
   \<and> \<bar>single_value c_2 - of_int (drop_bit 2 (512 + get_mantissa c_2)) / 512\<bar> < 1 / 512
   \<and> of_int c_2_fixed_point / of_int c_1_fixed_point > (4 :: rat) * (single_value c_2 / single_value c_1)"
proof -
  have m: "get_mantissa c_0 = 1" "get_mantissa c_1 = 154" "get_mantissa c_2 = 192" by code_simp+
  have d: "drop_bit 1 (512 + 154 :: int) = 333" "drop_bit 2 (512 + 192 :: int) = 176" by code_simp+
  have v: "single_value c_0 = 8409379 / 8388608" "single_value c_1 = 42667 / 65536" "single_value c_2 = 5771381 / 16777216"
    by (simp_all add: single_value_def c_0_def c_1_def c_2_def power_int_def power_divide)
  show ?thesis unfolding c_0_fixed_point_def c_1_fixed_point_def c_2_fixed_point_def m d v by (simp add: push_bit_eq_mult)
qed

end
