(* ===== verification/Spec2Isabelle.thy ===== *)
theory Spec2Isabelle
  imports NewExample Superscalar RiskMem NestedLoop ReluSession WholeProgram Tools
begin

text \<open>
  \<^bold>\<open>The program.\<close>  Cherry is an accelerator for machine learning: a device on an FPGA
  (SystemVerilog, src/core) and Python programs on the host.  Three things happen around a run.

  \<^item> A program for the device is written: \<^verbatim>\<open>experiments/compiler/compiler.py\<close> is a front end that
    runs a decorated Python function once and records the instructions it calls, with a table of
    its loops and one of its address formulas; \<^verbatim>\<open>experiments/compiler/assembler.py\<close> packs instructions
    into 16-bit words and the two tables into a header of 186 bytes.  The relu programs of
    \<^verbatim>\<open>experiments/compiler/std\<close> call the assembler by hand; their result is copied into
    \<^verbatim>\<open>cherrysim.py\<close> and into the simulated caches of the device (\<^verbatim>\<open>core/Memory/fake_pcache.sv\<close>).
  \<^item> The host program \<^verbatim>\<open>cherrysim.py\<close> sends the program and a start command over a socket, and
    then serves the device: the device's main memory is an array of tiles on the host, read and
    written with packets, until the packet that ends the program comes.
  \<^item> On the device \<^verbatim>\<open>core/top.sv\<close> joins the receiver of packets, the instruction memory, the control
    unit, which runs the loops and pushes one command for up to sixteen copies of an instruction,
    the queue that turns the pushed reads into single requests, and the sender of packets.  The pushed
    instructions go through the instruction queue, which spaces them by their latencies, to the
    pipelines: the tile cache, the registers and the arithmetic.

  Two scripts are experiments on this design: \<^verbatim>\<open>experiments/superscalar.py\<close> spreads the copies of
  instructions over queues, \<^verbatim>\<open>experiments/risk_mem.py\<close> counts the cycles of a memory of hashed banks.

  \<^bold>\<open>The theories.\<close>  Each holds the definitions of one part, in the order of the code, and its lemmas.

  \<^item> \<open>Prelude\<close>: Python's exceptions as values (\<open>'a res\<close>), bit fields and byte strings with the most
    significant bit first, \<^verbatim>\<open>int.to_bytes\<close> and \<^verbatim>\<open>from_bytes\<close>, cutting lists into chunks.
  \<^item> \<open>Bitstring\<close>, \<open>Sympy\<close>, and \<open>numpy_lib\<close> in \<open>TileCodec\<close>: the third-party packages.  The code takes
    their functions as arguments; the locales state the laws it relies on and are interpreted on
    concrete functions, which the witnesses use.
  \<^item> \<open>Assembler\<close> (assembler.py) and \<open>Decoder\<close> (the decoder and the address units of
    core/ControlUnit/control_unit.sv, loopmux.sv): every accepted instruction decodes to its
    operands (C23), which operands are accepted (C24, C25), the hardware reads the loops back (C26),
    and the address registers follow the affine formulas whatever the loops do (C27), while products
    of variables are dropped.
  \<^item> \<open>Compiler\<close> (compiler.py): the module's variables are the record \<open>cstate\<close>; a decorated function is
    a \<open>stmt\<close> over the operations the module offers, loops taking their body as a function of the loop
    variable.  An operation returns its result or exception together with the state it leaves.
    The tables' invariant, which the locale \<open>compiler_property\<close> carries through every statement (C30),
    when a function is accepted (C28) and to what it compiles (C29), what is left after an exception,
    nesting and numbering (C31), \<^verbatim>\<open>cherry_range\<close> against Python's range (C32), loads
    with a loop variable.  \<open>NewExample\<close> (new_example.py) compiles relu for every shape (C38).
  \<^item> \<open>Programs\<close> (fast_relu.py, slow_relu.py, fake_pcache.sv): the copies of the program agree, and
    the example of assembler.py runs.
  \<^item> \<open>TileCodec\<close> (cherrysim.py): sixteen floats in 36 bytes and back (C22).
  \<^item> \<open>ByteSource\<close>: reading exactly \<open>n\<close> bytes from a stream that may return fewer, as a locale, and a
    socket as a list of the pieces that \<^verbatim>\<open>recv\<close> returns.  \<open>Host\<close> (class
    \<^verbatim>\<open>PinnedDeviceMemorySpace\<close> of cherrysim.py): the serving loop is a \<open>partial_function\<close>, so that
    not returning is None; it refines a parser of the bytes in one piece (C19), ends after a valid
    session (C20), reads back what was written, and fails or runs for ever as C36 and C37 say.
    \<open>ReluSession\<close>: the whole program with its check at exit (C21).
  \<^item> \<open>PacketReceiver\<close> (core/Dma/PacketReceiver.sv): the receiver clock by clock; the locale \<open>byte_sink\<close>
    shows that clocks without a byte do not matter.  \<open>Link\<close>: the host's packets through the receiver,
    an upload (C18), a start command and the answers of a session (C17).
  \<^item> \<open>ControlUnit\<close> (control_unit.sv): the state machine clock by clock, with the stall of its queue.
    \<open>ControlLoop\<close>: the pushes of a program that is one loop, for any stalls (C11).  \<open>NestedLoop\<close>: a
    loop that starts an inner loop again (C33).
  \<^item> \<open>Clocked\<close>: runs of a clocked machine, what they put out, what holds at every clock, and the
    locale \<open>conserving\<close> for machines that lose nothing: what comes out, followed by what is inside, is
    what was inside followed by what went in.
  \<^item> \<open>Prefetch\<close> (core/FIFO/prefetch_initiate_superscalar_fifo.sv): the queue of the pushed reads.  The
    locale \<open>conserving\<close> is interpreted on the queue, on the control unit with the queue
    (\<open>Device\<close>) and on both with the sender (\<open>Requests\<close>), each on top of the one before.
    \<open>Device\<close> (core/top.sv): no command is lost (C12), and a loop requests all its tiles in order (C10).
    \<open>Startup\<close>: from the bytes the host sends at start to these requests (C9).
  \<^item> \<open>PacketSender\<close> (core/Dma/PacketSender.sv) and \<open>Requests\<close>: the bytes the device sends are whole
    packets of the requests it took (C8), and the host serves exactly these requests (C4).
  \<^item> \<open>Varray\<close> (core/FIFO/varray.sv): the sparse array, which is specified as an array of 65536 elements
    and kept as a ring of 64 groups of copies; it reads like the array when it is used in order (C15),
    its flag marks the first copies of groups that are not late, and an error in \<^verbatim>\<open>queue_size\<close> makes a
    ring that empties at its last place useless (C35).
  \<^item> \<open>InstructionQueue\<close> (core/FIFO/iq.sv): a push goes to the place that its predecessors' latencies
    allow (C14), a pop hands the three pipelines the copies at one place (C6), except that a late group
    loses its address (C34).  \<open>Core\<close> (core/top.sv): with the control unit in front of it, the stall
    keeps the rings from overflowing (C13).
  \<^item> \<open>Execution\<close> (core/Memory/dcache.sv and regfile.sv, core/Processing/pipeline.sv and UnopALU.sv, the stage
    registers of core/top.sv): the cache, the registers and the arithmetic, clock by clock; at the latencies
    of the queue a tile goes through them and comes out as its relu (C7).
  \<^item> \<open>Top\<close> (core/top.sv between its queues): the control unit and its queues in front, the pipelines
    behind, and \<^verbatim>\<open>freeze\<close>.  \<open>Schedule\<close> says where the instruction queue puts the pushes of a program that is
    pushed early enough, and that an empty queue hands out nothing; \<open>Ahead\<close> that a control unit that is early
    keeps all hypotheses on the queue, however the pipelines freeze; \<open>LoopTiming\<close> reduces being early to a check
    on the list of pushes of a one-loop program.  \<open>Views\<close>: the pipelines see each issued copy once and
    nothing in between; \<open>Progress\<close>: every unfrozen clock pops until all is issued.  \<open>ReluQueue\<close> and
    \<open>ReluDevice\<close> put the relu program through: what the device writes back is relu of what it fetched (C3),
    and it finishes (C5).
  \<^item> \<open>Smplfifo\<close> (core/FIFO/smplfifo.v): the plain queue refines a bounded list (C16).  \<open>Board\<close> (all of
    core/top.sv but the serial modules): the device with its four plain queues, the instruction memory, the
    receiver and the sender; its parts run by themselves on the inputs that the others give them.
    \<open>BoardTraffic\<close>: the sender takes every entry of its queues exactly once, and what it sends is whole packets.
    \<open>BoardLoop\<close> closes the loop with the host: what the board receives is what the host answers to the
    board's own requests, so it receives exactly the tiles it asked for.  \<open>BoardStart\<close>: until the last
    byte of the start command the board rests, and then it has the program in its memories.  \<open>PromptHost\<close>: a
    board after reset and a host that answers at once.  \<open>WholeRun\<close>: the board and the host compute relu, whatever
    the pace (C2).  \<open>WholeEnd\<close>: when the transmitter becomes free again and again and the host answers, a board that has
    started asks for all rows, gets them, is never frozen again, writes all rows and reports the end.
    \<open>WholeProgram\<close>: so from reset on the host's loop ends with the result in its memory (C1).
  \<^item> \<open>Superscalar\<close> (superscalar.py): program order (C39), latency and the script's run.
    \<open>RiskMem\<close> (risk_mem.py): the hash and the cycles of a load (C40), and the counts of the script.
    \<open>Tools\<close>: \<^verbatim>\<open>makehex.py\<close> and \<^verbatim>\<open>experiments/ex2/approxexp.py\<close>.

  \<^bold>\<open>Conventions and bounds.\<close>  A SystemVerilog vector is a bit list or a word of its width, a register
  is a field of its module's record, and a clock is a function from the inputs and the state to
  the state, with the non-blocking assignments read from the state before the clock.  A run is a list of the
  inputs of its clocks; where a theorem says that something has happened, it asks for enough clocks
  that were not stalled: \<open>program_clocks m r\<close> is 9 + \<open>r\<close> (3 \<open>m\<close> + 4) for a body of \<open>m\<close> instructions run \<open>r\<close>
  times, 161 clocks for relu.  Iteration counts are below 2^18, the width of the counters, and the
  prefetch queue is full at 60 commands.  In \<open>ControlLoop\<close> and \<open>Device\<close> the environment \<open>env\<close> (execution
  queue and caches) does not change during a run; \<open>Startup\<close> shows that it is the one the host's bytes
  set up.  The wire between the prefetch queue and the sender has sixteen bits, so the upper two
  of an address are lost there, as C8 says.  In \<open>Varray\<close> and \<open>InstructionQueue\<close> the hypotheses that bound
  a run are bool-valued functions of each clock: the positions are below 65500 (\<open>in_range\<close>), a ring has fewer
  than 63 unfinished groups at a write and does not empty at its last place (\<open>ring_ok\<close>), a group is in its ring
  before its place is next (\<open>on_time\<close>).  In \<open>Execution\<close> a read beyond the 32 tiles of the
  cache gives an unknown value \<open>X\<close>, an argument of the clock that is the same at every clock of a run.
  The reset of the sparse arrays does not clear their memories; the runs of the instruction queue start from
  \<open>varray_start\<close>, with cleared memories, as after power-up.  The field \<open>queue_copy_count\<close> of the control unit has the width of
  the counters for every \<open>W\<close>; the wires of core/top.sv, where \<open>W\<close> is 16, take its low five bits.  There is no fuel: the loops of the host are \<open>partial_function\<close>s, the
  others recursions on data.

  \<^bold>\<open>Not modelled.\<close>  \<^verbatim>\<open>experiments/compiler/example.py\<close> imports names that compiler.py does not define and
  stops before its own code runs.  \<^verbatim>\<open>relu_test.py\<close>, \<^verbatim>\<open>repeat_test.py\<close> and \<^verbatim>\<open>dma_host_test.py\<close> drive a
  serial port by hand.  Of the device, the serial modules \<^verbatim>\<open>uart_rx\<close> and \<^verbatim>\<open>uart_tx\<close> are
  not in the repository: the byte received in a clock and the transmitter's busy flag are inputs of the runs.
  \<open>transmitter_ok\<close> says of the flag that it comes up only after a byte was handed over, and \<open>answered\<close> of the bytes that they
  are a beginning of what the host sends in answer to the requests that were begun.  C1 also assumes the fairness that
  the real lines have: \<open>transmitter_frees\<close>, the transmitter becomes free again and again, and \<open>host_answers\<close>, what the
  host owes arrives at some time; \<open>PromptHost\<close> satisfies them all.  \<open>Top\<close>, \<open>Requests\<close> and the
  theories before them leave the plain queues open, so that their theorems hold for any behaviour of these;
  the other memory modules of dcache.sv and cache_instruction_pipeline.sv are not instantiated, and
  \<^verbatim>\<open>ro_data_mem\<close> is not used by top.sv.  Keyword arguments in the call of a
  compiled function are not modelled.  Printing, the listing of a compiled program
  included, is left out everywhere, and so are the formal-only parts of the SystemVerilog files.
\<close>

end
